(* ===== verification/Prelude.thy ===== *)
theory Prelude imports Main "HOL-Library.Word" "HOL-Library.Char_ord" "HOL-Library.List_Lexorder" "HOL-Library.AList" "HOL-Library.Sublist" "HOL-Library.Multiset" begin

text \<open>
  Shared vocabulary of the development: bytes, results with errors as values, a fallible
  fold for the program's early-return loops, and slices of byte buffers with the
  read-after-write laws that the encoders (\<^verbatim>\<open>binary.LittleEndian.PutUint32(buf[16:], v)\<close> and
  its kin) need.  Collections: \<open>slice_simps\<close> for reads of written buffers.
\<close>

type_synonym byte = "8 word"
type_synonym bytes = "byte list"

named_theorems slice_simps "reads of a buffer after writes at known offsets"

subsection \<open>Results\<close>

text \<open>Go's \<^verbatim>\<open>(value, error)\<close> returns: \<open>Inl\<close> the error, \<open>Inr\<close> the value.\<close>

fun and_then :: "'e + 'a \<Rightarrow> ('a \<Rightarrow> 'e + 'b) \<Rightarrow> 'e + 'b" where
  "and_then (Inl e) f = Inl e"
| "and_then (Inr x) f = f x"

lemma and_then_eq_Inr [simp]: "and_then m f = Inr y \<longleftrightarrow> (\<exists>x. m = Inr x \<and> f x = Inr y)"
  by (cases m) auto

lemma Inr_eq_and_then [simp]: "Inr y = and_then m f \<longleftrightarrow> (\<exists>x. m = Inr x \<and> f x = Inr y)"
  by (cases m) auto

lemma and_then_cong [fundef_cong]:
  "m = m' \<Longrightarrow> (\<And>x. m' = Inr x \<Longrightarrow> f x = g x) \<Longrightarrow> and_then m f = and_then m' g"
  by (cases m') auto

lemma and_then_assoc: "and_then (and_then m f) g = and_then m (\<lambda>x. and_then (f x) g)"
  by (cases m) auto

text \<open>A loop whose body may return early with an error.\<close>

fun foldr_err :: "('s \<Rightarrow> 'a \<Rightarrow> 'e + 's) \<Rightarrow> 's \<Rightarrow> 'a list \<Rightarrow> 'e + 's" where
  "foldr_err f s [] = Inr s"
| "foldr_err f s (x # xs) = and_then (f s x) (\<lambda>s'. foldr_err f s' xs)"

lemma foldr_err_append:
  "foldr_err f s (xs @ ys) = and_then (foldr_err f s xs) (\<lambda>s'. foldr_err f s' ys)"
  by (induction xs arbitrary: s) (auto simp: and_then_assoc)

text \<open>What every step keeps, the loop keeps; what relates each step, the loop relates.\<close>

lemma foldr_err_invariant:
  assumes "foldr_err f s xs = Inr s'"
    and "P s"
    and "\<And>s x s'. x \<in> set xs \<Longrightarrow> P s \<Longrightarrow> f s x = Inr s' \<Longrightarrow> P s'"
  shows "P s'"
  using assms by (induction xs arbitrary: s) auto

lemma foldr_err_total:
  assumes "P s"
    and "\<And>s x. x \<in> set xs \<Longrightarrow> P s \<Longrightarrow> \<exists>s'. f s x = Inr s' \<and> P s'"
  shows "\<exists>s'. foldr_err f s xs = Inr s' \<and> P s'"
  using assms by (induction xs arbitrary: s) fastforce+

subsection \<open>Association lists\<close>

lemma map_of_update: "map_of (AList.update k v al) = (map_of al)(k \<mapsto> v)"
  by (simp add: update_conv')

lemma map_of_perm:
  assumes "distinct (map fst xs)" and "mset ys = mset xs"
  shows "map_of ys = map_of xs"
proof
  fix k
  have d: "distinct (map fst ys)" and s: "set ys = set xs"
    using assms by (metis mset_eq_imp_distinct_iff mset_map, metis set_mset_mset)
  show "map_of ys k = map_of xs k"
    using assms(1) d s by (cases "map_of ys k"; cases "map_of xs k") auto
qed

lemma map_of_sort_key: "distinct (map fst al) \<Longrightarrow> map_of (sort_key fst al) = map_of al"
  by (rule map_of_perm) simp_all

subsection \<open>Slices\<close>

definition slice :: "nat \<Rightarrow> nat \<Rightarrow> 'a list \<Rightarrow> 'a list" where
  "slice off n xs = take n (drop off xs)"

definition put_at :: "nat \<Rightarrow> 'a list \<Rightarrow> 'a list \<Rightarrow> 'a list" where
  "put_at off bs buf = take off buf @ bs @ drop (off + length bs) buf"

lemma length_slice [simp]: "length (slice off n xs) = min n (length xs - off)"
  by (simp add: slice_def)

lemma slice_append_left [slice_simps]: "off + n \<le> length xs \<Longrightarrow> slice off n (xs @ ys) = slice off n xs"
  by (simp add: slice_def)

lemma slice_append_right [slice_simps]:
  "length xs \<le> off \<Longrightarrow> slice off n (xs @ ys) = slice (off - length xs) n ys"
  by (simp add: slice_def)

lemma slice_all [slice_simps]: "n = length xs \<Longrightarrow> slice 0 n xs = xs"
  by (simp add: slice_def)

lemma slice_slice: "a + n \<le> m \<Longrightarrow> slice a n (slice off m xs) = slice (off + a) n xs"
  by (simp add: slice_def drop_take add.commute min_def)

lemma length_put_at [simp]: "off + length bs \<le> length buf \<Longrightarrow> length (put_at off bs buf) = length buf"
  by (simp add: put_at_def)

lemma slice_put_same [slice_simps]:
  "off \<le> length buf \<Longrightarrow> n = length bs \<Longrightarrow> slice off n (put_at off bs buf) = bs"
  by (simp add: slice_def put_at_def)

lemma slice_put_before [slice_simps]:
  "off' + n \<le> off \<Longrightarrow> off \<le> length buf \<Longrightarrow> slice off' n (put_at off bs buf) = slice off' n buf"
  by (simp add: slice_def put_at_def drop_take)

lemma slice_put_after [slice_simps]:
  "off + length bs \<le> off' \<Longrightarrow> off + length bs \<le> length buf
   \<Longrightarrow> slice off' n (put_at off bs buf) = slice off' n buf"
  by (simp add: slice_def put_at_def)

lemma slice_replicate [slice_simps]: "off + n \<le> m \<Longrightarrow> slice off n (replicate m x) = replicate n x"
  by (simp add: slice_def)

subsection \<open>Machines\<close>

text \<open>A machine answers every event with a new state and the effects it emits; \<open>play\<close> runs it over a
  sequence of events.  \<open>good h s\<close>: a property of the effects so far and the state, kept by every step.\<close>

fun play :: "('ev \<Rightarrow> 's \<Rightarrow> 's \<times> 'o list) \<Rightarrow> 'ev list \<Rightarrow> 's \<Rightarrow> 's \<times> 'o list" where
  "play f [] s = (s, [])"
| "play f (ev # evs) s =
     (let (s1, out) = f ev s; (s2, outs) = play f evs s1 in (s2, out @ outs))"

lemma play_append: "play f (xs @ ys) s =
   (let (s1, out) = play f xs s; (s2, outs) = play f ys s1 in (s2, out @ outs))"
  by (induction xs arbitrary: s) (simp_all add: split_beta Let_def)

locale machine =
  fixes step :: "'ev \<Rightarrow> 's \<Rightarrow> 's \<times> 'o list"
    and good :: "'o list \<Rightarrow> 's \<Rightarrow> bool"
  assumes step_good: "good h s \<Longrightarrow> good (h @ snd (step ev s)) (fst (step ev s))"
begin

lemma play_good_from: "good h s \<Longrightarrow> good (h @ snd (play step evs s)) (fst (play step evs s))"
proof (induction evs arbitrary: h s)
  case (Cons ev evs)
  from Cons.IH [OF step_good [OF Cons.prems, of ev]] show ?case by (simp add: split_beta Let_def)
qed simp

lemma play_good: "good [] s \<Longrightarrow> good (snd (play step evs s)) (fst (play step evs s))"
  using play_good_from [of "[]"] by simp

end

text \<open>What \<^verbatim>\<open>find\<close> finds.\<close>

lemma find_some: "find P xs = Some x \<Longrightarrow> x \<in> set xs \<and> P x"
  by (induction xs) (auto split: if_splits)

end
