(* ===== verification/Go_Bytes.thy ===== *)
theory Go_Bytes imports Prelude begin

text \<open>
  The fixed-width integers of \<^verbatim>\<open>encoding/binary\<close>, little and big endian, as functions from
  a width in bytes and a value.  Both byte orders satisfy one contract, the locale
  \<open>int_codec\<close>; the encoders and decoders of the frame protocol, the EROFS image and the
  service map use only that contract.
\<close>

fun le_bytes :: "nat \<Rightarrow> nat \<Rightarrow> bytes" where
  "le_bytes 0 v = []"
| "le_bytes (Suc n) v = word_of_nat v # le_bytes n (v div 256)"

fun le_val :: "bytes \<Rightarrow> nat" where
  "le_val [] = 0"
| "le_val (b # bs) = unat b + 256 * le_val bs"

definition be_bytes :: "nat \<Rightarrow> nat \<Rightarrow> bytes" where
  "be_bytes n v = rev (le_bytes n v)"

definition be_val :: "bytes \<Rightarrow> nat" where
  "be_val bs = le_val (rev bs)"

locale int_codec =
  fixes enc :: "nat \<Rightarrow> nat \<Rightarrow> bytes"
    and dec :: "bytes \<Rightarrow> nat"
  assumes dec_enc: "dec (enc n v) = v mod 256 ^ n"
    and length_enc [simp]: "length (enc n v) = n"
begin

lemma dec_enc_small: "v < 256 ^ n \<Longrightarrow> dec (enc n v) = v"
  by (simp add: dec_enc)

lemma enc_inj: "v < 256 ^ n \<Longrightarrow> w < 256 ^ n \<Longrightarrow> enc n v = enc n w \<Longrightarrow> v = w"
  by (metis dec_enc_small)

lemma dec_slice_put:
  "off \<le> length buf \<Longrightarrow> dec (slice off n (put_at off (enc n v) buf)) = v mod 256 ^ n"
  by (simp add: slice_simps dec_enc)

lemma dec_enc_word:
  fixes w :: "'w::len word"
  assumes "LENGTH('w) \<le> 8 * n"
  shows "dec (enc n (unat w)) = unat w"
proof -
  have "unat w < 2 ^ LENGTH('w)" by simp
  also have "(2::nat) ^ LENGTH('w) \<le> 2 ^ (8 * n)" using assms by simp
  also have "(2::nat) ^ (8 * n) = 256 ^ n" by (simp add: power_mult)
  finally show ?thesis by (rule dec_enc_small)
qed

lemma word_dec_enc:
  fixes w :: "'w::len word"
  shows "LENGTH('w) \<le> 8 * n \<Longrightarrow> word_of_nat (dec (enc n (unat w))) = w"
  by (simp add: dec_enc_word)

end

lemma length_le_bytes [simp]: "length (le_bytes n v) = n"
  by (induction n arbitrary: v) auto

lemma le_val_le_bytes: "le_val (le_bytes n v) = v mod 256 ^ n"
proof (induction n arbitrary: v)
  case 0
  then show ?case by simp
next
  case (Suc n)
  have "unat (word_of_nat v :: byte) = v mod 256" by (simp add: unat_of_nat)
  with Suc show ?case by (simp add: mod_mult2_eq)
qed

interpretation le: int_codec le_bytes le_val
  by unfold_locales (simp_all add: le_val_le_bytes)

interpretation be: int_codec be_bytes be_val
  by unfold_locales (simp_all add: be_bytes_def be_val_def le_val_le_bytes)

lemma le_val_bound: "le_val bs < 256 ^ length bs"
proof (induction bs)
  case (Cons b bs)
  have "unat b < 256" using unsigned_less [of b] by simp
  moreover from Cons have "256 * le_val bs + 256 \<le> 256 * 256 ^ length bs" by simp
  ultimately show ?case by simp
qed simp

lemma le_bytes_le_val: "le_bytes (length bs) (le_val bs) = bs"
proof (induction bs)
  case (Cons b bs)
  have b: "unat b < 256" using unsigned_less [of b] by simp
  then have "(unat b + 256 * le_val bs) div 256 = le_val bs" by simp
  moreover have "(word_of_nat 256 :: byte) = 0" by simp
  then have "(word_of_nat (256 * le_val bs) :: byte) = 0"
    by (simp only: of_nat_mult mult_zero_left)
  then have "(word_of_nat (unat b + 256 * le_val bs) :: byte) = b"
    by (simp only: of_nat_add of_nat_unat ucast_id add_0_right)
  ultimately show ?case using Cons by simp
qed simp

text \<open>Strings of the source are byte strings: a \<^typ>\<open>char\<close> is a byte.\<close>

definition string_bytes :: "string \<Rightarrow> bytes" where
  "string_bytes s = map of_char s"

definition bytes_string :: "bytes \<Rightarrow> string" where
  "bytes_string bs = map (\<lambda>b. char_of (unat b)) bs"

lemma length_string_bytes [simp]: "length (string_bytes s) = length s"
  by (simp add: string_bytes_def)

lemma bytes_string_inverse [simp]: "bytes_string (string_bytes s) = s"
proof -
  have "char_of (unat (of_char c :: byte)) = c" for c :: char
  proof -
    have "(of_char c :: nat) < 256" by simp
    moreover have "(of_char c :: byte) = word_of_nat (of_char c)" by (simp add: of_nat_of_char)
    ultimately have "unat (of_char c :: byte) = of_char c" by (simp only: unat_of_nat) simp
    then show ?thesis by simp
  qed
  then show ?thesis by (simp add: bytes_string_def string_bytes_def comp_def)
qed

end
