(* ===== verification/Go_Strings.thy ===== *)
theory Go_Strings imports Prelude begin

text \<open>
  What the program uses of Go's \<^verbatim>\<open>strings\<close>, \<^verbatim>\<open>strconv\<close>, \<^verbatim>\<open>path\<close> and \<^verbatim>\<open>path/filepath\<close> (on a Unix
  host \<^verbatim>\<open>filepath\<close> is \<^verbatim>\<open>path\<close>).  Go strings are byte strings, here \<^typ>\<open>string\<close>; case folding is
  the ASCII one, which is what the strings it is applied to (protocols, image references, DNS
  names) hold.
\<close>

subsection \<open>Prefixes, suffixes, case\<close>

definition has_prefix :: "string \<Rightarrow> string \<Rightarrow> bool" where
  "has_prefix s p = (take (length p) s = p)"

definition has_suffix :: "string \<Rightarrow> string \<Rightarrow> bool" where
  "has_suffix s p = has_prefix (rev s) (rev p)"

definition trim_prefix :: "string \<Rightarrow> string \<Rightarrow> string" where
  "trim_prefix s p = (if has_prefix s p then drop (length p) s else s)"

definition trim_suffix :: "string \<Rightarrow> string \<Rightarrow> string" where
  "trim_suffix s p = (if has_suffix s p then take (length s - length p) s else s)"

definition trim_char :: "char \<Rightarrow> string \<Rightarrow> string" where
  "trim_char c s = rev (dropWhile (\<lambda>x. x = c) (rev (dropWhile (\<lambda>x. x = c) s)))"

definition lower_char :: "char \<Rightarrow> char" where
  "lower_char c = (if CHR ''A'' \<le> c \<and> c \<le> CHR ''Z'' then char_of ((of_char c :: nat) + 32) else c)"

definition upper_char :: "char \<Rightarrow> char" where
  "upper_char c = (if CHR ''a'' \<le> c \<and> c \<le> CHR ''z'' then char_of ((of_char c :: nat) - 32) else c)"

definition to_lower :: "string \<Rightarrow> string" where
  "to_lower s = map lower_char s"

definition to_upper :: "string \<Rightarrow> string" where
  "to_upper s = map upper_char s"

definition equal_fold :: "string \<Rightarrow> string \<Rightarrow> bool" where
  "equal_fold s t = (to_lower s = to_lower t)"

lemma has_prefix_iff: "has_prefix s p \<longleftrightarrow> (\<exists>t. s = p @ t)"
  unfolding has_prefix_def by (metis append_eq_conv_conj append_take_drop_id)

lemma has_prefix_prefix: "has_prefix s p = prefix p s"
  by (auto simp: has_prefix_iff prefix_def)

lemma has_suffix_iff: "has_suffix s p \<longleftrightarrow> (\<exists>t. s = t @ p)"
  unfolding has_suffix_def has_prefix_iff by (metis rev_append rev_rev_ident)

lemma trim_prefix_append [simp]: "trim_prefix (p @ s) p = s"
  by (simp add: trim_prefix_def has_prefix_def)

lemma trim_suffix_append [simp]: "trim_suffix (s @ p) p = s"
  by (auto simp: trim_suffix_def has_suffix_iff)

subsection \<open>Splitting and joining\<close>

text \<open>\<^verbatim>\<open>strings.Split\<close> at a one-byte separator and \<^verbatim>\<open>strings.Join\<close>.\<close>

fun split_on :: "char \<Rightarrow> string \<Rightarrow> string list" where
  "split_on c [] = [[]]"
| "split_on c (x # xs) =
     (if x = c then [] # split_on c xs
      else (x # hd (split_on c xs)) # tl (split_on c xs))"

fun join_with :: "string \<Rightarrow> string list \<Rightarrow> string" where
  "join_with sep [] = []"
| "join_with sep [s] = s"
| "join_with sep (s # t # ts) = s @ sep @ join_with sep (t # ts)"

lemma split_on_not_Nil [simp]: "split_on c s \<noteq> []"
  by (cases s) auto

text \<open>For evaluation: the rest is split once.\<close>

lemma split_on_code [code]:
  "split_on c [] = [[]]"
  "split_on c (x # xs) =
     (case split_on c xs of [] \<Rightarrow> [] | w # ws \<Rightarrow> if x = c then [] # w # ws else (x # w) # ws)"
  by (simp, cases "split_on c xs") simp_all

lemma split_on_no_sep: "w \<in> set (split_on c s) \<Longrightarrow> c \<notin> set w"
proof (induction s arbitrary: w)
  case (Cons x s)
  have "hd (split_on c s) \<in> set (split_on c s)" by simp
  moreover have "set (tl (split_on c s)) \<subseteq> set (split_on c s)" by (simp add: list.set_sel(2) subsetI)
  ultimately show ?case using Cons by (auto split: if_splits)
qed simp

lemma split_on_atom: "c \<notin> set w \<Longrightarrow> split_on c w = [w]"
  by (induction w) auto

lemma split_on_append: "c \<notin> set w \<Longrightarrow> split_on c (w @ c # s) = w # split_on c s"
  by (induction w) auto

lemma split_on_append_sep: "split_on c (s @ c # t) = split_on c s @ split_on c t"
  by (induction s) auto

lemma split_join:
  "ws \<noteq> [] \<Longrightarrow> \<forall>w \<in> set ws. c \<notin> set w \<Longrightarrow> split_on c (join_with [c] ws) = ws"
proof (induction ws)
  case (Cons w ws)
  then show ?case by (cases ws) (auto simp: split_on_append split_on_atom)
qed simp

lemma join_with_Cons: "ws \<noteq> [] \<Longrightarrow> join_with sep (w # ws) = w @ sep @ join_with sep ws"
  by (cases ws) auto

lemma join_with_Cons_char: "join_with sep ((x # w) # ws) = x # join_with sep (w # ws)"
  by (cases ws) auto

lemma join_split: "join_with [c] (split_on c s) = s"
  by (induction s) (auto simp: join_with_Cons join_with_Cons_char)

lemma join_with_snoc: "ws \<noteq> [] \<Longrightarrow> join_with sep (ws @ [w]) = join_with sep ws @ sep @ w"
  by (induction ws rule: join_with.induct [of _ sep]) (auto simp: join_with_Cons)

subsection \<open>Decimal numbers\<close>

text \<open>\<^verbatim>\<open>strconv\<close>'s decimal form, as \<^verbatim>\<open>%d\<close> prints it.\<close>

definition digit_char :: "nat \<Rightarrow> char" where
  "digit_char d = char_of (48 + d)"

fun nat_digits :: "nat \<Rightarrow> string" where
  "nat_digits n = (if n < 10 then [digit_char n] else nat_digits (n div 10) @ [digit_char (n mod 10)])"

declare nat_digits.simps [simp del]

definition int_digits :: "int \<Rightarrow> string" where
  "int_digits i = (if i < 0 then CHR ''-'' # nat_digits (nat (- i)) else nat_digits (nat i))"

definition is_digit :: "char \<Rightarrow> bool" where
  "is_digit c = (48 \<le> (of_char c :: nat) \<and> (of_char c :: nat) \<le> 57)"

definition digit_val :: "char \<Rightarrow> nat" where
  "digit_val c = of_char c - 48"

definition digits_val :: "string \<Rightarrow> nat" where
  "digits_val s = foldl (\<lambda>a c. 10 * a + digit_val c) 0 s"

lemma digit_val_char [simp]: "d < 10 \<Longrightarrow> digit_val (digit_char d) = d"
  by (simp add: digit_val_def digit_char_def)

lemma is_digit_char [simp]: "d < 10 \<Longrightarrow> is_digit (digit_char d)"
  by (simp add: is_digit_def digit_char_def)

lemma nat_digits_digits: "c \<in> set (nat_digits n) \<Longrightarrow> is_digit c"
proof (induction n rule: nat_digits.induct)
  case (1 n)
  then show ?case by (subst (asm) nat_digits.simps) (auto split: if_splits)
qed

lemma digits_val_nat_digits: "digits_val (nat_digits n) = n"
proof (induction n rule: nat_digits.induct)
  case (1 n)
  then show ?case by (subst nat_digits.simps) (auto simp: digits_val_def)
qed

lemma nat_digits_inj: "nat_digits m = nat_digits n \<Longrightarrow> m = n"
  by (metis digits_val_nat_digits)

lemma nat_digits_no_colon: "CHR '':'' \<notin> set (nat_digits n)"
  using nat_digits_digits [of "CHR '':''" n] by (auto simp: is_digit_def)

subsection \<open>Paths\<close>

text \<open>
  \<^verbatim>\<open>path.Clean\<close>: the elements of the path are resolved against a stack, empty ones and
  \<^verbatim>\<open>.\<close> dropped, \<^verbatim>\<open>..\<close> popping the element before it (or kept, at the start of a relative
  path; or dropped, at the root).
\<close>

fun resolve :: "bool \<Rightarrow> string list \<Rightarrow> string list \<Rightarrow> string list" where
  "resolve rooted st [] = rev st"
| "resolve rooted st (c # cs) =
     (if c = [] \<or> c = ''.'' then resolve rooted st cs
      else if c = ''..'' then
        (case st of
           [] \<Rightarrow> resolve rooted (if rooted then [] else [''..'']) cs
         | t # ts \<Rightarrow> resolve rooted (if t = ''..'' then ''..'' # st else ts) cs)
      else resolve rooted (c # st) cs)"

definition is_rooted :: "string \<Rightarrow> bool" where
  "is_rooted p = has_prefix p ''/''"

definition path_comps :: "string \<Rightarrow> string list" where
  "path_comps p = resolve (is_rooted p) [] (split_on (CHR ''/'') p)"

definition path_clean :: "string \<Rightarrow> string" where
  "path_clean p =
     (let body = join_with ''/'' (path_comps p)
      in if is_rooted p then CHR ''/'' # body
         else if body = [] then ''.'' else body)"

text \<open>\<^verbatim>\<open>path.Dir\<close>, \<^verbatim>\<open>path.Base\<close>, \<^verbatim>\<open>path.Join\<close>.\<close>

definition dir_part :: "string \<Rightarrow> string" where
  "dir_part p = rev (dropWhile (\<lambda>c. c \<noteq> CHR ''/'') (rev p))"

definition path_dir :: "string \<Rightarrow> string" where
  "path_dir p = path_clean (dir_part p)"

definition path_base :: "string \<Rightarrow> string" where
  "path_base p =
     (if p = [] then ''.''
      else let q = rev (dropWhile (\<lambda>c. c = CHR ''/'') (rev p))
           in if q = [] then ''/'' else last (split_on (CHR ''/'') q))"

definition path_join :: "string list \<Rightarrow> string" where
  "path_join elems =
     (let es = filter (\<lambda>e. e \<noteq> []) elems
      in if es = [] then [] else path_clean (join_with ''/'' es))"

subsubsection \<open>Clean paths\<close>

definition good_comp :: "string \<Rightarrow> bool" where
  "good_comp c = (c \<noteq> [] \<and> c \<noteq> ''.'' \<and> CHR ''/'' \<notin> set c)"

definition plain_comp :: "string \<Rightarrow> bool" where
  "plain_comp c = (good_comp c \<and> c \<noteq> ''..'')"

lemma resolve_good:
  "\<forall>c \<in> set cs. CHR ''/'' \<notin> set c \<Longrightarrow> list_all good_comp st \<Longrightarrow> list_all good_comp (resolve r st cs)"
proof (induction cs arbitrary: st)
  case (Cons c cs)
  then have IH: "list_all good_comp st' \<Longrightarrow> list_all good_comp (resolve r st' cs)" for st' by simp
  have "good_comp ''..''" by code_simp
  moreover have "good_comp c" if "c \<noteq> []" "c \<noteq> ''.''"
    using Cons.prems(1) that by (simp add: good_comp_def)
  ultimately show ?case using Cons.prems(2) by (cases st) (simp_all add: IH)
qed simp

lemma resolve_rooted_plain:
  "\<forall>c \<in> set cs. CHR ''/'' \<notin> set c \<Longrightarrow> list_all plain_comp st \<Longrightarrow> list_all plain_comp (resolve True st cs)"
proof (induction cs arbitrary: st)
  case (Cons c cs)
  then have IH: "list_all plain_comp st' \<Longrightarrow> list_all plain_comp (resolve True st' cs)" for st' by simp
  have "plain_comp c" if "c \<noteq> []" "c \<noteq> ''.''" "c \<noteq> ''..''"
    using Cons.prems(1) that by (simp add: plain_comp_def good_comp_def)
  moreover have "\<not> plain_comp ''..''" by (simp add: plain_comp_def)
  ultimately show ?case using Cons.prems(2) by (cases st) (auto simp: IH)
qed simp

lemma resolve_id: "\<forall>c \<in> set cs. plain_comp c \<Longrightarrow> resolve r st cs = rev st @ cs"
  by (induction cs arbitrary: st) (auto simp: plain_comp_def good_comp_def)

lemma resolve_snoc_empty: "resolve r st (cs @ [[]]) = resolve r st cs"
  by (induction r st cs rule: resolve.induct) (auto split: list.splits)

lemma resolve_Cons_empty: "resolve r st ([] # cs) = resolve r st cs"
  by simp

definition ncomps :: "string \<Rightarrow> nat" where
  "ncomps s = length (filter (\<lambda>w. w \<noteq> []) (split_on (CHR ''/'') s))"

lemma resolve_length: "length (resolve r st cs) \<le> length st + length (filter (\<lambda>w. w \<noteq> []) cs)"
proof (induction r st cs rule: resolve.induct)
  case (2 r st c cs)
  then show ?case by (cases st) (auto split: if_splits)
qed simp

lemma path_comps_good: "c \<in> set (path_comps p) \<Longrightarrow> good_comp c"
  using resolve_good [of "split_on (CHR ''/'') p" "[]" "is_rooted p"] split_on_no_sep [of _ "CHR ''/''" p]
  by (auto simp: path_comps_def list_all_iff)

lemma path_comps_rooted: "is_rooted p \<Longrightarrow> c \<in> set (path_comps p) \<Longrightarrow> plain_comp c"
  using resolve_rooted_plain [of "split_on (CHR ''/'') p" "[]"] split_on_no_sep [of _ "CHR ''/''" p]
  by (auto simp: path_comps_def list_all_iff)

lemma good_comp_no_slash: "good_comp c \<Longrightarrow> CHR ''/'' \<notin> set c"
  by (simp add: good_comp_def)

lemma split_join_comps:
  "cs \<noteq> [] \<Longrightarrow> \<forall>c \<in> set cs. good_comp c \<Longrightarrow> split_on (CHR ''/'') (join_with ''/'' cs) = cs"
  by (rule split_join) (auto simp: good_comp_def)

lemma join_comps_Nil: "\<forall>c \<in> set cs. good_comp c \<Longrightarrow> join_with ''/'' cs = [] \<longleftrightarrow> cs = []"
  by (cases cs; cases "tl cs") (auto simp: good_comp_def)

lemma split_slash: "split_on (CHR ''/'') (CHR ''/'' # s) = [] # split_on (CHR ''/'') s"
  by simp

text \<open>The two shapes of a clean path.\<close>

lemma path_clean_cases:
  obtains (dot) "path_clean p = ''.''" "path_comps p = []" "\<not> is_rooted p"
  | (root) "path_clean p = ''/''" "path_comps p = []" "is_rooted p"
  | (abs) "path_clean p = CHR ''/'' # join_with ''/'' (path_comps p)" "path_comps p \<noteq> []" "is_rooted p"
  | (rel) "path_clean p = join_with ''/'' (path_comps p)" "path_comps p \<noteq> []" "\<not> is_rooted p"
  using join_comps_Nil [of "path_comps p"] path_comps_good [of _ p]
  by (cases "is_rooted p"; cases "path_comps p = []") (auto simp: path_clean_def Let_def)

lemma dir_part_join:
  assumes "CHR ''/'' \<notin> set c"
  shows "dir_part (s @ CHR ''/'' # c) = s @ ''/''" and "dir_part c = []"
proof -
  have "dropWhile (\<lambda>x. x \<noteq> CHR ''/'') (rev c @ xs) = dropWhile (\<lambda>x. x \<noteq> CHR ''/'') xs" for xs
    using assms by (intro dropWhile_append2) auto
  from this [of "CHR ''/'' # rev s"] this [of "[]"]
  show "dir_part (s @ CHR ''/'' # c) = s @ ''/''" and "dir_part c = []"
    by (simp_all add: dir_part_def)
qed

lemma dir_part_comps:
  assumes "\<forall>c \<in> set (cs @ [c]). good_comp c"
  shows "dir_part (join_with ''/'' (cs @ [c])) = (if cs = [] then [] else join_with ''/'' cs @ ''/'')"
    and "dir_part (CHR ''/'' # join_with ''/'' (cs @ [c])) =
           CHR ''/'' # (if cs = [] then [] else join_with ''/'' cs @ ''/'')"
  using assms dir_part_join(1) [of c "join_with ''/'' cs"] dir_part_join(2) [of c]
    dir_part_join(1) [of c "CHR ''/'' # join_with ''/'' cs"] dir_part_join(1) [of c "[]"]
  by (auto simp: join_with_snoc good_comp_def)

text \<open>A clean path of plain components is what \<^verbatim>\<open>Clean\<close>, \<^verbatim>\<open>Dir\<close> and \<^verbatim>\<open>Base\<close> take apart.\<close>

lemma not_rooted_join: "cs \<noteq> [] \<Longrightarrow> good_comp (hd cs) \<Longrightarrow> \<not> is_rooted (join_with ''/'' cs)"
  by (cases cs; cases "tl cs"; cases "hd cs") (auto simp: is_rooted_def has_prefix_def good_comp_def)

lemma path_clean_plain:
  assumes "cs \<noteq> []" "\<forall>c \<in> set cs. plain_comp c"
  shows "path_clean (join_with ''/'' cs) = join_with ''/'' cs"
    and "path_clean (join_with ''/'' cs @ ''/'') = join_with ''/'' cs"
    and "path_comps (join_with ''/'' cs) = cs"
proof -
  have g: "\<forall>c \<in> set cs. good_comp c" using assms(2) by (simp add: plain_comp_def)
  have nr: "\<not> is_rooted (join_with ''/'' cs)"
    using assms g by (simp add: not_rooted_join)
  then have nr': "\<not> is_rooted (join_with ''/'' cs @ ''/'')"
    using join_comps_Nil [OF g] assms(1)
    by (cases "join_with ''/'' cs") (auto simp: is_rooted_def has_prefix_def)
  show pc: "path_comps (join_with ''/'' cs) = cs"
    using assms g nr by (simp add: path_comps_def split_join_comps resolve_id)
  have "path_comps (join_with ''/'' cs @ ''/'') = cs"
    using assms g nr' by (simp add: path_comps_def split_on_append_sep split_join_comps resolve_snoc_empty resolve_id)
  with pc nr nr' join_comps_Nil [OF g] assms(1)
  show "path_clean (join_with ''/'' cs) = join_with ''/'' cs"
    and "path_clean (join_with ''/'' cs @ ''/'') = join_with ''/'' cs"
    by (simp_all add: path_clean_def)
qed

lemma path_dir_plain:
  assumes "\<forall>c \<in> set (cs @ [c]). plain_comp c"
  shows "path_dir (join_with ''/'' (cs @ [c])) = (if cs = [] then ''.'' else join_with ''/'' cs)"
proof -
  have g: "\<forall>c \<in> set (cs @ [c]). good_comp c" using assms by (simp add: plain_comp_def)
  show ?thesis
    using assms dir_part_comps(1) [OF g] path_clean_plain(2) [of cs]
    by (simp add: path_dir_def) (simp add: path_clean_def path_comps_def is_rooted_def has_prefix_def)
qed

lemma last_split_good:
  assumes "\<forall>c \<in> set (cs @ [c]). good_comp c"
  shows "path_base (join_with ''/'' (cs @ [c])) = c"
proof -
  let ?p = "join_with ''/'' (cs @ [c])"
  have "c \<noteq> []" "CHR ''/'' \<notin> set c" using assms by (auto simp: good_comp_def)
  then obtain x xs where rc: "rev c = x # xs" and x: "x \<noteq> CHR ''/''" by (cases "rev c") auto
  have "\<exists>ys. rev ?p = rev c @ ys" by (cases "cs = []") (auto simp: join_with_snoc)
  then have "dropWhile (\<lambda>c. c = CHR ''/'') (rev ?p) = rev ?p" using rc x by auto
  moreover have "?p \<noteq> []" using join_comps_Nil [OF assms] by simp
  moreover have "split_on (CHR ''/'') ?p = cs @ [c]" using assms by (simp add: split_join_comps)
  ultimately show ?thesis by (simp add: path_base_def)
qed

subsubsection \<open>Absolute paths\<close>

definition abs_path :: "string list \<Rightarrow> string" where
  "abs_path cs = CHR ''/'' # join_with ''/'' cs"

lemma abs_path_comps:
  assumes "\<forall>c \<in> set cs. plain_comp c"
  shows "path_comps (abs_path cs) = cs" and "path_comps (abs_path cs @ ''/'') = cs"
proof -
  have g: "\<forall>c \<in> set cs. good_comp c" using assms by (simp add: plain_comp_def)
  have "resolve True [] (split_on (CHR ''/'') (join_with ''/'' cs)) = cs"
    using assms g by (cases "cs = []") (simp_all add: split_join_comps resolve_id)
  moreover have "resolve True [] (split_on (CHR ''/'') (join_with ''/'' cs) @ [[]]) = cs"
    using calculation by (simp add: resolve_snoc_empty)
  ultimately show "path_comps (abs_path cs) = cs" and "path_comps (abs_path cs @ ''/'') = cs"
    using split_on_append_sep [of "CHR ''/''" "join_with ''/'' cs" "[]"]
    by (simp_all add: path_comps_def abs_path_def is_rooted_def has_prefix_def)
qed

lemma path_clean_rooted: "is_rooted p \<Longrightarrow> path_clean p = abs_path (path_comps p)"
  by (simp add: path_clean_def abs_path_def Let_def)

lemma is_rooted_abs [simp]: "is_rooted (abs_path cs)"
  by (simp add: is_rooted_def has_prefix_def abs_path_def)

lemma abs_path_clean: "\<forall>c \<in> set cs. plain_comp c \<Longrightarrow> path_clean (abs_path cs) = abs_path cs"
  by (simp add: path_clean_rooted abs_path_comps)

lemma resolve_append_plain:
  "\<forall>c \<in> set cs. plain_comp c \<Longrightarrow> resolve r st (cs @ ds) = resolve r (rev cs @ st) ds"
  by (induction cs arbitrary: st) (auto simp: plain_comp_def good_comp_def)

lemma path_join_abs:
  assumes "\<forall>d \<in> set ds. plain_comp d" and "c = [] \<or> plain_comp c"
  shows "path_join [abs_path ds, c] = abs_path (if c = [] then ds else ds @ [c])"
proof (cases "c = []")
  case True
  with assms show ?thesis using abs_path_clean by (simp add: path_join_def abs_path_def)
next
  case False
  with assms have c: "plain_comp c" "CHR ''/'' \<notin> set c" by (auto simp: plain_comp_def good_comp_def)
  have g: "\<forall>d \<in> set ds. good_comp d" using assms by (simp add: plain_comp_def)
  have r: "is_rooted (abs_path ds @ ''/'' @ c)" by (simp add: is_rooted_def has_prefix_def abs_path_def)
  have "split_on (CHR ''/'') (abs_path ds @ ''/'' @ c) = [] # (if ds = [] then [[]] else ds) @ [c]"
    using split_on_append_sep [of "CHR ''/''" "join_with ''/'' ds" c] c(2) g
    by (simp add: abs_path_def split_join_comps split_on_atom)
  then have "path_comps (abs_path ds @ ''/'' @ c) = resolve True [] (ds @ [c])"
    using r by (simp add: path_comps_def)
  also have "\<dots> = ds @ [c]" using assms c by (simp add: resolve_id)
  finally show ?thesis using False r by (simp add: path_join_def path_clean_rooted abs_path_def)
qed

lemma split_abs_path:
  assumes "\<forall>c \<in> set cs. plain_comp c"
  shows "split_on (CHR ''/'') (abs_path cs) = [] # (if cs = [] then [[]] else cs)"
  using assms by (simp add: abs_path_def split_join_comps plain_comp_def)

lemma path_join_abs_abs:
  assumes "\<forall>c \<in> set ds. plain_comp c" and "\<forall>c \<in> set cs. plain_comp c"
  shows "path_join [abs_path ds, abs_path cs] = abs_path (ds @ cs)"
proof -
  let ?p = "abs_path ds @ ''/'' @ abs_path cs"
  have r: "is_rooted ?p" by (simp add: is_rooted_def has_prefix_def abs_path_def)
  have "split_on (CHR ''/'') ?p = ([] # (if ds = [] then [[]] else ds)) @ [] # (if cs = [] then [[]] else cs)"
    using split_on_append_sep [of "CHR ''/''" "abs_path ds" "abs_path cs"] split_abs_path [OF assms(1)] split_abs_path [OF assms(2)]
    by simp
  then have "path_comps ?p = resolve True [] (ds @ [] # (if cs = [] then [[]] else cs))"
    using r by (simp add: path_comps_def)
  also have "\<dots> = ds @ cs"
    using assms by (auto simp: resolve_append_plain resolve_id)
  finally show ?thesis using r by (simp add: path_join_def path_clean_rooted abs_path_def)
qed

lemma path_dir_abs:
  assumes "\<forall>c \<in> set (cs @ [c]). plain_comp c"
  shows "path_dir (abs_path (cs @ [c])) = abs_path cs"
proof -
  have g: "\<forall>c \<in> set (cs @ [c]). good_comp c" using assms by (simp add: plain_comp_def)
  have "dir_part (abs_path (cs @ [c])) = (if cs = [] then abs_path [] else abs_path cs @ ''/'')"
    using dir_part_comps(2) [OF g] by (simp add: abs_path_def)
  moreover have "path_clean (abs_path cs @ ''/'') = abs_path cs"
    using abs_path_comps(2) [of cs] assms path_clean_rooted [of "abs_path cs @ ''/''"]
    by (simp add: is_rooted_def has_prefix_def abs_path_def)
  moreover have "path_clean (abs_path []) = abs_path []" by (simp add: abs_path_clean)
  ultimately show ?thesis by (simp add: path_dir_def)
qed

subsubsection \<open>Going to the parent makes a path shorter\<close>

definition path_depth :: "string \<Rightarrow> nat" where
  "path_depth p = (if path_clean p = ''.'' then 0 else Suc (length (path_comps p)))"

lemma ncomps_trim: "ncomps (trim_prefix s ''/'') = ncomps s"
  by (cases s) (auto simp: ncomps_def trim_prefix_def has_prefix_def)

lemma path_comps_ncomps: "length (path_comps p) \<le> ncomps p"
  using resolve_length [of "is_rooted p" "[]"] by (simp add: path_comps_def ncomps_def)

lemma ncomps_clean: "path_clean p \<noteq> ''.'' \<Longrightarrow> ncomps (path_clean p) = length (path_comps p)"
proof (cases p rule: path_clean_cases)
  case abs
  have g: "\<forall>c \<in> set (path_comps p). good_comp c" by (simp add: path_comps_good)
  then have "filter (\<lambda>w. w \<noteq> []) (path_comps p) = path_comps p"
    by (simp add: good_comp_def)
  then show ?thesis using abs g by (simp add: ncomps_def split_join_comps)
next
  case rel
  have g: "\<forall>c \<in> set (path_comps p). good_comp c" by (simp add: path_comps_good)
  then have "filter (\<lambda>w. w \<noteq> []) (path_comps p) = path_comps p"
    by (simp add: good_comp_def)
  then show ?thesis using rel g by (simp add: ncomps_def split_join_comps)
qed (simp_all add: ncomps_def)

lemma ncomps_dir_part:
  assumes "path_comps p \<noteq> []"
  shows "ncomps (dir_part (path_clean p)) < length (path_comps p)"
proof -
  obtain cs c where pc: "path_comps p = cs @ [c]"
    using assms by (metis append_butlast_last_id)
  have g: "\<forall>c \<in> set (cs @ [c]). good_comp c" using path_comps_good pc by metis
  have f: "length (filter (\<lambda>w. w \<noteq> []) cs) = length cs"
    using g by (simp add: good_comp_def)
  have j: "ncomps (join_with ''/'' cs @ ''/'') = length cs" if "cs \<noteq> []"
    using g that f by (simp add: ncomps_def split_on_append_sep split_join_comps)
  have "ncomps (dir_part (path_clean p)) = length cs"
    by (cases p rule: path_clean_cases)
      (use assms pc dir_part_comps [OF g] j in \<open>auto simp: ncomps_def split: if_splits\<close>)
  then show ?thesis using pc by simp
qed

lemma path_depth_dir:
  assumes "path_clean (trim_prefix p ''/'') \<noteq> ''.''"
  shows "path_depth (trim_prefix (path_dir (path_clean (trim_prefix p ''/''))) ''/'')
         < path_depth (trim_prefix p ''/'')"
proof -
  let ?q = "trim_prefix p ''/''"
  let ?d = "path_dir (path_clean ?q)"
  have q: "path_depth ?q = Suc (length (path_comps ?q))" using assms by (simp add: path_depth_def)
  show ?thesis
  proof (cases "path_comps ?q = []")
    case True
    then have "path_clean ?q = ''/''" using assms by (cases ?q rule: path_clean_cases) auto
    moreover have "path_depth (trim_prefix (path_dir ''/'') ''/'') = 0" by code_simp
    ultimately have "path_depth (trim_prefix ?d ''/'') = 0" by simp
    then show ?thesis using q by simp
  next
    case False
    show ?thesis
    proof (cases "path_clean (trim_prefix ?d ''/'') = ''.''")
      case True
      then show ?thesis using q by (simp add: path_depth_def)
    next
      case nd: False
      have "length (path_comps (trim_prefix ?d ''/'')) \<le> ncomps ?d"
        using path_comps_ncomps ncomps_trim by metis
      also have "ncomps ?d < length (path_comps ?q)"
      proof (cases "?d = ''.''")
        case True
        then have "path_clean (trim_prefix ?d ''/'') = ''.''" by (simp only:) code_simp
        with nd show ?thesis by simp
      next
        case d: False
        then have "ncomps ?d \<le> ncomps (dir_part (path_clean ?q))"
          unfolding path_dir_def using ncomps_clean path_comps_ncomps by metis
        with ncomps_dir_part [OF False] show ?thesis by simp
      qed
      finally show ?thesis using q by (simp add: path_depth_def)
    qed
  qed
qed

end
