(* ===== verification/Frames.thy ===== *)
theory Frames imports Go_Bytes Go_Strings begin

text \<open>
  The frame protocol between the agent (\<^verbatim>\<open>poc/agent/streams.go\<close>) and the in-guest daemon
  (\<^verbatim>\<open>poc/execd/main.go\<close>): \<^verbatim>\<open>type(1) | length(4, big endian) | payload\<close>.  Each program has its own
  copy of \<^verbatim>\<open>writeFrame\<close> and \<^verbatim>\<open>readFrame\<close>; both are modelled, and the contract they must share to
  understand each other is the locale \<open>frame_link\<close>, interpreted for both directions of the
  connection.  On top of it: the agent's session loop, its request loop, the stdin pump of a
  session, and the guest's side of an exec session.
\<close>

subsection \<open>Connections\<close>

text \<open>
  A connection as one end sees it: the bytes written so far and how many more the peer takes
  before a write fails.  Reading is from the list of bytes the peer sends before it closes.
\<close>

record conn =
  written :: bytes
  room :: nat

datatype io_error = EOF | UnexpectedEOF

definition conn_write :: "bytes \<Rightarrow> conn \<Rightarrow> bool \<times> conn" where
  "conn_write bs c =
     (if length bs \<le> room c
      then (True, c\<lparr>written := written c @ bs, room := room c - length bs\<rparr>)
      else (False, c\<lparr>written := written c @ take (room c) bs, room := 0\<rparr>))"

text \<open>\<^verbatim>\<open>io.ReadFull\<close>: all \<open>n\<close> bytes, or the error that says whether any arrived.\<close>

definition read_full :: "nat \<Rightarrow> bytes \<Rightarrow> io_error + (bytes \<times> bytes)" where
  "read_full n bs =
     (if n \<le> length bs then Inr (take n bs, drop n bs)
      else if bs = [] then Inl EOF else Inl UnexpectedEOF)"

subsection \<open>Frame types\<close>

definition frame_stdin :: byte where "frame_stdin = 0"
definition frame_stdout :: byte where "frame_stdout = 1"
definition frame_stderr :: byte where "frame_stderr = 2"
definition frame_exit :: byte where "frame_exit = 3"
definition frame_resize :: byte where "frame_resize = 4"
definition frame_stdin_close :: byte where "frame_stdin_close = 5"
definition frame_request :: byte where "frame_request = 6"

lemmas frame_types = frame_stdin_def frame_stdout_def frame_stderr_def frame_exit_def
  frame_resize_def frame_stdin_close_def frame_request_def

subsection \<open>The two implementations\<close>

text \<open>\<^verbatim>\<open>framedConn\<close> of execd.  \<^verbatim>\<open>uint32(len(payload))\<close> is the length modulo \<open>2 ^ 32\<close>.\<close>

definition framed_write :: "byte \<Rightarrow> bytes \<Rightarrow> conn \<Rightarrow> bool \<times> conn" where
  "framed_write typ payload c =
     (let hdr = typ # be_bytes 4 (length payload)
      in case conn_write hdr c of
           (False, c') \<Rightarrow> (False, c')
         | (True, c') \<Rightarrow> conn_write payload c')"

definition framed_read :: "bytes \<Rightarrow> io_error + ((byte \<times> bytes) \<times> bytes)" where
  "framed_read bs =
     and_then (read_full 5 bs) (\<lambda>(hdr, bs').
       and_then (read_full (be_val (drop 1 hdr)) bs') (\<lambda>(payload, bs'').
         Inr ((hd hdr, payload), bs'')))"

text \<open>\<^verbatim>\<open>execdConn\<close> of the agent.\<close>

definition execd_conn_write :: "byte \<Rightarrow> bytes \<Rightarrow> conn \<Rightarrow> bool \<times> conn" where
  "execd_conn_write typ payload c =
     (let hdr = typ # be_bytes 4 (length payload)
      in case conn_write hdr c of
           (False, c') \<Rightarrow> (False, c')
         | (True, c') \<Rightarrow> conn_write payload c')"

definition execd_conn_read :: "bytes \<Rightarrow> io_error + ((byte \<times> bytes) \<times> bytes)" where
  "execd_conn_read bs =
     and_then (read_full 5 bs) (\<lambda>(hdr, bs').
       and_then (read_full (be_val (drop 1 hdr)) bs') (\<lambda>(payload, bs'').
         Inr ((hd hdr, payload), bs'')))"

lemma read_full_Inr:
  "read_full n bs = Inr (x, y) \<longleftrightarrow> n \<le> length bs \<and> x = take n bs \<and> y = drop n bs"
  by (auto simp: read_full_def)

lemma framed_read_shorter: "framed_read bs = Inr (f, rest) \<Longrightarrow> length rest < length bs"
  by (auto simp: framed_read_def read_full_Inr)

lemma execd_conn_read_shorter: "execd_conn_read bs = Inr (f, rest) \<Longrightarrow> length rest < length bs"
  by (auto simp: execd_conn_read_def read_full_Inr)

subsection \<open>The contract of a link\<close>

text \<open>Sending and receiving a sequence of frames with any writer and reader.\<close>

fun send_frames :: "(byte \<Rightarrow> bytes \<Rightarrow> conn \<Rightarrow> bool \<times> conn) \<Rightarrow> (byte \<times> bytes) list \<Rightarrow> conn \<Rightarrow> bool \<times> conn" where
  "send_frames wr [] c = (True, c)"
| "send_frames wr ((t, p) # fs) c =
     (case wr t p c of (False, c') \<Rightarrow> (False, c') | (True, c') \<Rightarrow> send_frames wr fs c')"

fun recv_frames :: "(bytes \<Rightarrow> io_error + ((byte \<times> bytes) \<times> bytes)) \<Rightarrow> nat \<Rightarrow> bytes
    \<Rightarrow> io_error + ((byte \<times> bytes) list \<times> bytes)" where
  "recv_frames rd 0 bs = Inr ([], bs)"
| "recv_frames rd (Suc n) bs =
     and_then (rd bs) (\<lambda>(f, rest). and_then (recv_frames rd n rest) (\<lambda>(fs, rest'). Inr (f # fs, rest')))"

definition small_frames :: "(byte \<times> bytes) list \<Rightarrow> bool" where
  "small_frames fs = list_all (\<lambda>(t, p). length p < 2 ^ 32) fs"

locale frame_link =
  fixes wr :: "byte \<Rightarrow> bytes \<Rightarrow> conn \<Rightarrow> bool \<times> conn"
    and rd :: "bytes \<Rightarrow> io_error + ((byte \<times> bytes) \<times> bytes)"
    and encode :: "byte \<Rightarrow> bytes \<Rightarrow> bytes"
  assumes wr_ok: "wr t p c = (True, c') \<Longrightarrow> written c' = written c @ encode t p"
    and wr_room: "length (encode t p) \<le> room c \<Longrightarrow> \<exists>c'. wr t p c = (True, c') \<and> room c' = room c - length (encode t p)"
    and rd_encode: "length p < 2 ^ 32 \<Longrightarrow> rd (encode t p @ rest) = Inr ((t, p), rest)"
    and rd_cut: "bs \<noteq> [] \<Longrightarrow> length p < 2 ^ 32 \<Longrightarrow> strict_prefix bs (encode t p) \<Longrightarrow> rd bs = Inl UnexpectedEOF \<or> rd bs = Inl EOF"
    and rd_end: "rd [] = Inl EOF"
begin

definition wire :: "(byte \<times> bytes) list \<Rightarrow> bytes" where
  "wire fs = concat (map (\<lambda>(t, p). encode t p) fs)"

lemma send_written: "send_frames wr fs c = (True, c') \<Longrightarrow> written c' = written c @ wire fs"
proof (induction fs arbitrary: c)
  case (Cons f fs)
  obtain t p where f: "f = (t, p)" by (cases f)
  with Cons.prems obtain c1 where "wr t p c = (True, c1)" "send_frames wr fs c1 = (True, c')"
    by (auto split: prod.splits bool.splits)
  then show ?case using wr_ok [of t p c c1] Cons.IH [of c1] f by (simp add: wire_def)
qed (simp add: wire_def)

lemma recv_wire:
  "small_frames fs \<Longrightarrow> recv_frames rd (length fs) (wire fs @ rest) = Inr (fs, rest)"
  by (induction fs) (auto simp: small_frames_def wire_def rd_encode)

lemma send_recv:
  assumes "small_frames fs" and "send_frames wr fs \<lparr>written = [], room = r\<rparr> = (True, c')"
  shows "recv_frames rd (length fs) (written c') = Inr (fs, [])"
  using recv_wire [OF assms(1), of "[]"] send_written [OF assms(2)] by simp

lemma send_enough_room: "length (wire fs) \<le> room c \<Longrightarrow> \<exists>c'. send_frames wr fs c = (True, c')"
proof (induction fs arbitrary: c)
  case (Cons f fs)
  obtain t p where f: "f = (t, p)" by (cases f)
  with Cons.prems have l: "length (encode t p) + length (wire fs) \<le> room c" by (simp add: wire_def)
  then obtain c' where "wr t p c = (True, c')" "room c' = room c - length (encode t p)"
    using wr_room [of t p c] by auto
  with l Cons.IH [of c'] f show ?case by auto
qed simp

end

definition frame_bytes :: "byte \<Rightarrow> bytes \<Rightarrow> bytes" where
  "frame_bytes t p = t # be_bytes 4 (length p) @ p"

lemma length_frame_bytes [simp]: "length (frame_bytes t p) = 5 + length p"
  by (simp add: frame_bytes_def)

lemma framed_write_ok: "framed_write t p c = (True, c') \<Longrightarrow> written c' = written c @ frame_bytes t p"
  by (auto simp: framed_write_def conn_write_def frame_bytes_def Let_def split: if_splits)

lemma framed_write_room:
  "length (frame_bytes t p) \<le> room c
   \<Longrightarrow> \<exists>c'. framed_write t p c = (True, c') \<and> room c' = room c - length (frame_bytes t p)"
  by (auto simp: framed_write_def conn_write_def Let_def)

lemma execd_conn_write_eq: "execd_conn_write = framed_write"
  by (simp add: fun_eq_iff execd_conn_write_def framed_write_def)

lemma execd_conn_read_eq: "execd_conn_read = framed_read"
  by (simp add: fun_eq_iff execd_conn_read_def framed_read_def)

lemma framed_read_bytes: "length p < 2 ^ 32 \<Longrightarrow> framed_read (frame_bytes t p @ rest) = Inr ((t, p), rest)"
proof -
  assume "length p < 2 ^ 32"
  then have "be_val (be_bytes 4 (length p)) = length p" by (intro be.dec_enc_small) simp
  then show ?thesis
    by (simp add: framed_read_def frame_bytes_def read_full_def and_then.simps)
qed

lemma framed_read_cut:
  assumes "length p < 2 ^ 32" and "strict_prefix bs (frame_bytes t p)"
  shows "framed_read bs = Inl UnexpectedEOF \<or> framed_read bs = Inl EOF"
proof (cases "5 \<le> length bs")
  case False
  then show ?thesis by (simp add: framed_read_def read_full_def)
next
  case True
  obtain ys where ys: "frame_bytes t p = bs @ ys" "ys \<noteq> []"
    using assms(2) by (auto simp: strict_prefix_def prefix_def)
  have "take 5 bs = take 5 (bs @ ys)" using True by simp
  also have "\<dots> = t # be_bytes 4 (length p)" using ys(1) by (simp add: frame_bytes_def flip: ys(1))
  finally have "be_val (drop 1 (take 5 bs)) = length p"
    using assms(1) by (simp add: be.dec_enc_small)
  moreover have "length bs < 5 + length p" using ys by (metis length_append length_frame_bytes length_greater_0_conv less_add_same_cancel1)
  ultimately show ?thesis using True by (auto simp: framed_read_def read_full_def)
qed

text \<open>Both directions of the connection: agent to guest, and guest to agent.\<close>

lemma framed_read_Nil: "framed_read [] = Inl EOF"
  by (simp add: framed_read_def read_full_def)

interpretation to_guest: frame_link execd_conn_write framed_read frame_bytes
  unfolding execd_conn_write_eq
  by unfold_locales
    (rule framed_read_Nil | (rule framed_write_ok framed_write_room framed_read_bytes, assumption)
      | (rule framed_read_cut, assumption, assumption))+

interpretation to_agent: frame_link framed_write execd_conn_read frame_bytes
  unfolding execd_conn_read_eq
  by unfold_locales
    (rule framed_read_Nil | (rule framed_write_ok framed_write_room framed_read_bytes, assumption)
      | (rule framed_read_cut, assumption, assumption))+

end
