(* ===== verification/Sessions.thy ===== *)
theory Sessions imports Frames begin

text \<open>
  Sessions over a link: the agent's \<^verbatim>\<open>dialExecd\<close>, \<^verbatim>\<open>session\<close>, \<^verbatim>\<open>execdRequest\<close>
  (\<^verbatim>\<open>poc/agent/streams.go\<close>) and \<^verbatim>\<open>execdStatus\<close> (\<^verbatim>\<open>poc/agent/status.go\<close>), and the guest's half of
  an exec session (\<^verbatim>\<open>handleExec\<close> of \<^verbatim>\<open>poc/execd/handlers.go\<close>): the output copiers, the exit
  frame and the stdin loop.  Decoding of JSON payloads is a parameter: \<open>dec_exit\<close> is
  \<^verbatim>\<open>json.Unmarshal\<close> of an exit payload into its code and error text, the zero values when the
  payload does not decode.
\<close>

datatype session_result =
    SessionOk
  | CodeExitError string int
  | DialError string
  | WriteError
  | ReadError io_error

subsection \<open>Dialing\<close>

text \<open>At most twenty attempts; attempt \<open>i\<close> either connects or fails with an error text.\<close>

fun dial_from :: "nat \<Rightarrow> (nat \<Rightarrow> string option) \<Rightarrow> nat \<Rightarrow> string \<Rightarrow> string + nat" where
  "dial_from 0 att i lastErr = Inl (''dialing execd: '' @ lastErr)"
| "dial_from (Suc k) att i lastErr =
     (case att i of None \<Rightarrow> Inr i | Some e \<Rightarrow> dial_from k att (Suc i) e)"

definition dial_execd :: "(nat \<Rightarrow> string option) \<Rightarrow> string + nat" where
  "dial_execd att = dial_from 20 att 0 []"

lemma dial_from_Inr:
  "dial_from k att i e = Inr j \<longleftrightarrow> i \<le> j \<and> j < i + k \<and> att j = None \<and> (\<forall>m. i \<le> m \<and> m < j \<longrightarrow> att m \<noteq> None)"
proof (induction k arbitrary: i e)
  case (Suc k)
  show ?case
  proof (cases "att i")
    case None
    then show ?thesis by (auto simp: le_less)
  next
    case (Some e')
    have "i \<le> m \<and> m < j \<longleftrightarrow> m = i \<and> i < j \<or> Suc i \<le> m \<and> m < j" for m by auto
    with Some show ?thesis by (simp add: Suc.IH) (metis Some Suc_le_eq le_less option.distinct(1))
  qed
qed simp

subsection \<open>The session loop\<close>

definition exit_error :: "string \<Rightarrow> int \<times> string \<Rightarrow> session_result" where
  "exit_error what e =
     (case e of (code, msg) \<Rightarrow>
        if code = 0 then SessionOk
        else CodeExitError (if msg = [] then what @ int_digits code else msg) code)"

function session_loop :: "(bytes \<Rightarrow> int \<times> string) \<Rightarrow> bool \<Rightarrow> bool \<Rightarrow> bytes
    \<Rightarrow> (bytes \<times> bytes) \<times> session_result" where
  "session_loop dec_exit has_out has_err inb =
     (case execd_conn_read inb of
        Inl e \<Rightarrow> (([], []), SessionOk)
      | Inr ((typ, payload), rest) \<Rightarrow>
          if typ = frame_exit then (([], []), exit_error ''command terminated with exit code '' (dec_exit payload))
          else let ((out, err), r) = session_loop dec_exit has_out has_err rest
               in if typ = frame_stdout \<and> has_out then ((payload @ out, err), r)
                  else if typ = frame_stderr \<and> has_err then ((out, payload @ err), r)
                  else ((out, err), r))"
  by pat_completeness auto
termination
  by (relation "measure (\<lambda>(d, o', e, inb). length inb)") (auto dest: execd_conn_read_shorter)

declare session_loop.simps [simp del]

definition session :: "(bytes \<Rightarrow> int \<times> string) \<Rightarrow> (nat \<Rightarrow> string option) \<Rightarrow> bytes \<Rightarrow> bool \<Rightarrow> bool
    \<Rightarrow> conn \<Rightarrow> bytes \<Rightarrow> ((bytes \<times> bytes) \<times> session_result) \<times> conn" where
  "session dec_exit att req has_out has_err c inb =
     (case dial_execd att of
        Inl e \<Rightarrow> ((([], []), DialError e), c)
      | Inr _ \<Rightarrow>
          (case execd_conn_write frame_request req c of
             (False, c') \<Rightarrow> ((([], []), WriteError), c')
           | (True, c') \<Rightarrow> (session_loop dec_exit has_out has_err inb, c')))"

text \<open>The input pump: each read yields data and whether the reader is done (EOF or error).\<close>

fun stdin_pump :: "(bytes \<times> bool) list \<Rightarrow> conn \<Rightarrow> conn" where
  "stdin_pump [] c = c"
| "stdin_pump ((buf, done) # reads) c =
     (case (if buf \<noteq> [] then execd_conn_write frame_stdin buf c else (True, c)) of
        (False, c') \<Rightarrow> c'
      | (True, c') \<Rightarrow>
          if done then snd (execd_conn_write frame_stdin_close [] c') else stdin_pump reads c')"

subsection \<open>Request and status round trips\<close>

text \<open>\<^verbatim>\<open>execdRequest\<close>: stream frames are skipped; here a dropped connection is an error.\<close>

function request_loop :: "(bytes \<Rightarrow> int \<times> string) \<Rightarrow> bytes \<Rightarrow> session_result" where
  "request_loop dec_exit inb =
     (case execd_conn_read inb of
        Inl e \<Rightarrow> ReadError e
      | Inr ((typ, payload), rest) \<Rightarrow>
          if typ \<noteq> frame_exit then request_loop dec_exit rest
          else exit_error ''exit code '' (dec_exit payload))"
  by pat_completeness auto
termination
  by (relation "measure (\<lambda>(d, inb). length inb)") (auto dest: execd_conn_read_shorter)

declare request_loop.simps [simp del]

definition execd_request :: "(bytes \<Rightarrow> int \<times> string) \<Rightarrow> (nat \<Rightarrow> string option) \<Rightarrow> bytes \<Rightarrow> conn \<Rightarrow> bytes
    \<Rightarrow> session_result \<times> conn" where
  "execd_request dec_exit att req c inb =
     (case dial_execd att of
        Inl e \<Rightarrow> (DialError e, c)
      | Inr _ \<Rightarrow>
          (case execd_conn_write frame_request req c of
             (False, c') \<Rightarrow> (WriteError, c')
           | (True, c') \<Rightarrow> (request_loop dec_exit inb, c')))"

datatype status_error = StatusRead io_error | StatusParse

function status_loop :: "(bytes \<Rightarrow> 's option) \<Rightarrow> bytes \<Rightarrow> bytes \<Rightarrow> status_error + 's" where
  "status_loop dec body inb =
     (case execd_conn_read inb of
        Inl e \<Rightarrow> Inl (StatusRead e)
      | Inr ((typ, payload), rest) \<Rightarrow>
          if typ = frame_stdout then status_loop dec (body @ payload) rest
          else if typ = frame_exit then
            (case dec body of None \<Rightarrow> Inl StatusParse | Some sts \<Rightarrow> Inr sts)
          else status_loop dec body rest)"
  by pat_completeness auto
termination
  by (relation "measure (\<lambda>(d, b, inb). length inb)") (auto dest: execd_conn_read_shorter)

declare status_loop.simps [simp del]

subsection \<open>The guest's half of an exec session\<close>

text \<open>The payload of the frame that ends a session, \<^verbatim>\<open>{"code":n}\<close>.\<close>

definition exit_payload :: "int \<Rightarrow> bytes" where
  "exit_payload code = string_bytes (''{\"code\":'' @ int_digits code @ ''}'')"

text \<open>
  Output events in the order the two copiers write their frames (each write is atomic under
  the connection's mutex), then the exit frame.
\<close>

datatype chunk = OutChunk bytes | ErrChunk bytes

fun chunk_frame :: "chunk \<Rightarrow> byte \<times> bytes" where
  "chunk_frame (OutChunk p) = (frame_stdout, p)"
| "chunk_frame (ErrChunk p) = (frame_stderr, p)"

definition exec_frames :: "chunk list \<Rightarrow> int \<Rightarrow> (byte \<times> bytes) list" where
  "exec_frames outs code = map chunk_frame outs @ [(frame_exit, exit_payload code)]"

definition out_of :: "chunk list \<Rightarrow> bytes" where
  "out_of outs = concat (map (\<lambda>x. case x of OutChunk p \<Rightarrow> p | ErrChunk _ \<Rightarrow> []) outs)"

definition err_of :: "chunk list \<Rightarrow> bytes" where
  "err_of outs = concat (map (\<lambda>x. case x of OutChunk _ \<Rightarrow> [] | ErrChunk p \<Rightarrow> p) outs)"

text \<open>The workload's stdin as the session loop of the guest feeds it.\<close>

record stdin_sink =
  fed :: bytes
  sink_closed :: bool
  win_sizes :: "(16 word \<times> 16 word) list"

definition feed :: "(bytes \<Rightarrow> (16 word \<times> 16 word) option) \<Rightarrow> bool \<Rightarrow> byte \<times> bytes \<Rightarrow> stdin_sink \<Rightarrow> stdin_sink" where
  "feed dec_size has_pty f s =
     (case f of (typ, payload) \<Rightarrow>
        if typ = frame_stdin then (if sink_closed s then s else s\<lparr>fed := fed s @ payload\<rparr>)
        else if typ = frame_stdin_close then s\<lparr>sink_closed := True\<rparr>
        else if typ = frame_resize then
          (case dec_size payload of
             Some sz \<Rightarrow> if has_pty then s\<lparr>win_sizes := win_sizes s @ [sz]\<rparr> else s
           | None \<Rightarrow> s)
        else s)"

function guest_stdin :: "(bytes \<Rightarrow> (16 word \<times> 16 word) option) \<Rightarrow> bool \<Rightarrow> bytes \<Rightarrow> stdin_sink \<Rightarrow> stdin_sink" where
  "guest_stdin dec_size has_pty inb s =
     (case framed_read inb of
        Inl e \<Rightarrow> s
      | Inr (f, rest) \<Rightarrow> guest_stdin dec_size has_pty rest (feed dec_size has_pty f s))"
  by pat_completeness auto
termination
  by (relation "measure (\<lambda>(d, b, inb, s). length inb)") (auto dest: framed_read_shorter)

declare guest_stdin.simps [simp del]

subsection \<open>Loops over a wire of frames\<close>

lemma wire_simps [simp]:
  "to_agent.wire [] = []"
  "to_agent.wire ((t, p) # fs) = frame_bytes t p @ to_agent.wire fs"
  by (simp_all add: to_agent.wire_def)

lemma wire_append [simp]: "to_agent.wire (fs @ gs) = to_agent.wire fs @ to_agent.wire gs"
  by (simp add: to_agent.wire_def)

lemma small_frames_simps [simp]:
  "small_frames []" "small_frames ((t, p) # fs) \<longleftrightarrow> length p < 2 ^ 32 \<and> small_frames fs"
  by (simp_all add: small_frames_def)

lemma session_loop_exit:
  "length p < 2 ^ 32
   \<Longrightarrow> session_loop dec o' e (frame_bytes frame_exit p @ rest)
       = (([], []), exit_error ''command terminated with exit code '' (dec p))"
  by (subst session_loop.simps) (simp add: to_agent.rd_encode)

lemma session_loop_output:
  "small_frames (map chunk_frame outs)
   \<Longrightarrow> session_loop dec True True (to_agent.wire (map chunk_frame outs) @ rest)
       = (let ((out, err), r) = session_loop dec True True rest
          in ((out_of outs @ out, err_of outs @ err), r))"
proof (induction outs)
  case (Cons x outs)
  show ?case
    by (cases x; subst session_loop.simps)
      (use Cons in \<open>auto simp: to_agent.rd_encode frame_types out_of_def err_of_def Let_def split: prod.splits\<close>)
qed (simp add: out_of_def err_of_def)

lemma exit_payload_small: "length (exit_payload code) < 2 ^ 32 \<longleftrightarrow> length (int_digits code) + 9 < 2 ^ 32"
  by (simp add: exit_payload_def)

lemma guest_stdin_wire:
  "small_frames fs
   \<Longrightarrow> guest_stdin dec b (to_agent.wire fs) s = foldl (\<lambda>s f. feed dec b f s) s fs"
proof (induction fs arbitrary: s)
  case Nil
  then show ?case by (subst guest_stdin.simps) (simp add: to_guest.rd_end)
next
  case (Cons f fs)
  then show ?case
    by (cases f; subst guest_stdin.simps) (simp add: to_guest.rd_encode)
qed

subsection \<open>Standard input\<close>

definition stdin_frames :: "bytes list \<Rightarrow> (byte \<times> bytes) list" where
  "stdin_frames bufs = map (\<lambda>b. (frame_stdin, b)) (filter (\<lambda>b. b \<noteq> []) bufs) @ [(frame_stdin_close, [])]"

lemma stdin_frames_Cons:
  "stdin_frames (b # bs) = (if b = [] then stdin_frames bs else (frame_stdin, b) # stdin_frames bs)"
  by (simp add: stdin_frames_def)

lemma write_room:
  assumes "5 + length b + n \<le> room c"
  shows "\<exists>c'. execd_conn_write t b c = (True, c') \<and> n \<le> room c' \<and> written c' = written c @ frame_bytes t b"
proof -
  obtain c' where "execd_conn_write t b c = (True, c')" "room c' = room c - length (frame_bytes t b)"
    using framed_write_room [of t b c] assms by (auto simp: execd_conn_write_eq)
  then show ?thesis using assms framed_write_ok [of t b c c'] by (auto simp: execd_conn_write_eq)
qed

lemma stdin_pump_written:
  "length (to_agent.wire (stdin_frames (bs @ [b]))) \<le> room c
   \<Longrightarrow> written (stdin_pump (map (\<lambda>x. (x, False)) bs @ [(b, True)]) c)
       = written c @ to_agent.wire (stdin_frames (bs @ [b]))"
proof (induction bs arbitrary: c)
  case Nil
  show ?case
  proof (cases "b = []")
    case True
    then show ?thesis
      using Nil write_room [of "[]" 0 c frame_stdin_close] by (auto simp: stdin_frames_def)
  next
    case False
    with Nil obtain c' where c': "execd_conn_write frame_stdin b c = (True, c')" "5 \<le> room c'"
        "written c' = written c @ frame_bytes frame_stdin b"
      using write_room [of b 5 c frame_stdin] by (auto simp: stdin_frames_def)
    with False show ?thesis using write_room [of "[]" 0 c' frame_stdin_close] by (auto simp: stdin_frames_def)
  qed
next
  case (Cons x bs)
  show ?case
  proof (cases "x = []")
    case True
    then show ?thesis using Cons by (simp add: stdin_frames_Cons)
  next
    case False
    with Cons.prems obtain c' where "execd_conn_write frame_stdin x c = (True, c')"
        "length (to_agent.wire (stdin_frames (bs @ [b]))) \<le> room c'"
        "written c' = written c @ frame_bytes frame_stdin x"
      using write_room [of x "length (to_agent.wire (stdin_frames (bs @ [b])))" c frame_stdin]
      by (auto simp: stdin_frames_Cons)
    with False Cons.IH [of c'] show ?thesis by (simp add: stdin_frames_Cons)
  qed
qed

lemma feed_stdin_frames:
  "\<not> sink_closed s \<Longrightarrow> foldl (\<lambda>s f. feed dec b f s) s (stdin_frames bufs)
     = s\<lparr>fed := fed s @ concat bufs, sink_closed := True\<rparr>"
proof (induction bufs arbitrary: s)
  case (Cons x bufs)
  then show ?case by (cases "x = []") (simp_all add: stdin_frames_Cons feed_def)
qed (simp add: stdin_frames_def feed_def frame_types)

lemma wire_length: "length (to_agent.wire fs) = sum_list (map (\<lambda>(t, p). 5 + length p) fs)"
  by (induction fs) auto

lemma sent_with_room:
  assumes "sum_list (map (\<lambda>(t, p). 5 + length p) fs) \<le> r"
  shows "send_frames framed_write fs \<lparr>written = [], room = r\<rparr>
    = (True, snd (send_frames framed_write fs \<lparr>written = [], room = r\<rparr>))"
  using to_agent.send_enough_room [of fs "\<lparr>written = [], room = r\<rparr>"] assms by (auto simp: wire_length)

subsection \<open>Properties\<close>

text \<open>frames survive the connection: what the guest sends with its writer, the agent's reader
  gets back frame by frame; and when the stream is cut inside the next frame, reading that frame
  fails and never yields a wrong frame.\<close>

theorem frames_round_trip:
  assumes "small_frames (fs @ [(t, p)])"
    and "send_frames framed_write fs \<lparr>written = [], room = r\<rparr> = (True, c')"
    and "strict_prefix part (frame_bytes t p)"
  shows "recv_frames execd_conn_read (length fs) (written c' @ part) = Inr (fs, part)
    \<and> execd_conn_read part \<in> {Inl UnexpectedEOF, Inl EOF}"
proof -
  have small: "small_frames fs" "length p < 2 ^ 32" using assms(1) by (auto simp: small_frames_def)
  have "execd_conn_read part \<in> {Inl UnexpectedEOF, Inl EOF}"
    using framed_read_cut [OF small(2) assms(3)] by (simp add: execd_conn_read_eq)
  then show ?thesis
    using to_agent.recv_wire [OF small(1), of part] to_agent.send_written [OF assms(2)] by simp
qed

lemma frames_round_trip_witness:
  "recv_frames execd_conn_read (length [(frame_stdout, [104, 105 :: byte])])
     (written (snd (send_frames framed_write [(frame_stdout, [104, 105])] \<lparr>written = [], room = 100\<rparr>)) @ [3])
     = Inr ([(frame_stdout, [104, 105])], [3])
   \<and> execd_conn_read [3] \<in> {Inl UnexpectedEOF, Inl EOF}"
proof (rule frames_round_trip)
  show "small_frames ([(frame_stdout, [104, 105])] @ [(3, [])])" by (simp add: small_frames_def)
  show "send_frames framed_write [(frame_stdout, [104, 105])] \<lparr>written = [], room = 100\<rparr>
    = (True, snd (send_frames framed_write [(frame_stdout, [104, 105])] \<lparr>written = [], room = 100\<rparr>))"
    by (rule sent_with_room) simp
  have "be_bytes 4 0 \<noteq> []" using be.length_enc [of 4 0] by (metis list.size(3) zero_neq_numeral)
  then show "strict_prefix [3] (frame_bytes 3 [])" by (simp add: frame_bytes_def strict_prefix_def)
qed

text \<open>C18: whatever the interleaving of a command's output, the agent's session hands the client
  exactly the bytes written to stdout and to stderr, in order, and ends with the command's exit
  code.\<close>

theorem session_exec:
  assumes small: "small_frames (exec_frames outs code)"
    and dec: "dec (exit_payload code) = (code, [])"
    and sent: "send_frames framed_write (exec_frames outs code) \<lparr>written = [], room = r\<rparr> = (True, c')"
  shows "session_loop dec True True (written c')
         = ((out_of outs, err_of outs),
            if code = 0 then SessionOk
            else CodeExitError (''command terminated with exit code '' @ int_digits code) code)"
proof -
  have "written c' = to_agent.wire (map chunk_frame outs) @ frame_bytes frame_exit (exit_payload code) @ []"
    using to_agent.send_written [OF sent] by (simp add: exec_frames_def)
  moreover have "small_frames (map chunk_frame outs)" "length (exit_payload code) < 2 ^ 32"
    using small by (auto simp: exec_frames_def small_frames_def)
  ultimately show ?thesis
    by (simp only: session_loop_output session_loop_exit dec exit_error_def) simp
qed

definition dec_three :: "bytes \<Rightarrow> int \<times> string" where
  "dec_three p = (if p = exit_payload 3 then (3, []) else (0, []))"

definition mixed_output :: "chunk list" where
  "mixed_output = [OutChunk [104], ErrChunk [33], OutChunk [105]]"

lemma session_exec_witness:
  "session_loop dec_three True True
     (written (snd (send_frames framed_write (exec_frames mixed_output 3) \<lparr>written = [], room = 1000\<rparr>)))
   = ((out_of mixed_output, err_of mixed_output),
      if (3::int) = 0 then SessionOk
      else CodeExitError (''command terminated with exit code '' @ int_digits 3) 3)"
proof (rule session_exec)
  have digits: "int_digits 3 = ''3''" by code_simp
  then show "small_frames (exec_frames mixed_output 3)"
    by (simp add: exec_frames_def mixed_output_def small_frames_def exit_payload_def)
  show "dec_three (exit_payload 3) = (3, [])" by (simp add: dec_three_def)
  show "send_frames framed_write (exec_frames mixed_output 3) \<lparr>written = [], room = 1000\<rparr>
    = (True, snd (send_frames framed_write (exec_frames mixed_output 3) \<lparr>written = [], room = 1000\<rparr>))"
    by (rule sent_with_room) (simp add: exec_frames_def mixed_output_def exit_payload_def digits)
qed

text \<open>everything the client types reaches the command's stdin, in order, and the end of the
  client's input closes it.\<close>

theorem stdin_delivered:
  assumes "small_frames (stdin_frames (bufs @ [last_buf]))"
    and "length (to_agent.wire (stdin_frames (bufs @ [last_buf]))) \<le> r"
  shows "guest_stdin dec_size has_pty
      (written (stdin_pump (map (\<lambda>x. (x, False)) bufs @ [(last_buf, True)]) \<lparr>written = [], room = r\<rparr>))
      \<lparr>fed = [], sink_closed = False, win_sizes = []\<rparr>
    = \<lparr>fed = concat bufs @ last_buf, sink_closed = True, win_sizes = []\<rparr>"
  using assms stdin_pump_written [of bufs last_buf "\<lparr>written = [], room = r\<rparr>"]
    guest_stdin_wire [OF assms(1)]
  by (simp add: feed_stdin_frames)

lemma stdin_delivered_witness:
  "guest_stdin (\<lambda>_. None) False
      (written (stdin_pump (map (\<lambda>x. (x, False)) [[108], [], [115]] @ [([10], True)]) \<lparr>written = [], room = 100\<rparr>))
      \<lparr>fed = [], sink_closed = False, win_sizes = []\<rparr>
    = \<lparr>fed = concat [[108], [], [115]] @ [10], sink_closed = True, win_sizes = []\<rparr>"
  by (rule stdin_delivered) (simp_all add: stdin_frames_def small_frames_def wire_length)

end
