(* ===== verification/Guest_Spec.thy ===== *)
theory Guest_Spec imports Go_Strings begin

text \<open>
  The pod description execd reads from \<^verbatim>\<open>/.podvm-spec.json\<close> and the environment it builds for
  every process (\<^verbatim>\<open>poc/execd/main.go\<close>: the spec types, \<^verbatim>\<open>defaultEnv\<close>, \<^verbatim>\<open>mergeEnv\<close>).
\<close>

record mount_spec =
  tag :: string
  mount_path :: string
  read_only :: bool

record container_spec =
  cs_name :: string
  argv :: "string list"
  cs_env :: "string list"
  cwd :: string
  tty :: bool
  root_dev :: string
  mounts :: "mount_spec list"

record net_spec =
  net_ip :: string
  net_gw :: string
  net_dns :: string

record svc_spec =
  svc_cidr :: string
  svc_ns :: string

record pod_spec =
  restart_policy :: string
  init_containers :: "container_spec list"
  containers :: "container_spec list"
  net :: "net_spec option"
  net6 :: "string option"
  svc :: "svc_spec option"

definition default_env :: "string list" where
  "default_env =
     [''PATH=/usr/local/sbin:/usr/local/bin:/usr/sbin:/usr/bin:/sbin:/bin'',
      ''HOME=/root'',
      ''TERM=xterm'']"

text \<open>The key of a \<^verbatim>\<open>k=v\<close> entry, \<^verbatim>\<open>strings.Cut(kv, "=")\<close>; an entry without \<^verbatim>\<open>=\<close> is its own key.\<close>

definition env_key :: "string \<Rightarrow> string" where
  "env_key kv = takeWhile (\<lambda>c. c \<noteq> CHR ''='') kv"

definition env_add :: "(string \<rightharpoonup> nat) \<times> string list \<Rightarrow> string \<Rightarrow> (string \<rightharpoonup> nat) \<times> string list" where
  "env_add st kv =
     (case st of (idx, out) \<Rightarrow>
        (case idx (env_key kv) of
           Some i \<Rightarrow> (idx, out[i := kv])
         | None \<Rightarrow> (idx(env_key kv \<mapsto> length out), out @ [kv])))"

definition merge_env :: "string list \<Rightarrow> string list \<Rightarrow> string list" where
  "merge_env base override = snd (foldl env_add (foldl env_add (Map.empty, []) base) override)"

subsection \<open>The index of the merge\<close>

definition keyed :: "string list \<Rightarrow> (string \<times> string) list" where
  "keyed kvs = map (\<lambda>kv. (env_key kv, kv)) kvs"

text \<open>The index holds, for every key, the position of the one entry with that key.\<close>

definition keys_index :: "(string \<rightharpoonup> nat) \<Rightarrow> string list \<Rightarrow> bool" where
  "keys_index idx ks \<longleftrightarrow>
     distinct ks \<and> dom idx = set ks \<and> (\<forall>k i. idx k = Some i \<longrightarrow> i < length ks \<and> ks ! i = k)"

definition env_inv :: "(string \<rightharpoonup> nat) \<times> string list \<Rightarrow> bool" where
  "env_inv st = keys_index (fst st) (map env_key (snd st))"

lemma env_inv_init: "env_inv (Map.empty, [])"
  by (simp add: env_inv_def keys_index_def)

lemma env_inv_distinct: "env_inv (idx, out) \<Longrightarrow> distinct (map env_key out)"
  by (simp add: env_inv_def keys_index_def)

lemma keys_index_new:
  "keys_index idx ks \<Longrightarrow> idx k = None \<Longrightarrow> keys_index (idx(k \<mapsto> length ks)) (ks @ [k])"
  by (auto simp: keys_index_def nth_append domIff dest: less_SucI)

lemma map_update_same: "i < length xs \<Longrightarrow> f y = f (xs ! i) \<Longrightarrow> map f (xs[i := y]) = map f xs"
  by (simp add: map_update list_update_same_conv)

lemma env_inv_at:
  assumes "env_inv (idx, out)" and "idx (env_key kv) = Some i"
  shows "i < length out" and "env_key (out ! i) = env_key kv"
proof -
  from assms have at: "i < length (map env_key out) \<and> map env_key out ! i = env_key kv"
    unfolding env_inv_def keys_index_def fst_conv snd_conv by blast
  then show "i < length out" by simp
  with at show "env_key (out ! i) = env_key kv" by simp
qed

lemma env_inv_add:
  assumes "env_inv (idx, out)"
  shows "env_inv (env_add (idx, out) kv)"
proof (cases "idx (env_key kv)")
  case None
  then show ?thesis
    using assms keys_index_new [of idx "map env_key out" "env_key kv"] by (simp add: env_inv_def env_add_def)
next
  case (Some i)
  then show ?thesis
    using assms env_inv_at [OF assms Some] map_update_same [of i out env_key kv]
    by (simp add: env_inv_def env_add_def)
qed

text \<open>What \<open>env_add\<close> does to the entries: it replaces the one of that key, or appends.\<close>

definition replace_entry :: "string list \<Rightarrow> string \<Rightarrow> string list" where
  "replace_entry out kv =
     (if env_key kv \<in> env_key ` set out
      then map (\<lambda>x. if env_key x = env_key kv then kv else x) out else out @ [kv])"

lemma update_by_key:
  assumes "distinct (map f xs)" and "i < length xs" and "f (xs ! i) = k"
  shows "xs[i := y] = map (\<lambda>x. if f x = k then y else x) xs"
proof (rule nth_equalityI)
  fix j
  assume "j < length (xs[i := y])"
  then have j: "j < length xs" by simp
  have "f (xs ! j) = k \<longleftrightarrow> j = i"
    using assms j nth_eq_iff_index_eq [OF assms(1), of j i] by auto
  then show "xs[i := y] ! j = map (\<lambda>x. if f x = k then y else x) xs ! j"
    using j by (simp add: nth_list_update)
qed simp

lemma env_add_entries:
  assumes "env_inv (idx, out)"
  shows "snd (env_add (idx, out) kv) = replace_entry out kv"
proof (cases "idx (env_key kv)")
  case None
  then have "env_key kv \<notin> env_key ` set out"
    using assms by (auto simp: env_inv_def keys_index_def domIff)
  then show ?thesis using None by (simp add: env_add_def replace_entry_def)
next
  case (Some i)
  note at = env_inv_at [OF assms Some]
  then have "env_key kv \<in> env_key ` set out" by (metis image_eqI nth_mem)
  then show ?thesis
    using Some update_by_key [OF env_inv_distinct [OF assms] at] by (simp add: env_add_def replace_entry_def)
qed

lemma map_of_keyed_map:
  "map_of (keyed (map (\<lambda>x. if env_key x = env_key kv then kv else x) out)) k
   = (if k = env_key kv \<and> env_key kv \<in> env_key ` set out then Some kv else map_of (keyed out) k)"
  by (induction out) (auto simp: keyed_def)

lemma map_of_keyed_snoc:
  "env_key kv \<notin> env_key ` set out \<Longrightarrow> map_of (keyed (out @ [kv])) = (map_of (keyed out))(env_key kv \<mapsto> kv)"
  by (induction out) (auto simp: keyed_def fun_eq_iff)

lemma keyed_replace: "map_of (keyed (replace_entry out kv)) = (map_of (keyed out))(env_key kv \<mapsto> kv)"
  by (cases "env_key kv \<in> env_key ` set out")
    (auto simp: replace_entry_def map_of_keyed_map map_of_keyed_snoc fun_eq_iff)

lemma keyed_rev_Cons:
  "map_of (keyed (rev (kv # kvs))) = (Map.empty)(env_key kv \<mapsto> kv) ++ map_of (keyed (rev kvs))"
  by (simp add: keyed_def)

lemma foldl_env_add:
  "env_inv (idx, out) \<Longrightarrow> env_inv (foldl env_add (idx, out) kvs)
    \<and> map_of (keyed (snd (foldl env_add (idx, out) kvs))) = map_of (keyed out) ++ map_of (keyed (rev kvs))"
proof (induction kvs arbitrary: idx out)
  case Nil
  then show ?case by (simp add: keyed_def)
next
  case (Cons kv kvs)
  obtain idx' out' where e: "env_add (idx, out) kv = (idx', out')" by force
  have inv: "env_inv (idx', out')" using env_inv_add [OF Cons.prems, of kv] e by simp
  have out': "out' = replace_entry out kv" using env_add_entries [OF Cons.prems, of kv] e by simp
  show ?case
    using Cons.IH [OF inv] e
    by (simp only: foldl_Cons out' keyed_replace keyed_rev_Cons map_add_assoc map_add_upd map_add_empty)
qed

lemma merge_env_state: "merge_env base override = snd (foldl env_add (Map.empty, []) (base @ override))"
  by (simp add: merge_env_def)

lemma merge_env_distinct: "distinct (map env_key (merge_env base override))"
proof -
  have "env_inv (foldl env_add (Map.empty, []) (base @ override))"
    using foldl_env_add [OF env_inv_init] by blast
  then show ?thesis
    using env_inv_distinct by (metis merge_env_state prod.collapse)
qed

lemma merge_env_lookup: "map_of (keyed (merge_env base override)) = map_of (keyed (rev (base @ override)))"
  using foldl_env_add [OF env_inv_init, of "base @ override"]
  by (simp only: merge_env_state) (simp add: keyed_def)

text \<open>the merged environment has one entry per key, and each key has the last value given
  for it, an override before a default.\<close>

theorem merge_env_correct:
  "distinct (map env_key (merge_env base override))
   \<and> map_of (keyed (merge_env base override))
     = map_of (keyed (rev base)) ++ map_of (keyed (rev override))"
  using merge_env_distinct merge_env_lookup by (simp add: keyed_def)

end
