(* ===== verification/Supervisor.thy ===== *)
theory Supervisor imports Guest_Spec begin

text \<open>
  Multi-container supervision in the guest (\<^verbatim>\<open>poc/execd/supervisor.go\<close>).  A container is a
  \<^verbatim>\<open>container\<close> value plus the control point of the goroutine that supervises it; the pod runs
  its init containers one after another and then all main containers at once, so the steps
  of the pod are a relation: which container moves next, when a process exits and with which
  code, and when the shutdown request arrives are all open.  Times are nanoseconds;
  \<open>None\<close> is Go's zero \<^verbatim>\<open>time.Time\<close>.
\<close>

subsection \<open>Containers\<close>

datatype cstate = Waiting | Running | Terminated

text \<open>
  Where the goroutine of a container is: not started yet, at the top of the loop of
  \<^verbatim>\<open>supervise\<close>, started but not yet marked Running, running, back from \<^verbatim>\<open>startOnce\<close> with a code
  and perhaps an error, past the bookkeeping and about to test \<^verbatim>\<open>stop()\<close>, sleeping before a
  restart, or returned.
\<close>

datatype pc =
    Fresh | Starting | Launched | Live
  | Returned int "string option" | Deciding int | Sleeping | Finished

record container =
  spec :: container_spec
  root :: string
  proc :: "nat option"
  attached :: "nat option"
  state :: cstate
  exit_code :: int
  restarts :: nat
  started_at :: "int option"
  finished_at :: "int option"
  reason :: string
  at :: pc
  attempt :: nat
  long_run :: bool

definition new_container :: "container_spec \<Rightarrow> string \<Rightarrow> container" where
  "new_container cs rt =
     \<lparr>spec = cs, root = rt, proc = None, attached = None, state = Waiting, exit_code = 0,
      restarts = 0, started_at = None, finished_at = None, reason = [], at = Fresh,
      attempt = 0, long_run = False\<rparr>"

record container_status =
  st_name :: string
  st_state :: cstate
  st_exit :: int
  st_restarts :: nat
  st_started :: int
  st_finished :: int
  st_reason :: string
  st_init :: bool

text \<open>\<^verbatim>\<open>status\<close>: the times as Unix seconds, left zero when never set.\<close>

definition unix :: "int option \<Rightarrow> int" where
  "unix t = (case t of None \<Rightarrow> 0 | Some ns \<Rightarrow> ns div 1000000000)"

definition status :: "container \<Rightarrow> bool \<Rightarrow> container_status" where
  "status c init =
     \<lparr>st_name = cs_name (spec c), st_state = state c, st_exit = exit_code c,
      st_restarts = restarts c, st_started = unix (started_at c),
      st_finished = unix (finished_at c), st_reason = reason c, st_init = init\<rparr>"

subsection \<open>Restart policy and backoff\<close>

definition should_restart :: "string \<Rightarrow> int \<Rightarrow> bool" where
  "should_restart policy code =
     (if policy = ''Never'' then False
      else if policy = ''OnFailure'' then code \<noteq> 0
      else True)"

definition init_policy :: "string \<Rightarrow> string" where
  "init_policy pol = (if pol = ''Always'' then ''OnFailure'' else pol)"

text \<open>Seconds of \<^verbatim>\<open>1<<min(attempt, 5)\<close>.\<close>

definition backoff :: "nat \<Rightarrow> nat" where
  "backoff n = 2 ^ min n 5"

definition five_minutes :: int where
  "five_minutes = 300 * 1000000000"

text \<open>
  \<^verbatim>\<open>now.Sub(c.startedAt) > 5*time.Minute\<close>.  Subtracting the zero time overflows a Duration and
  saturates at its maximum, which is more than five minutes.
\<close>

definition ran_long :: "int option \<Rightarrow> int \<Rightarrow> bool" where
  "ran_long start now = (case start of None \<Rightarrow> True | Some s \<Rightarrow> now - s > five_minutes)"

subsection \<open>The steps of supervise\<close>

text \<open>\<^verbatim>\<open>startOnce\<close> up to the running process, in the two critical sections of the code.\<close>

definition launch :: "nat \<Rightarrow> container \<Rightarrow> container" where
  "launch pid c = c\<lparr>proc := Some pid, at := Launched\<rparr>"

definition mark_running :: "int \<Rightarrow> container \<Rightarrow> container" where
  "mark_running now c = c\<lparr>state := Running, started_at := Some now, at := Live\<rparr>"

text \<open>\<^verbatim>\<open>startOnce\<close> returns: 128 and an error when the process could not be started.\<close>

definition start_failed :: "string \<Rightarrow> container \<Rightarrow> container" where
  "start_failed err c = c\<lparr>at := Returned 128 (Some err)\<rparr>"

definition exited :: "int \<Rightarrow> container \<Rightarrow> container" where
  "exited code c = c\<lparr>at := Returned code None\<rparr>"

text \<open>The bookkeeping after \<^verbatim>\<open>startOnce\<close>.\<close>

definition record_exit :: "int \<Rightarrow> int \<Rightarrow> string option \<Rightarrow> container \<Rightarrow> container" where
  "record_exit now code err c =
     c\<lparr>exit_code := code, finished_at := Some now,
       reason := (case err of Some e \<Rightarrow> e | None \<Rightarrow> []),
       long_run := ran_long (started_at c) now, at := Deciding code\<rparr>"

definition terminated :: "container \<Rightarrow> container" where
  "terminated c = c\<lparr>state := Terminated, at := Finished\<rparr>"

definition to_sleep :: "container \<Rightarrow> container" where
  "to_sleep c =
     (let n = (if long_run c then 0 else attempt c)
      in c\<lparr>state := Waiting, attempt := n,
           reason := ''CrashLoopBackOff: restarting in '' @ nat_digits (backoff n) @ ''s'',
           restarts := Suc (restarts c), at := Sleeping\<rparr>)"

definition decide :: "bool \<Rightarrow> string \<Rightarrow> int \<Rightarrow> container \<Rightarrow> container" where
  "decide stop policy code c =
     (if stop \<or> \<not> should_restart policy code then terminated c else to_sleep c)"

definition wake :: "bool \<Rightarrow> container \<Rightarrow> container" where
  "wake stop c = (if stop then terminated c else c\<lparr>attempt := Suc (attempt c), at := Starting\<rparr>)"

definition begin_supervise :: "container \<Rightarrow> container" where
  "begin_supervise c = c\<lparr>attempt := 0, at := Starting\<rparr>"

inductive cstep :: "bool \<Rightarrow> string \<Rightarrow> container \<Rightarrow> container \<Rightarrow> bool" for stop policy where
  launch: "at c = Starting \<Longrightarrow> cstep stop policy c (launch pid c)"
| fail: "at c = Starting \<Longrightarrow> cstep stop policy c (start_failed err c)"
| mark: "at c = Launched \<Longrightarrow> cstep stop policy c (mark_running now c)"
| exit: "at c = Live \<Longrightarrow> cstep stop policy c (exited code c)"
| noted: "at c = Returned code err \<Longrightarrow> cstep stop policy c (record_exit now code err c)"
| decide: "at c = Deciding code \<Longrightarrow> cstep stop policy c (decide stop policy code c)"
| wake: "at c = Sleeping \<Longrightarrow> cstep stop policy c (wake stop c)"

lemmas container_steps = launch_def start_failed_def mark_running_def exited_def record_exit_def
  decide_def terminated_def to_sleep_def wake_def begin_supervise_def Let_def

inductive_cases cstep_elim: "cstep stop policy c c'"

subsection \<open>One container in isolation\<close>

text \<open>
  The same loop as a function of what happens: for each incarnation, whether the process
  started (and when), when it ended and how, and what the two \<^verbatim>\<open>stop()\<close> calls returned.
  \<open>None\<close>: still supervising when the observations end.
\<close>

record run =
  run_started :: "(string, nat \<times> int) sum"
  run_ended :: int
  run_code :: int
  stop_exit :: bool
  stop_wake :: bool

definition start_once :: "run \<Rightarrow> container \<Rightarrow> container" where
  "start_once r c =
     (case run_started r of
        Inl err \<Rightarrow> start_failed err c
      | Inr (pid, now) \<Rightarrow> exited (run_code r) (mark_running now (launch pid c)))"

definition one_run :: "string \<Rightarrow> run \<Rightarrow> container \<Rightarrow> container" where
  "one_run policy r c =
     (case at (start_once r c) of
        Returned code err \<Rightarrow>
          decide (stop_exit r) policy code (record_exit (run_ended r) code err (start_once r c))
      | _ \<Rightarrow> start_once r c)"

fun supervise :: "string \<Rightarrow> run list \<Rightarrow> container \<Rightarrow> container option" where
  "supervise policy [] c = None"
| "supervise policy (r # rs) c =
     (let c1 = one_run policy r c
      in if at c1 = Finished then Some c1
         else let c2 = wake (stop_wake r) c1
              in if at c2 = Finished then Some c2 else supervise policy rs c2)"

definition returned_code :: "run \<Rightarrow> int" where
  "returned_code r = (case run_started r of Inl _ \<Rightarrow> 128 | Inr _ \<Rightarrow> run_code r)"

text \<open>A run after which the container is done, and after which it sleeps.\<close>

definition final_run :: "string \<Rightarrow> run \<Rightarrow> bool" where
  "final_run policy r \<longleftrightarrow> stop_exit r \<or> \<not> should_restart policy (returned_code r)"

lemma one_run_final: "final_run policy r \<Longrightarrow> at (one_run policy r c) = Finished
    \<and> state (one_run policy r c) = Terminated \<and> exit_code (one_run policy r c) = returned_code r
    \<and> restarts (one_run policy r c) = restarts c"
  by (auto simp: one_run_def start_once_def final_run_def returned_code_def container_steps
      split: sum.splits prod.splits)

lemma one_run_again: "\<not> final_run policy r \<Longrightarrow> at (one_run policy r c) = Sleeping
    \<and> state (one_run policy r c) = Waiting \<and> exit_code (one_run policy r c) = returned_code r
    \<and> restarts (one_run policy r c) = Suc (restarts c)"
  by (auto simp: one_run_def start_once_def final_run_def returned_code_def container_steps
      split: sum.splits prod.splits)

text \<open>
  The loop ends at the first run that is final or whose sleep ends with the pod stopping;
  every run before it counts one restart, and that one too if it slept.
\<close>

definition last_run :: "string \<Rightarrow> run \<Rightarrow> bool" where
  "last_run policy r \<longleftrightarrow> final_run policy r \<or> stop_wake r"

lemma supervise_again:
  "\<not> last_run policy r \<Longrightarrow> supervise policy (r # rs) c = supervise policy rs (wake False (one_run policy r c))"
  using one_run_again [of policy r c] by (simp add: last_run_def Let_def wake_def)

lemma supervise_none: "\<forall>r \<in> set rs. \<not> last_run policy r \<Longrightarrow> supervise policy rs c = None"
proof (induction rs arbitrary: c)
  case (Cons r rs)
  then show ?case using supervise_again [of policy r rs c] by (simp del: supervise.simps)
qed simp

lemma supervise_last:
  assumes "last_run policy r"
  shows "\<exists>c'. supervise policy (r # post) c = Some c' \<and> at c' = Finished \<and> state c' = Terminated
    \<and> exit_code c' = returned_code r \<and> restarts c' = restarts c + (if final_run policy r then 0 else 1)"
  using assms one_run_final [of policy r c] one_run_again [of policy r c]
  by (cases "final_run policy r") (simp_all add: last_run_def Let_def wake_def terminated_def)

lemma supervise_some:
  assumes "\<forall>q \<in> set pre. \<not> last_run policy q" and "last_run policy r"
  shows "\<exists>c'. supervise policy (pre @ r # post) c = Some c' \<and> at c' = Finished \<and> state c' = Terminated
    \<and> exit_code c' = returned_code r
    \<and> restarts c' = restarts c + length pre + (if final_run policy r then 0 else 1)"
  using assms
proof (induction pre arbitrary: c)
  case Nil
  then show ?case using supervise_last [of policy r post c] by simp
next
  case (Cons q pre)
  then have q: "\<not> last_run policy q" by simp
  then have "restarts (wake False (one_run policy q c)) = Suc (restarts c)"
    using one_run_again [of policy q c] by (simp add: wake_def last_run_def)
  with Cons.IH [of "wake False (one_run policy q c)"] Cons.prems supervise_again [OF q]
  show ?case by simp
qed

subsubsection \<open>Backoff over consecutive runs\<close>

text \<open>The container at the top of the loop after the runs \<open>rs\<close>, none of them the last.\<close>

definition loop_again :: "string \<Rightarrow> run list \<Rightarrow> container \<Rightarrow> container" where
  "loop_again policy rs c = foldl (\<lambda>c r. wake False (one_run policy r c)) c rs"

definition short_run :: "run \<Rightarrow> bool" where
  "short_run r \<longleftrightarrow> (\<exists>pid now. run_started r = Inr (pid, now) \<and> run_ended r - now \<le> five_minutes)"

lemma one_run_short:
  assumes "short_run r" and "\<not> final_run policy r"
  shows "attempt (one_run policy r c) = attempt c"
    and "reason (one_run policy r c)
         = ''CrashLoopBackOff: restarting in '' @ nat_digits (backoff (attempt c)) @ ''s''"
  using assms
  by (auto simp: short_run_def final_run_def returned_code_def one_run_def start_once_def
      container_steps ran_long_def)

lemma loop_again_attempt:
  assumes "\<forall>r \<in> set rs. short_run r \<and> \<not> final_run policy r"
  shows "attempt (loop_again policy rs c) = attempt c + length rs"
  using assms
proof (induction rs arbitrary: c)
  case (Cons r rs)
  then have "attempt (wake False (one_run policy r c)) = Suc (attempt c)"
    using one_run_short(1) [of r policy c] by (simp add: wake_def)
  with Cons show ?case by (simp add: loop_again_def)
qed (simp add: loop_again_def)

lemma backoff_bound: "1 \<le> backoff n \<and> backoff n \<le> 32"
proof -
  have "(2::nat) ^ min n 5 \<le> 2 ^ 5" by (intro power_increasing) auto
  then show ?thesis by (simp add: backoff_def)
qed

lemma one_run_start_failure:
  assumes "run_started r = Inl err" and "\<not> final_run policy r" and "started_at c = None"
  shows "started_at (one_run policy r c) = None"
    and "reason (one_run policy r c) = ''CrashLoopBackOff: restarting in 1s''"
proof -
  have "nat_digits (backoff 0) = ''1''" by code_simp
  then show "started_at (one_run policy r c) = None"
    and "reason (one_run policy r c) = ''CrashLoopBackOff: restarting in 1s''"
    using assms
    by (auto simp: final_run_def returned_code_def one_run_def start_once_def
        container_steps ran_long_def)
qed

lemma loop_again_never_started:
  assumes "\<forall>r \<in> set rs. (\<exists>err. run_started r = Inl err) \<and> \<not> final_run policy r" and "started_at c = None"
  shows "started_at (loop_again policy rs c) = None"
  using assms
proof (induction rs arbitrary: c)
  case (Cons r rs)
  then obtain err where "run_started r = Inl err" by auto
  with Cons.prems have "started_at (wake False (one_run policy r c)) = None"
    using one_run_start_failure(1) [of r err policy c] by (simp add: wake_def terminated_def)
  with Cons show ?case by (simp add: loop_again_def)
qed (simp add: loop_again_def)

subsection \<open>The pod\<close>

text \<open>\<^verbatim>\<open>run\<close>: the init container it is at, the main containers, or returned with the exit code.\<close>

datatype stage = InitStage nat | MainStage | PodExit int

record pod =
  policy :: string
  inits :: "container list"
  mains :: "container list"
  stopping :: bool
  stage :: stage

definition pod_exit_code :: "container list \<Rightarrow> int" where
  "pod_exit_code cs = foldl (\<lambda>code c. if exit_code c \<noteq> 0 then exit_code c else code) 0 cs"

datatype event = Sched | Shutdown

inductive pod_step :: "pod \<Rightarrow> event \<Rightarrow> pod \<Rightarrow> bool" where
  init_enter: "stage p = InitStage i \<Longrightarrow> i < length (inits p) \<Longrightarrow> at (inits p ! i) = Fresh \<Longrightarrow>
     pod_step p Sched (p\<lparr>inits := (inits p)[i := begin_supervise (inits p ! i)]\<rparr>)"
| init_step: "stage p = InitStage i \<Longrightarrow> i < length (inits p) \<Longrightarrow>
     cstep (stopping p) (init_policy (policy p)) (inits p ! i) c' \<Longrightarrow>
     pod_step p Sched (p\<lparr>inits := (inits p)[i := c']\<rparr>)"
| init_ok: "stage p = InitStage i \<Longrightarrow> i < length (inits p) \<Longrightarrow> at (inits p ! i) = Finished \<Longrightarrow>
     exit_code (inits p ! i) = 0 \<Longrightarrow> pod_step p Sched (p\<lparr>stage := InitStage (Suc i)\<rparr>)"
| init_fail: "stage p = InitStage i \<Longrightarrow> i < length (inits p) \<Longrightarrow> at (inits p ! i) = Finished \<Longrightarrow>
     exit_code (inits p ! i) \<noteq> 0 \<Longrightarrow>
     pod_step p Sched (p\<lparr>stage := PodExit (exit_code (inits p ! i))\<rparr>)"
| mains_go: "stage p = InitStage i \<Longrightarrow> length (inits p) \<le> i \<Longrightarrow>
     pod_step p Sched (p\<lparr>mains := map begin_supervise (mains p), stage := MainStage\<rparr>)"
| main_step: "stage p = MainStage \<Longrightarrow> j < length (mains p) \<Longrightarrow>
     cstep (stopping p) (policy p) (mains p ! j) c' \<Longrightarrow>
     pod_step p Sched (p\<lparr>mains := (mains p)[j := c']\<rparr>)"
| mains_done: "stage p = MainStage \<Longrightarrow> \<forall>c \<in> set (mains p). at c = Finished \<Longrightarrow>
     pod_step p Sched (p\<lparr>stage := PodExit (pod_exit_code (mains p))\<rparr>)"
| shutdown: "pod_step p Shutdown (p\<lparr>stopping := True\<rparr>)"

definition new_pod :: "string \<Rightarrow> (container_spec \<times> string) list \<Rightarrow> (container_spec \<times> string) list \<Rightarrow> pod" where
  "new_pod pol is ms =
     \<lparr>policy = pol, inits = map (\<lambda>(cs, rt). new_container cs rt) is,
      mains = map (\<lambda>(cs, rt). new_container cs rt) ms, stopping = False, stage = InitStage 0\<rparr>"

inductive reachable :: "pod \<Rightarrow> pod \<Rightarrow> bool" for p0 where
  start: "reachable p0 p0"
| step: "reachable p0 p \<Longrightarrow> pod_step p e q \<Longrightarrow> reachable p0 q"

definition by_name :: "pod \<Rightarrow> string \<Rightarrow> container option" where
  "by_name p name =
     (if name = [] \<and> mains p \<noteq> [] then Some (hd (mains p))
      else find (\<lambda>c. cs_name (spec c) = name) (mains p @ inits p))"

definition statuses :: "pod \<Rightarrow> container_status list" where
  "statuses p = map (\<lambda>c. status c True) (inits p) @ map (\<lambda>c. status c False) (mains p)"

text \<open>
  \<^verbatim>\<open>shutdownAll\<close>: the processes that get SIGTERM now, and those that get SIGKILL when the
  grace period is over (the pod may have moved on by then).
\<close>

definition signalled :: "pod \<Rightarrow> nat list" where
  "signalled p = concat (map (\<lambda>c. case proc c of Some pid \<Rightarrow> if state c = Running then [pid] else []
                              | None \<Rightarrow> []) (mains p @ inits p))"

definition shutdown_all :: "pod \<Rightarrow> nat list \<times> pod" where
  "shutdown_all p = (signalled (p\<lparr>stopping := True\<rparr>), p\<lparr>stopping := True\<rparr>)"

end
