(* ===== verification/Supervision.thy ===== *)
theory Supervision imports Supervisor begin

text \<open>
  Invariants of a supervised pod and what they give: the order of init and main containers,
  the pod's exit code, no restart once shutdown is requested, no deadlock; and the container
  that starts although the pod is stopping.
\<close>

subsection \<open>Containers\<close>

definition container_ok :: "container \<Rightarrow> bool" where
  "container_ok c \<longleftrightarrow>
     (at c = Fresh \<longrightarrow> state c = Waiting \<and> restarts c = 0 \<and> started_at c = None)
     \<and> (at c = Live \<longrightarrow> state c = Running)
     \<and> (at c = Sleeping \<longrightarrow> state c = Waiting)
     \<and> (at c = Finished \<longleftrightarrow> state c = Terminated)"

named_theorems step_facts "what one step of a container does"

lemma cstep_ok [step_facts]: "cstep stop pol c c' \<Longrightarrow> container_ok c \<Longrightarrow> container_ok c'"
  by (erule cstep_elim) (auto simp: container_ok_def container_steps)

lemma cstep_from [step_facts]: "cstep stop pol c c' \<Longrightarrow> at c \<noteq> Finished \<and> at c \<noteq> Fresh \<and> at c' \<noteq> Fresh"
  by (erule cstep_elim) (auto simp: container_steps)

lemma cstep_spec [step_facts]: "cstep stop pol c c' \<Longrightarrow> spec c' = spec c \<and> root c' = root c"
  by (erule cstep_elim) (auto simp: container_steps)

lemma cstep_restarts [step_facts]:
  "cstep stop pol c c' \<Longrightarrow> restarts c \<le> restarts c' \<and> restarts c' \<le> Suc (restarts c)"
  by (erule cstep_elim) (auto simp: container_steps)

lemma cstep_stopping [step_facts]: "cstep True pol c c' \<Longrightarrow> restarts c' = restarts c"
  by (erule cstep_elim) (auto simp: container_steps)

text \<open>A restart is counted only after a return the policy restarts on.\<close>

lemma cstep_restart_policy [step_facts]:
  "cstep stop pol c c' \<Longrightarrow> restarts c' \<noteq> restarts c
   \<Longrightarrow> \<not> stop \<and> (\<exists>code. at c = Deciding code \<and> should_restart pol code)"
  by (erule cstep_elim) (auto simp: container_steps split: if_splits)

lemma cstep_progress: "at c \<noteq> Fresh \<Longrightarrow> at c \<noteq> Finished \<Longrightarrow> \<exists>c'. cstep stop pol c c'"
  by (cases "at c") (auto intro: cstep.intros)

lemma new_container_ok: "container_ok (new_container cs rt)"
  by (simp add: container_ok_def new_container_def)

lemma begin_supervise_ok: "container_ok c \<Longrightarrow> at c = Fresh \<Longrightarrow> container_ok (begin_supervise c)"
  by (simp add: container_ok_def begin_supervise_def)

lemma begin_supervise_at [simp]: "at (begin_supervise c) = Starting"
  by (simp add: begin_supervise_def)

lemma begin_supervise_spec [simp]: "spec (begin_supervise c) = spec c" "root (begin_supervise c) = root c"
    "restarts (begin_supervise c) = restarts c"
  by (simp_all add: begin_supervise_def)

subsection \<open>The pod's invariant\<close>

definition succeeded :: "container \<Rightarrow> bool" where
  "succeeded c \<longleftrightarrow> at c = Finished \<and> exit_code c = 0"

definition fresh_from :: "nat \<Rightarrow> container list \<Rightarrow> bool" where
  "fresh_from i cs \<longleftrightarrow> (\<forall>j. i \<le> j \<and> j < length cs \<longrightarrow> at (cs ! j) = Fresh)"

definition done_upto :: "nat \<Rightarrow> container list \<Rightarrow> bool" where
  "done_upto i cs \<longleftrightarrow> i \<le> length cs \<and> (\<forall>j < i. succeeded (cs ! j))"

definition stage_ok :: "pod \<Rightarrow> bool" where
  "stage_ok p =
     (case stage p of
        InitStage i \<Rightarrow> done_upto i (inits p) \<and> fresh_from (Suc i) (inits p) \<and> fresh_from 0 (mains p)
      | MainStage \<Rightarrow> done_upto (length (inits p)) (inits p) \<and> (\<forall>c \<in> set (mains p). at c \<noteq> Fresh)
      | PodExit code \<Rightarrow>
          (done_upto (length (inits p)) (inits p) \<and> (\<forall>c \<in> set (mains p). at c = Finished)
             \<and> code = pod_exit_code (mains p))
          \<or> (\<exists>i < length (inits p). done_upto i (inits p) \<and> at (inits p ! i) = Finished
               \<and> exit_code (inits p ! i) = code \<and> code \<noteq> 0
               \<and> fresh_from (Suc i) (inits p) \<and> fresh_from 0 (mains p)))"

definition pod_ok :: "pod \<Rightarrow> bool" where
  "pod_ok p \<longleftrightarrow> (\<forall>c \<in> set (inits p) \<union> set (mains p). container_ok c) \<and> stage_ok p"

lemma pod_ok_new: "pod_ok (new_pod pol is ms)"
  by (auto simp: pod_ok_def new_pod_def stage_ok_def done_upto_def fresh_from_def
      new_container_ok new_container_def [of "fst x" "snd x" for x] split: prod.splits)
    (simp_all add: new_container_def split: prod.splits)

lemma fresh_from_update: "fresh_from (Suc i) cs \<Longrightarrow> fresh_from (Suc i) (cs[i := c])"
  by (auto simp: fresh_from_def)

lemma done_upto_update: "done_upto i cs \<Longrightarrow> done_upto i (cs[i := c])"
  by (auto simp: done_upto_def)

lemma fresh_from_mono: "fresh_from i cs \<Longrightarrow> i \<le> j \<Longrightarrow> fresh_from j cs"
  by (auto simp: fresh_from_def)

lemma done_upto_Suc: "done_upto i cs \<Longrightarrow> i < length cs \<Longrightarrow> succeeded (cs ! i) \<Longrightarrow> done_upto (Suc i) cs"
  by (auto simp: done_upto_def less_Suc_eq)

lemma stage_ok_step: "pod_step p e q \<Longrightarrow> stage_ok p \<Longrightarrow> stage_ok q"
proof (induction rule: pod_step.induct)
  case (init_enter p i)
  then show ?case by (simp add: stage_ok_def done_upto_update fresh_from_update)
next
  case (init_step p i c')
  then show ?case by (simp add: stage_ok_def done_upto_update fresh_from_update)
next
  case (init_ok p i)
  then show ?case
    by (simp add: stage_ok_def done_upto_Suc succeeded_def)
      (meson fresh_from_mono le_SucI order_refl)
next
  case (init_fail p i)
  then have "done_upto i (inits p) \<and> fresh_from (Suc i) (inits p) \<and> fresh_from 0 (mains p)"
    by (simp add: stage_ok_def)
  with init_fail.hyps show ?case by (simp add: stage_ok_def) blast
next
  case (mains_go p i)
  then have "done_upto (length (inits p)) (inits p)"
    by (auto simp: stage_ok_def done_upto_def)
  then show ?case by (simp add: stage_ok_def)
next
  case (main_step p j c')
  then have "at c' \<noteq> Fresh" using cstep_from by blast
  with main_step show ?case
    by (auto simp: stage_ok_def dest!: set_update_subset_insert [THEN subsetD])
next
  case (mains_done p)
  then show ?case by (auto simp: stage_ok_def)
next
  case (shutdown p)
  then show ?case by (simp add: stage_ok_def split: stage.splits)
qed

lemma containers_ok_step:
  assumes "pod_step p e q" and "stage_ok p" and "\<forall>c \<in> set (inits p) \<union> set (mains p). container_ok c"
  shows "\<forall>c \<in> set (inits q) \<union> set (mains q). container_ok c"
  using assms
proof (induction rule: pod_step.induct)
  case (init_enter p i)
  then have "container_ok (begin_supervise (inits p ! i))" by (simp add: begin_supervise_ok)
  with init_enter show ?case by (auto dest!: set_update_subset_insert [THEN subsetD])
next
  case (init_step p i c')
  then have "container_ok c'" by (metis UnI1 cstep_ok nth_mem)
  with init_step show ?case by (auto dest!: set_update_subset_insert [THEN subsetD])
next
  case (mains_go p i)
  then have "at c = Fresh" if "c \<in> set (mains p)" for c
    using that by (auto simp: stage_ok_def fresh_from_def in_set_conv_nth)
  with mains_go show ?case by (auto intro!: begin_supervise_ok)
next
  case (main_step p j c')
  then have "container_ok c'" by (metis UnI2 cstep_ok nth_mem)
  with main_step show ?case by (auto dest!: set_update_subset_insert [THEN subsetD])
qed auto

lemma pod_ok_step: "pod_step p e q \<Longrightarrow> pod_ok p \<Longrightarrow> pod_ok q"
  using stage_ok_step containers_ok_step unfolding pod_ok_def by blast

lemma reachable_pod_ok: "reachable p0 p \<Longrightarrow> pod_ok p0 \<Longrightarrow> pod_ok p"
  by (induction rule: reachable.induct) (auto intro: pod_ok_step)

lemma reachable_new_ok: "reachable (new_pod pol is ms) p \<Longrightarrow> pod_ok p"
  using reachable_pod_ok pod_ok_new by blast

subsection \<open>The exit code\<close>

lemma exit_fold:
  "(foldl (\<lambda>code c. if exit_code c \<noteq> 0 then exit_code c else code) k cs = 0)
   \<longleftrightarrow> k = 0 \<and> (\<forall>c \<in> set cs. exit_code c = 0)"
  by (induction cs arbitrary: k) auto

lemma pod_exit_code_zero: "pod_exit_code cs = 0 \<longleftrightarrow> (\<forall>c \<in> set cs. exit_code c = 0)"
  by (simp add: pod_exit_code_def exit_fold)

lemma done_all: "done_upto (length cs) cs \<longleftrightarrow> (\<forall>c \<in> set cs. succeeded c)"
  by (simp add: done_upto_def all_set_conv_all_nth)

subsection \<open>Progress\<close>

lemma pod_progress_ok:
  assumes "stage_ok p" and "\<And>code. stage p \<noteq> PodExit code"
  shows "\<exists>q. pod_step p Sched q"
proof (cases "stage p")
  case (InitStage i)
  show ?thesis
  proof (cases "i < length (inits p)")
    case False
    with InitStage show ?thesis using pod_step.mains_go [of p i] by auto
  next
    case True
    show ?thesis
    proof (cases "at (inits p ! i) = Fresh \<or> at (inits p ! i) = Finished")
      case False
      then obtain c' where "cstep (stopping p) (init_policy (policy p)) (inits p ! i) c'"
        using cstep_progress by blast
      with InitStage True show ?thesis using pod_step.init_step by blast
    next
      case t: True
      with InitStage True show ?thesis
        by (metis pod_step.init_enter pod_step.init_fail pod_step.init_ok)
    qed
  qed
next
  case MainStage
  show ?thesis
  proof (cases "\<forall>c \<in> set (mains p). at c = Finished")
    case True
    with MainStage show ?thesis by (auto intro: pod_step.mains_done)
  next
    case False
    then obtain j where j: "j < length (mains p)" "at (mains p ! j) \<noteq> Finished"
      by (auto simp: in_set_conv_nth)
    moreover have "at (mains p ! j) \<noteq> Fresh"
      using assms(1) MainStage j by (simp add: stage_ok_def)
    ultimately obtain c' where "cstep (stopping p) (policy p) (mains p ! j) c'"
      using cstep_progress by blast
    with MainStage j show ?thesis using pod_step.main_step by blast
  qed
next
  case (PodExit code)
  with assms(2) show ?thesis by blast
qed

subsection \<open>No restart while stopping\<close>

definition all_restarts :: "pod \<Rightarrow> nat list \<times> nat list" where
  "all_restarts p = (map restarts (inits p), map restarts (mains p))"

lemma map_update_eq: "i < length xs \<Longrightarrow> f y = f (xs ! i) \<Longrightarrow> map f (xs[i := y]) = map f xs"
  by (simp add: map_update list_update_same_conv)

lemma stopping_step:
  "pod_step p e q \<Longrightarrow> stopping p \<Longrightarrow> stopping q \<and> all_restarts q = all_restarts p"
  by (induction rule: pod_step.induct)
    (auto simp: all_restarts_def map_update_eq comp_def dest: cstep_stopping)

lemma stopping_reachable:
  "reachable p q \<Longrightarrow> stopping p \<Longrightarrow> stopping q \<and> all_restarts q = all_restarts p"
  by (induction rule: reachable.induct) (auto dest: stopping_step)

subsection \<open>A stopping pod winds down\<close>

text \<open>How many more steps a container, and a pod, can take once the pod is stopping.\<close>

definition rank :: "container \<Rightarrow> nat" where
  "rank c = (case at c of Fresh \<Rightarrow> 7 | Starting \<Rightarrow> 6 | Launched \<Rightarrow> 5 | Live \<Rightarrow> 4
             | Returned _ _ \<Rightarrow> 3 | Deciding _ \<Rightarrow> 2 | Sleeping \<Rightarrow> 1 | Finished \<Rightarrow> 0)"

definition stage_rank :: "pod \<Rightarrow> nat" where
  "stage_rank p = (case stage p of InitStage i \<Rightarrow> 2 + (length (inits p) - i) | MainStage \<Rightarrow> 1 | PodExit _ \<Rightarrow> 0)"

definition pod_rank :: "pod \<Rightarrow> nat" where
  "pod_rank p = sum_list (map rank (inits p)) + sum_list (map rank (mains p)) + stage_rank p"

lemma cstep_rank: "cstep True pol c c' \<Longrightarrow> rank c' < rank c"
  by (erule cstep_elim) (auto simp: rank_def container_steps)

lemma sum_list_update_less:
  fixes xs :: "nat list"
  shows "i < length xs \<Longrightarrow> y < xs ! i \<Longrightarrow> sum_list (xs[i := y]) < sum_list xs"
  by (induction xs arbitrary: i) (auto split: nat.splits simp: less_Suc_eq_0_disj)

lemma rank_update: "i < length cs \<Longrightarrow> rank c < rank (cs ! i) \<Longrightarrow>
    sum_list (map rank (cs[i := c])) < sum_list (map rank cs)"
  by (simp add: map_update sum_list_update_less)

lemma rank_begin_le: "sum_list (map rank (map begin_supervise cs)) \<le> sum_list (map rank cs)"
  if "\<forall>c \<in> set cs. at c = Fresh"
  using that by (induction cs) (auto simp: rank_def)

lemma stopping_rank:
  "pod_step p e q \<Longrightarrow> e = Sched \<Longrightarrow> stopping p \<Longrightarrow> stage_ok p \<Longrightarrow> pod_rank q < pod_rank p"
proof (induction rule: pod_step.induct)
  case (init_enter p i)
  then have "rank (begin_supervise (inits p ! i)) < rank (inits p ! i)" by (simp add: rank_def)
  with init_enter show ?case using rank_update [of i "inits p" "begin_supervise (inits p ! i)"]
    by (simp add: pod_rank_def stage_rank_def)
next
  case (init_step p i c')
  then have "rank c' < rank (inits p ! i)" using cstep_rank by simp
  with init_step show ?case using rank_update [of i "inits p" c'] by (simp add: pod_rank_def stage_rank_def)
next
  case (mains_go p i)
  then have "\<forall>c \<in> set (mains p). at c = Fresh" by (auto simp: stage_ok_def fresh_from_def in_set_conv_nth)
  with mains_go show ?case using rank_begin_le [of "mains p"] by (simp add: pod_rank_def stage_rank_def)
next
  case (main_step p j c')
  then have "rank c' < rank (mains p ! j)" using cstep_rank by simp
  with main_step show ?case using rank_update [of j "mains p" c'] by (simp add: pod_rank_def stage_rank_def)
qed (simp_all add: pod_rank_def stage_rank_def)

lemma sum_rank_bound: "sum_list (map rank cs) \<le> 7 * length cs"
proof (induction cs)
  case (Cons c cs)
  have "rank c \<le> 7" by (simp add: rank_def split: pc.splits)
  with Cons show ?case by simp
qed simp

lemma pod_rank_bound: "pod_rank p \<le> 8 * length (inits p) + 7 * length (mains p) + 2"
  using sum_rank_bound [of "inits p"] sum_rank_bound [of "mains p"]
  by (cases "stage p") (simp_all add: pod_rank_def stage_rank_def)

inductive sched_run :: "nat \<Rightarrow> pod \<Rightarrow> pod \<Rightarrow> bool" where
  none: "sched_run 0 p p"
| more: "pod_step p Sched q \<Longrightarrow> sched_run n q r \<Longrightarrow> sched_run (Suc n) p r"

lemma sched_run_rank: "sched_run n p q \<Longrightarrow> stopping p \<Longrightarrow> pod_ok p \<Longrightarrow> n + pod_rank q \<le> pod_rank p"
proof (induction rule: sched_run.induct)
  case (more p q n r)
  then have "pod_rank q < pod_rank p" using stopping_rank by (simp add: pod_ok_def)
  moreover have "stopping q" "pod_ok q" using more stopping_step pod_ok_step by blast+
  ultimately show ?case using more by simp
qed simp

subsection \<open>An executable scheduler\<close>

text \<open>
  The same steps as a function of the choices the step relation leaves open, so that a
  schedule can be evaluated; \<open>pod_choice_iff\<close> says it has exactly the steps of the relation.
\<close>

datatype move = MLaunch nat | MFail string | MMark int | MExit int | MNote int | MDecide | MWake

definition move_step :: "bool \<Rightarrow> string \<Rightarrow> move \<Rightarrow> container \<Rightarrow> container option" where
  "move_step stop pol m c =
     (case (m, at c) of
        (MLaunch pid, Starting) \<Rightarrow> Some (launch pid c)
      | (MFail err, Starting) \<Rightarrow> Some (start_failed err c)
      | (MMark now, Launched) \<Rightarrow> Some (mark_running now c)
      | (MExit code, Live) \<Rightarrow> Some (exited code c)
      | (MNote now, Returned code err) \<Rightarrow> Some (record_exit now code err c)
      | (MDecide, Deciding code) \<Rightarrow> Some (decide stop pol code c)
      | (MWake, Sleeping) \<Rightarrow> Some (wake stop c)
      | _ \<Rightarrow> None)"

lemma move_step_sound: "move_step stop pol m c = Some c' \<Longrightarrow> cstep stop pol c c'"
  by (cases m; cases "at c") (auto simp: move_step_def intro: cstep.intros)

lemma move_step_complete: "cstep stop pol c c' \<Longrightarrow> \<exists>m. move_step stop pol m c = Some c'"
proof (induction rule: cstep.induct)
  case (launch c pid)
  then show ?case by (intro exI [of _ "MLaunch pid"]) (simp add: move_step_def)
next
  case (fail c err)
  then show ?case by (intro exI [of _ "MFail err"]) (simp add: move_step_def)
next
  case (mark c now)
  then show ?case by (intro exI [of _ "MMark now"]) (simp add: move_step_def)
next
  case (exit c code)
  then show ?case by (intro exI [of _ "MExit code"]) (simp add: move_step_def)
next
  case (noted c code err now)
  then show ?case by (intro exI [of _ "MNote now"]) (simp add: move_step_def)
next
  case (decide c code)
  then show ?case by (intro exI [of _ MDecide]) (simp add: move_step_def)
next
  case (wake c)
  then show ?case by (intro exI [of _ MWake]) (simp add: move_step_def)
qed

datatype choice = Enter | InitMove move | InitDone | GoMains | MainMove nat move | MainsDone | Stop

definition pod_choice :: "choice \<Rightarrow> pod \<Rightarrow> pod option" where
  "pod_choice ch p =
     (case (ch, stage p) of
        (Stop, _) \<Rightarrow> Some (p\<lparr>stopping := True\<rparr>)
      | (Enter, InitStage i) \<Rightarrow>
          if i < length (inits p) \<and> at (inits p ! i) = Fresh
          then Some (p\<lparr>inits := (inits p)[i := begin_supervise (inits p ! i)]\<rparr>) else None
      | (InitMove m, InitStage i) \<Rightarrow>
          if i < length (inits p)
          then map_option (\<lambda>c'. p\<lparr>inits := (inits p)[i := c']\<rparr>)
                 (move_step (stopping p) (init_policy (policy p)) m (inits p ! i))
          else None
      | (InitDone, InitStage i) \<Rightarrow>
          if i < length (inits p) \<and> at (inits p ! i) = Finished
          then Some (p\<lparr>stage := (if exit_code (inits p ! i) = 0 then InitStage (Suc i)
                                else PodExit (exit_code (inits p ! i)))\<rparr>)
          else None
      | (GoMains, InitStage i) \<Rightarrow>
          if length (inits p) \<le> i
          then Some (p\<lparr>mains := map begin_supervise (mains p), stage := MainStage\<rparr>) else None
      | (MainMove j m, MainStage) \<Rightarrow>
          if j < length (mains p)
          then map_option (\<lambda>c'. p\<lparr>mains := (mains p)[j := c']\<rparr>)
                 (move_step (stopping p) (policy p) m (mains p ! j))
          else None
      | (MainsDone, MainStage) \<Rightarrow>
          if list_all (\<lambda>c. at c = Finished) (mains p)
          then Some (p\<lparr>stage := PodExit (pod_exit_code (mains p))\<rparr>) else None
      | _ \<Rightarrow> None)"

definition choice_event :: "choice \<Rightarrow> event" where
  "choice_event ch = (if ch = Stop then Shutdown else Sched)"

lemma pod_choice_sound: "pod_choice ch p = Some q \<Longrightarrow> pod_step p (choice_event ch) q"
  by (cases ch; cases "stage p")
    (auto simp: pod_choice_def choice_event_def list_all_iff intro: pod_step.intros
      dest!: move_step_sound split: if_splits)

lemma pod_choice_complete: "pod_step p e q \<Longrightarrow> \<exists>ch. choice_event ch = e \<and> pod_choice ch p = Some q"
proof (induction rule: pod_step.induct)
  case (init_enter p i)
  then show ?case by (intro exI [of _ Enter]) (simp add: pod_choice_def choice_event_def)
next
  case (init_step p i c')
  then obtain m where "move_step (stopping p) (init_policy (policy p)) m (inits p ! i) = Some c'"
    using move_step_complete by blast
  with init_step show ?case
    by (intro exI [of _ "InitMove m"]) (simp add: pod_choice_def choice_event_def)
next
  case (init_ok p i)
  then show ?case by (intro exI [of _ InitDone]) (simp add: pod_choice_def choice_event_def)
next
  case (init_fail p i)
  then show ?case by (intro exI [of _ InitDone]) (simp add: pod_choice_def choice_event_def)
next
  case (mains_go p i)
  then show ?case by (intro exI [of _ GoMains]) (simp add: pod_choice_def choice_event_def)
next
  case (main_step p j c')
  then obtain m where "move_step (stopping p) (policy p) m (mains p ! j) = Some c'"
    using move_step_complete by blast
  with main_step show ?case
    by (intro exI [of _ "MainMove j m"]) (simp add: pod_choice_def choice_event_def)
next
  case (mains_done p)
  then show ?case
    by (intro exI [of _ MainsDone]) (simp add: pod_choice_def choice_event_def list_all_iff)
next
  case (shutdown p)
  then show ?case by (intro exI [of _ Stop]) (simp add: pod_choice_def choice_event_def)
qed

fun schedule :: "choice list \<Rightarrow> pod \<Rightarrow> pod option" where
  "schedule [] p = Some p"
| "schedule (ch # chs) p = (case pod_choice ch p of None \<Rightarrow> None | Some q \<Rightarrow> schedule chs q)"

lemma schedule_reachable: "schedule chs p = Some q \<Longrightarrow> reachable p0 p \<Longrightarrow> reachable p0 q"
proof (induction chs arbitrary: p)
  case (Cons ch chs)
  then show ?case by (auto split: option.splits dest: pod_choice_sound intro: reachable.step)
qed simp

lemma schedule_reach: "schedule chs p = Some q \<Longrightarrow> reachable p q"
  by (erule schedule_reachable) (rule reachable.start)

lemma schedule_run:
  "schedule chs p = Some q \<Longrightarrow> Stop \<notin> set chs \<Longrightarrow> sched_run (length chs) p q"
proof (induction chs arbitrary: p)
  case (Cons ch chs)
  then show ?case
    by (auto split: option.splits dest!: pod_choice_sound simp: choice_event_def intro: sched_run.more)
qed (simp add: sched_run.none)

lemma reachable_schedule: "reachable p q \<Longrightarrow> \<exists>chs. schedule chs p = Some q"
proof (induction rule: reachable.induct)
  case start
  show ?case by (intro exI [of _ "[]"]) simp
next
  case (step q e r)
  then obtain chs ch where "schedule chs p = Some q" "pod_choice ch q = Some r"
    using pod_choice_complete by blast
  moreover have "schedule (as @ bs) x = (case schedule as x of None \<Rightarrow> None | Some y \<Rightarrow> schedule bs y)" for as bs x
    by (induction as arbitrary: x) (auto split: option.splits)
  ultimately have "schedule (chs @ [ch]) p = Some r" by simp
  then show ?case by blast
qed

subsection \<open>A pod to run\<close>

definition task :: "string \<Rightarrow> container_spec" where
  "task name = \<lparr>cs_name = name, argv = [''/bin/true''], cs_env = [], cwd = [], tty = False,
     root_dev = [], mounts = []\<rparr>"

definition small_pod :: "string \<Rightarrow> pod" where
  "small_pod pol = new_pod pol [(task ''setup'', [])] [(task ''web'', [])]"

definition init_passes :: "choice list" where
  "init_passes = [Enter] @ map InitMove [MLaunch 7, MMark 1, MExit 0, MNote 2, MDecide] @ [InitDone]"

definition web_exits :: "int \<Rightarrow> choice list" where
  "web_exits code = map (MainMove 0) [MLaunch 8, MMark 3, MExit code, MNote 4, MDecide]"

definition after :: "choice list \<Rightarrow> pod \<Rightarrow> pod" where
  "after chs p = the (schedule chs p)"

lemma after_reachable: "schedule chs p \<noteq> None \<Longrightarrow> reachable p (after chs p)"
  by (auto simp: after_def intro: schedule_reach)

lemma sched_run_reachable: "sched_run n p q \<Longrightarrow> reachable p0 p \<Longrightarrow> reachable p0 q"
  by (induction rule: sched_run.induct) (auto intro: reachable.step)

lemma sched_run_restarts:
  "sched_run n p q \<Longrightarrow> stopping p \<Longrightarrow> stopping q \<and> all_restarts q = all_restarts p"
  by (induction rule: sched_run.induct) (auto dest: stopping_step)

definition stopped_pod :: pod where
  "stopped_pod = after (init_passes @ [Stop]) (small_pod ''Always'')"

definition wound_down :: pod where
  "wound_down = after ([GoMains] @ web_exits 143) stopped_pod"

lemma stopped_pod_reachable:
  "reachable (new_pod ''Always'' [(task ''setup'', [])] [(task ''web'', [])]) stopped_pod"
proof -
  have "schedule (init_passes @ [Stop]) (small_pod ''Always'') \<noteq> None" by code_simp
  then show ?thesis unfolding stopped_pod_def small_pod_def by (rule after_reachable)
qed

lemma wound_down_run: "sched_run 6 stopped_pod wound_down"
proof -
  have "schedule ([GoMains] @ web_exits 143) stopped_pod \<noteq> None" by code_simp
  then have "schedule ([GoMains] @ web_exits 143) stopped_pod = Some wound_down"
    by (auto simp: wound_down_def after_def)
  moreover have "Stop \<notin> set ([GoMains] @ web_exits 143)" by code_simp
  ultimately have "sched_run (length ([GoMains] @ web_exits 143)) stopped_pod wound_down"
    by (rule schedule_run)
  moreover have "length ([GoMains] @ web_exits 143) = 6" by code_simp
  ultimately show ?thesis by simp
qed

lemma exit_zero_iff:
  assumes "reachable (new_pod pol is ms) p" and "stage p = PodExit code"
  shows "code = 0 \<longleftrightarrow> (\<forall>c \<in> set (inits p @ mains p). state c = Terminated \<and> exit_code c = 0)"
proof -
  have ok: "pod_ok p" using assms(1) by (rule reachable_new_ok)
  then have fin: "at c = Finished \<longleftrightarrow> state c = Terminated" if "c \<in> set (inits p) \<union> set (mains p)" for c
    using that by (simp add: pod_ok_def container_ok_def)
  from ok assms(2) consider
      "done_upto (length (inits p)) (inits p)" "\<forall>c \<in> set (mains p). at c = Finished" "code = pod_exit_code (mains p)"
    | i where "i < length (inits p)" "exit_code (inits p ! i) = code" "code \<noteq> 0"
    by (auto simp: pod_ok_def stage_ok_def)
  then show ?thesis
  proof cases
    case 1
    then show ?thesis using fin by (auto simp: done_all succeeded_def pod_exit_code_zero)
  next
    case (2 i)
    then show ?thesis by (metis Un_iff nth_mem set_append)
  qed
qed

subsection \<open>Properties\<close>

text \<open>C10: init containers come first: once any main container has been started, every init
  container has terminated with exit code 0.\<close>

theorem inits_before_mains:
  assumes "reachable (new_pod pol is ms) p" and "m \<in> set (mains p)" and "at m \<noteq> Fresh"
  shows "\<forall>c \<in> set (inits p). state c = Terminated \<and> exit_code c = 0"
proof -
  have ok: "pod_ok p" using assms(1) by (rule reachable_new_ok)
  then have "done_upto (length (inits p)) (inits p)"
    using assms(2,3) by (auto simp: pod_ok_def stage_ok_def fresh_from_def in_set_conv_nth split: stage.splits)
  then show ?thesis
    using ok by (auto simp: done_all succeeded_def pod_ok_def container_ok_def)
qed

lemma inits_before_mains_witness:
  "state (hd (inits (after (init_passes @ [GoMains]) (small_pod ''Always'')))) = Terminated
   \<and> exit_code (hd (inits (after (init_passes @ [GoMains]) (small_pod ''Always'')))) = 0"
  (is "state (hd (inits ?p)) = _ \<and> _")
proof -
  have "\<forall>c \<in> set (inits ?p). state c = Terminated \<and> exit_code c = 0"
  proof (rule inits_before_mains)
    have "schedule (init_passes @ [GoMains]) (small_pod ''Always'') \<noteq> None" by code_simp
    then show "reachable (new_pod ''Always'' [(task ''setup'', [])] [(task ''web'', [])]) ?p"
      unfolding small_pod_def by (rule after_reachable)
    have "mains ?p \<noteq> []" by code_simp
    then show "hd (mains ?p) \<in> set (mains ?p)" by simp
    show "at (hd (mains ?p)) \<noteq> Fresh" by code_simp
  qed
  moreover have "inits ?p \<noteq> []" by code_simp
  ultimately show ?thesis by simp
qed

text \<open>the exit code of a finished pod is 0 exactly when every container, init and main,
  has terminated with exit code 0.\<close>

theorem pod_exit_zero:
  assumes "reachable (new_pod pol is ms) p" and "stage p = PodExit code"
  shows "code = 0 \<longleftrightarrow> (\<forall>c \<in> set (inits p @ mains p). state c = Terminated \<and> exit_code c = 0)"
  using assms by (rule exit_zero_iff)

lemma pod_exit_zero_witness:
  "(3::int) = 0 \<longleftrightarrow>
     (let p = after (init_passes @ [GoMains] @ web_exits 3 @ [MainsDone]) (small_pod ''Never'')
      in \<forall>c \<in> set (inits p @ mains p). state c = Terminated \<and> exit_code c = 0)"
  unfolding Let_def
proof (rule pod_exit_zero)
  let ?chs = "init_passes @ [GoMains] @ web_exits 3 @ [MainsDone]"
  have "schedule ?chs (small_pod ''Never'') \<noteq> None" by code_simp
  then show "reachable (new_pod ''Never'' [(task ''setup'', [])] [(task ''web'', [])])
      (after ?chs (small_pod ''Never''))"
    unfolding small_pod_def by (rule after_reachable)
  show "stage (after ?chs (small_pod ''Never'')) = PodExit 3" by code_simp
qed



text \<open>the outcome of supervising one container.  Runs that the restart policy restarts are
  repeated; supervision ends with the first run that the policy does not restart, or at whose
  end, or at the end of whose backoff, the pod is stopping; the container is then Terminated
  with that run's exit code, and \<open>restarts\<close> has counted every repeated run.\<close>

theorem supervise_outcome:
  "case dropWhile (\<lambda>r. \<not> last_run pol r) rs of
     [] \<Rightarrow> supervise pol rs c = None
   | r # _ \<Rightarrow> (\<exists>c'. supervise pol rs c = Some c' \<and> state c' = Terminated
         \<and> exit_code c' = returned_code r
         \<and> restarts c' = restarts c + length (takeWhile (\<lambda>r. \<not> last_run pol r) rs)
                        + (if final_run pol r then 0 else 1))"
proof (cases "dropWhile (\<lambda>r. \<not> last_run pol r) rs")
  case Nil
  then have "\<forall>r \<in> set rs. \<not> last_run pol r" by (simp add: dropWhile_eq_Nil_conv)
  then have "supervise pol rs c = None" by (rule supervise_none)
  then show ?thesis by (simp only: Nil list.case)
next
  case (Cons r post)
  let ?pre = "takeWhile (\<lambda>r. \<not> last_run pol r) rs"
  have "\<forall>q \<in> set ?pre. \<not> last_run pol q" by (auto dest: set_takeWhileD)
  moreover have "last_run pol r" using Cons hd_dropWhile [of "\<lambda>r. \<not> last_run pol r" rs] by auto
  moreover have "rs = ?pre @ r # post" using Cons by (metis takeWhile_dropWhile_id)
  ultimately show ?thesis using Cons supervise_some [of ?pre pol r post c] by auto
qed


definition quick_crash :: run where
  "quick_crash = \<lparr>run_started = Inr (9, 5), run_ended = 7, run_code = 1, stop_exit = False, stop_wake = False\<rparr>"


text \<open>a container whose process never starts does not back off: as \<open>started_at\<close> is still
  the zero time, every failed start looks like a long run and resets the attempt counter, so
  each retry comes after one second.\<close>

theorem never_started_no_backoff:
  assumes "\<forall>q \<in> set (rs @ [r]). (\<exists>err. run_started q = Inl err) \<and> \<not> final_run pol q"
  shows "reason (one_run pol r (loop_again pol rs (begin_supervise (new_container cs rt))))
    = ''CrashLoopBackOff: restarting in 1s''"
proof -
  have "started_at (loop_again pol rs (begin_supervise (new_container cs rt))) = None"
    using assms by (intro loop_again_never_started) (simp_all add: begin_supervise_def new_container_def)
  then show ?thesis using assms one_run_start_failure(2) by auto
qed

definition no_binary :: run where
  "no_binary = \<lparr>run_started = Inl ''not found'', run_ended = 7, run_code = 0, stop_exit = False, stop_wake = False\<rparr>"

lemma never_started_no_backoff_witness:
  "reason (one_run ''Always'' no_binary (loop_again ''Always'' [no_binary, no_binary, no_binary]
       (begin_supervise (new_container (task ''web'') []))))
   = ''CrashLoopBackOff: restarting in 1s''"
  by (rule never_started_no_backoff)
    (simp add: no_binary_def final_run_def returned_code_def should_restart_def)

lemma start_stopping_main:
  assumes "stage p = MainStage" and "j < length (mains p)" and "at (mains p ! j) = Starting"
  shows "\<exists>q. reachable p q \<and> stopping q = stopping p \<and> state (mains q ! j) = Running"
proof -
  let ?chs = "[MainMove j (MLaunch 1), MainMove j (MMark 0)]"
  have "schedule ?chs p = Some (p\<lparr>mains := (mains p)[j := mark_running 0 (launch 1 (mains p ! j))]\<rparr>)"
    using assms by (simp add: pod_choice_def move_step_def launch_def)
  then have "reachable p (p\<lparr>mains := (mains p)[j := mark_running 0 (launch 1 (mains p ! j))]\<rparr>)"
    by (rule schedule_reach)
  moreover have "state (mark_running 0 c) = Running" for c by (simp add: mark_running_def)
  ultimately show ?thesis using assms by (metis (no_types, lifting) nth_list_update_eq pod.select_convs(3,4)
      pod.surjective pod.update_convs(3))
qed

text \<open>a shutdown request does not keep containers that have not run yet from starting: when
  it arrives before an init container has been started, and the init container then succeeds,
  the main containers can all still be started, and run, in the stopping pod.\<close>

theorem shutdown_still_starts:
  assumes "stage p = InitStage i" and "length (inits p) \<le> i" and "j < length (mains p)" and "stopping p"
  shows "\<exists>q. reachable p q \<and> stopping q \<and> state (mains q ! j) = Running"
proof -
  let ?q = "p\<lparr>mains := map begin_supervise (mains p), stage := MainStage\<rparr>"
  have "schedule [GoMains] p = Some ?q" using assms by (simp add: pod_choice_def)
  then have "reachable p ?q" by (rule schedule_reach)
  moreover obtain q where q: "reachable ?q q" "stopping q" "state (mains q ! j) = Running"
    using start_stopping_main [of ?q j] assms by auto
  moreover have "reachable ?q q \<Longrightarrow> reachable p ?q \<Longrightarrow> reachable p q"
    by (induction rule: reachable.induct) (auto intro: reachable.step)
  ultimately show ?thesis by blast
qed

lemma shutdown_still_starts_witness:
  "\<exists>q. reachable stopped_pod q \<and> stopping q \<and> state (mains q ! 0) = Running"
proof (rule shutdown_still_starts)
  show "stage stopped_pod = InitStage 1" by code_simp
  show "length (inits stopped_pod) \<le> 1" by code_simp
  show "0 < length (mains stopped_pod)" by code_simp
  show "stopping stopped_pod" by code_simp
qed

end
