(* ===== verification/Erofs_Tree.thy ===== *)
theory Erofs_Tree imports Go_Bytes Go_Strings begin

text \<open>
  The EROFS writer, first half (\<^verbatim>\<open>poc/agent/erofs/erofs.go\<close>): the in-memory tree built from the
  tar stream while file data is streamed to the image.  A \<^verbatim>\<open>*node\<close> is an index into the heap
  \<open>nodes\<close>; the root is node 0, and a node is allocated at the end.  A nil map is \<open>None\<close>, and
  an assignment to it, like a nil dereference, is the error \<open>Panic\<close>; a loop over
  \<^verbatim>\<open>hardTo\<close> that does not end is the error \<open>Diverges\<close>.
\<close>

subsection \<open>The image file\<close>

text \<open>An \<^verbatim>\<open>io.WriteSeeker\<close> with room for \<open>dev_cap\<close> bytes that can or cannot seek.\<close>

record dev =
  dev_data :: bytes
  dev_pos :: nat
  dev_cap :: nat
  dev_seeks :: bool

datatype erofs_error =
    IoError | ReadError | ShortData | SeekError
  | NotFound string | NotDir string | NameTooLong | Populated | DirentTooBig string
  | LinkTarget erofs_error | TarError | Entry string erofs_error
  | Panic | Diverges

definition write_over :: "nat \<Rightarrow> bytes \<Rightarrow> bytes \<Rightarrow> bytes" where
  "write_over off bs buf = put_at off bs (buf @ replicate (off + length bs - length buf) 0)"

definition dev_write :: "bytes \<Rightarrow> dev \<Rightarrow> erofs_error + dev" where
  "dev_write bs d =
     (if dev_cap d < dev_pos d + length bs then Inl IoError
      else Inr (d\<lparr>dev_data := write_over (dev_pos d) bs (dev_data d), dev_pos := dev_pos d + length bs\<rparr>))"

definition dev_seek :: "nat \<Rightarrow> dev \<Rightarrow> erofs_error + dev" where
  "dev_seek off d = (if dev_seeks d then Inr (d\<lparr>dev_pos := off\<rparr>) else Inl SeekError)"

subsection \<open>Constants, nodes and the writer\<close>

definition block_size :: nat where "block_size = 4096"
definition super_offset :: nat where "super_offset = 1024"
definition inode_size :: nat where "inode_size = 64"
definition slot_size :: nat where "slot_size = 32"

definition ft_reg :: byte where "ft_reg = 1"
definition ft_dir :: byte where "ft_dir = 2"
definition ft_chardev :: byte where "ft_chardev = 3"
definition ft_blkdev :: byte where "ft_blkdev = 4"
definition ft_fifo :: byte where "ft_fifo = 5"
definition ft_symlink :: byte where "ft_symlink = 7"

lemmas erofs_consts = block_size_def super_offset_def inode_size_def slot_size_def
lemmas file_types = ft_reg_def ft_dir_def ft_chardev_def ft_blkdev_def ft_fifo_def ft_symlink_def

record node =
  nd_name :: string
  nd_parent :: "nat option"
  nd_kids :: "(string \<times> nat) list option"
  nd_mode :: "16 word"
  nd_uid :: "32 word"
  nd_gid :: "32 word"
  nd_mtime :: int
  nd_rdev :: "32 word"
  nd_size :: int
  nd_blk :: "32 word"
  nd_nlink :: "32 word"
  nd_ftype :: byte
  nd_nid :: "64 word"
  nd_ino :: "32 word"
  nd_hard :: "nat option"

definition is_dir :: "node \<Rightarrow> bool" where
  "is_dir n \<longleftrightarrow> nd_ftype n = ft_dir"

text \<open>\<^verbatim>\<open>canonical\<close>: \<open>None\<close> when the chain of aliases does not end.\<close>

partial_function (option) canonical :: "node list \<Rightarrow> nat \<Rightarrow> nat option" where
  "canonical ns i = (case nd_hard (ns ! i) of None \<Rightarrow> Some i | Some j \<Rightarrow> canonical ns j)"

declare canonical.simps [code]

record writer =
  wr_out :: dev
  next_blk :: "32 word"
  ino_seq :: "32 word"
  nodes :: "node list"
  by_path :: "string \<rightharpoonup> nat"

definition new_dir :: "string \<Rightarrow> nat option \<Rightarrow> node" where
  "new_dir base par =
     \<lparr>nd_name = base, nd_parent = par, nd_kids = Some [], nd_mode = 0x41ED, nd_uid = 0, nd_gid = 0,
      nd_mtime = 0, nd_rdev = 0, nd_size = 0, nd_blk = 0, nd_nlink = 2, nd_ftype = ft_dir,
      nd_nid = 0, nd_ino = 0, nd_hard = None\<rparr>"

definition new_writer :: "dev \<Rightarrow> writer" where
  "new_writer d = \<lparr>wr_out = d, next_blk = 1, ino_seq = 0, nodes = [new_dir [] None],
     by_path = Map.empty(''.'' \<mapsto> 0)\<rparr>"

definition upd :: "nat \<Rightarrow> (node \<Rightarrow> node) \<Rightarrow> writer \<Rightarrow> writer" where
  "upd i f w = w\<lparr>nodes := (nodes w)[i := f (nodes w ! i)]\<rparr>"

subsection \<open>Looking a path up\<close>

definition add_child :: "nat \<Rightarrow> string \<Rightarrow> string \<Rightarrow> (string \<times> nat) list \<Rightarrow> writer \<Rightarrow> nat \<times> writer" where
  "add_child par q base kids w =
     (let i = length (nodes w);
          w1 = w\<lparr>nodes := nodes w @ [new_dir base (Some par)]\<rparr>;
          w2 = upd par (\<lambda>x. x\<lparr>nd_kids := Some (AList.update base i kids), nd_nlink := nd_nlink x + 1\<rparr>) w1
      in (i, w2\<lparr>by_path := (by_path w2)(q \<mapsto> i)\<rparr>))"

text \<open>The new directory under its parent, once that has been found.\<close>

definition attach :: "string \<Rightarrow> nat \<times> writer \<Rightarrow> erofs_error + (nat \<times> writer)" where
  "attach q r =
     (case r of (par0, w1) \<Rightarrow>
        (case canonical (nodes w1) par0 of
           None \<Rightarrow> Inl Diverges
         | Some par \<Rightarrow>
             if \<not> is_dir (nodes w1 ! par) then Inl (NotDir q)
             else if 255 < length (path_base q) then Inl NameTooLong
             else (case nd_kids (nodes w1 ! par) of
                     None \<Rightarrow> Inl Panic
                   | Some kids \<Rightarrow> Inr (add_child par q (path_base q) kids w1))))"

function lookup :: "string \<Rightarrow> bool \<Rightarrow> writer \<Rightarrow> erofs_error + (nat \<times> writer)" where
  "lookup p create w =
     (let q = path_clean (trim_prefix p ''/'')
      in if q = ''.'' \<or> q = [] then Inr (0, w)
         else case by_path w q of
                Some n \<Rightarrow> Inr (n, w)
              | None \<Rightarrow>
                  if \<not> create then Inl (NotFound q)
                  else and_then (lookup (path_dir q) True w) (attach q))"
  by pat_completeness auto
termination
  by (relation "measure (\<lambda>(p, c, w). path_depth (trim_prefix p ''/''))") (use path_depth_dir in auto)

declare lookup.simps [simp del]

subsection \<open>Tar entries\<close>

datatype tar_type =
  TypeDir | TypeReg | TypeSymlink | TypeLink | TypeChar | TypeBlock | TypeFifo | TypeOther

text \<open>A header with what reading the entry's content yields: bytes, and whether it then failed.\<close>

record tar_header =
  hdr_name :: string
  hdr_type :: tar_type
  hdr_uid :: int
  hdr_gid :: int
  hdr_mtime :: int
  hdr_mode :: int
  hdr_link :: string
  hdr_major :: int
  hdr_minor :: int
  hdr_size :: nat
  hdr_body :: bytes
  hdr_fails :: bool

definition mkdev :: "int \<Rightarrow> int \<Rightarrow> 32 word" where
  "mkdev major minor =
     or (or (and (word_of_int minor) 0xff) (push_bit 8 (word_of_int major)))
        (push_bit 12 (and (word_of_int minor) (not 0xff)))"

definition pad_to_block :: "nat \<Rightarrow> writer \<Rightarrow> erofs_error + writer" where
  "pad_to_block sz w =
     (let blocks = (sz + block_size - 1) div block_size; pad = blocks * block_size - sz
      in and_then (if 0 < pad then dev_write (replicate pad 0) (wr_out w) else Inr (wr_out w)) (\<lambda>d.
           Inr (w\<lparr>wr_out := d, next_blk := next_blk w + word_of_nat blocks\<rparr>)))"

definition stream_data :: "nat \<Rightarrow> bytes \<Rightarrow> bool \<Rightarrow> nat \<Rightarrow> writer \<Rightarrow> erofs_error + writer" where
  "stream_data n body fails sz w =
     (if sz = 0 then Inr (upd n (\<lambda>x. x\<lparr>nd_size := 0, nd_blk := 0\<rparr>) w)
      else let w1 = upd n (\<lambda>x. x\<lparr>nd_size := int sz, nd_blk := next_blk w\<rparr>) w
           in and_then (dev_write body (wr_out w1)) (\<lambda>d.
                if fails then Inl ReadError
                else if length body \<noteq> sz then Inl ShortData
                else pad_to_block sz (w1\<lparr>wr_out := d\<rparr>)))"

text \<open>An implicit directory replaced by an entry that is not one.\<close>

definition replace_dir :: "nat \<Rightarrow> writer \<Rightarrow> erofs_error + writer" where
  "replace_dir n w =
     (case nd_kids (nodes w ! n) of
        Some (k # ks) \<Rightarrow> Inl Populated
      | _ \<Rightarrow> (case nd_parent (nodes w ! n) of
               None \<Rightarrow> Inl Panic
             | Some p \<Rightarrow> Inr (upd n (\<lambda>x. x\<lparr>nd_kids := None, nd_nlink := 1\<rparr>)
                           (upd p (\<lambda>x. x\<lparr>nd_nlink := nd_nlink x - 1\<rparr>) w))))"

definition set_type :: "16 word \<Rightarrow> byte \<Rightarrow> node \<Rightarrow> node" where
  "set_type m ft x = x\<lparr>nd_mode := m, nd_ftype := ft, nd_nlink := 1\<rparr>"

definition link_entry :: "nat \<Rightarrow> string \<Rightarrow> writer \<Rightarrow> erofs_error + writer" where
  "link_entry n target w =
     (case lookup target False w of
        Inl e \<Rightarrow> Inl (LinkTarget e)
      | Inr (t0, w1) \<Rightarrow>
          (case canonical (nodes w1) t0 of
             None \<Rightarrow> Inl Diverges
           | Some t \<Rightarrow> Inr (upd t (\<lambda>x. x\<lparr>nd_nlink := nd_nlink x + 1\<rparr>)
                          (upd n (\<lambda>x. x\<lparr>nd_hard := Some t\<rparr>) w1))))"

definition fill_entry :: "nat \<Rightarrow> tar_header \<Rightarrow> writer \<Rightarrow> erofs_error + writer" where
  "fill_entry n h w =
     (let perm = (and (word_of_int (hdr_mode h)) 0xFFF :: 16 word);
          dv = mkdev (hdr_major h) (hdr_minor h)
      in case hdr_type h of
           TypeDir \<Rightarrow> Inr (upd n (\<lambda>x. x\<lparr>nd_mode := or perm 0x4000, nd_ftype := ft_dir,
             nd_kids := (case nd_kids x of None \<Rightarrow> Some [] | Some ks \<Rightarrow> Some ks)\<rparr>) w)
         | TypeReg \<Rightarrow> stream_data n (hdr_body h) (hdr_fails h) (hdr_size h)
             (upd n (set_type (or perm 0x8000) ft_reg) w)
         | TypeSymlink \<Rightarrow> stream_data n (string_bytes (hdr_link h)) False (length (hdr_link h))
             (upd n (set_type (or perm 0xA000) ft_symlink) w)
         | TypeLink \<Rightarrow> link_entry n (hdr_link h) w
         | TypeChar \<Rightarrow> Inr (upd n (\<lambda>x. (set_type (or perm 0x2000) ft_chardev x)\<lparr>nd_rdev := dv\<rparr>) w)
         | TypeBlock \<Rightarrow> Inr (upd n (\<lambda>x. (set_type (or perm 0x6000) ft_blkdev x)\<lparr>nd_rdev := dv\<rparr>) w)
         | TypeFifo \<Rightarrow> Inr (upd n (set_type (or perm 0x1000) ft_fifo) w)
         | TypeOther \<Rightarrow> Inr w)"

definition add_entry :: "tar_header \<Rightarrow> writer \<Rightarrow> erofs_error + writer" where
  "add_entry h w =
     and_then (lookup (hdr_name h) True w) (\<lambda>(n, w1).
       and_then (if is_dir (nodes w1 ! n) \<and> hdr_type h \<noteq> TypeDir then replace_dir n w1 else Inr w1) (\<lambda>w2.
         fill_entry n h (upd n (\<lambda>x. x\<lparr>nd_uid := word_of_int (hdr_uid h), nd_gid := word_of_int (hdr_gid h),
           nd_mtime := hdr_mtime h\<rparr>) w2)))"

text \<open>The loop of \<^verbatim>\<open>Convert\<close> over the stream: its entries, and whether it ends with an error.\<close>

definition add_entries :: "tar_header list \<Rightarrow> bool \<Rightarrow> writer \<Rightarrow> erofs_error + writer" where
  "add_entries hs broken w =
     and_then (foldr_err (\<lambda>w h. case add_entry h w of Inl e \<Rightarrow> Inl (Entry (hdr_name h) e) | Inr w' \<Rightarrow> Inr w') w hs)
       (\<lambda>w'. if broken then Inl TarError else Inr w')"

end
