(* ===== verification/Erofs_Image.thy ===== *)
theory Erofs_Image imports Erofs_Tree begin

text \<open>
  The EROFS writer, second half: numbering the inodes, the directory blocks, the inode table and
  the superblock, and \<^verbatim>\<open>Convert\<close>, which runs everything.  \<^verbatim>\<open>walk\<close> visits the canonical inodes
  breadth first; a loop bounded by a step count stands for its queue loop (\<open>Diverges\<close> when
  it is exceeded, which the invariant of the tree excludes), with the variables captured by the
  visiting closure as a second state component.
\<close>

subsection \<open>Walking the tree\<close>

definition kids_in_order :: "node list \<Rightarrow> nat \<Rightarrow> nat list" where
  "kids_in_order ns n =
     (if is_dir (ns ! n)
      then case nd_kids (ns ! n) of
             None \<Rightarrow> []
           | Some kids \<Rightarrow> filter (\<lambda>c. nd_hard (ns ! c) = None) (map snd (sort_key fst kids))
      else [])"

fun walk :: "nat \<Rightarrow> (nat \<Rightarrow> writer \<times> 'x \<Rightarrow> erofs_error + (writer \<times> 'x)) \<Rightarrow> nat list
    \<Rightarrow> writer \<times> 'x \<Rightarrow> erofs_error + (writer \<times> 'x)" where
  "walk k fn [] s = Inr s"
| "walk 0 fn (n # queue) s = Inl Diverges"
| "walk (Suc k) fn (n # queue) s =
     and_then (fn n s) (\<lambda>s'. walk k fn (queue @ kids_in_order (nodes (fst s')) n) s')"

definition walk_all :: "(nat \<Rightarrow> writer \<times> 'x \<Rightarrow> erofs_error + (writer \<times> 'x)) \<Rightarrow> 'x \<Rightarrow> writer
    \<Rightarrow> erofs_error + (writer \<times> 'x)" where
  "walk_all fn x w = walk (length (nodes w)) fn [0] (w, x)"

subsection \<open>Numbering\<close>

definition number_node :: "nat \<Rightarrow> writer \<times> 64 word \<Rightarrow> erofs_error + (writer \<times> 64 word)" where
  "number_node n s =
     (case s of (w, nxt) \<Rightarrow>
        let w1 = w\<lparr>ino_seq := ino_seq w + 1\<rparr>
        in Inr (upd n (\<lambda>x. x\<lparr>nd_ino := ino_seq w1, nd_nid := nxt\<rparr>) w1,
                nxt + word_of_nat (inode_size div slot_size)))"

definition assign_nids :: "writer \<Rightarrow> erofs_error + writer" where
  "assign_nids w = and_then (walk_all number_node 2 w) (\<lambda>(w', nxt). Inr w')"

subsection \<open>Directory blocks\<close>

record dirent =
  de_name :: string
  de_nid :: "64 word"
  de_ft :: byte

definition de_bytes :: "dirent \<Rightarrow> nat" where
  "de_bytes e = 12 + length (de_name e)"

text \<open>How many of the entries fit the block when \<open>used\<close> bytes of it are taken.\<close>

fun fit_count :: "nat \<Rightarrow> dirent list \<Rightarrow> nat" where
  "fit_count used [] = 0"
| "fit_count used (e # es) =
     (if block_size < used + de_bytes e then 0 else Suc (fit_count (used + de_bytes e) es))"

fun fill_block :: "nat \<Rightarrow> nat \<Rightarrow> dirent list \<Rightarrow> bytes \<Rightarrow> bytes \<times> nat" where
  "fill_block k nameoff [] blk = (blk, nameoff)"
| "fill_block k nameoff (e # es) blk =
     (let b1 = put_at (k * 12) (le_bytes 8 (unat (de_nid e))) blk;
          b2 = put_at (k * 12 + 8) (le_bytes 2 nameoff) b1;
          b3 = put_at (k * 12 + 10) [de_ft e] b2;
          b4 = put_at nameoff (string_bytes (de_name e)) b3
      in fill_block (Suc k) (nameoff + length (de_name e)) es b4)"

definition dir_block :: "dirent list \<Rightarrow> bytes" where
  "dir_block es =
     (case fill_block 0 (length es * 12) es (replicate block_size 0) of (blk, nameoff) \<Rightarrow> take nameoff blk)"

lemma fit_count_le: "fit_count used es \<le> length es"
  by (induction es arbitrary: used) auto

function pack_blocks :: "dirent list \<Rightarrow> erofs_error + bytes list" where
  "pack_blocks es =
     (if es = [] then Inr []
      else if fit_count 0 es = 0 then Inl (DirentTooBig (de_name (hd es)))
      else and_then (pack_blocks (drop (fit_count 0 es) es)) (\<lambda>blocks.
             Inr (dir_block (take (fit_count 0 es) es) # blocks)))"
  by pat_completeness auto
termination
  by (relation "measure length") (auto simp: length_greater_0_conv)

declare pack_blocks.simps [simp del]

text \<open>The data of a directory: all blocks but the last padded to the block size.\<close>

fun pad_blocks :: "bytes list \<Rightarrow> bytes" where
  "pad_blocks [] = []"
| "pad_blocks [blk] = blk"
| "pad_blocks (blk # b # bs) = blk @ replicate (block_size - length blk) 0 @ pad_blocks (b # bs)"

fun write_blocks :: "bytes list \<Rightarrow> dev \<Rightarrow> erofs_error + dev" where
  "write_blocks [] d = Inr d"
| "write_blocks [blk] d = dev_write blk d"
| "write_blocks (blk # b # bs) d =
     and_then (dev_write blk d) (\<lambda>d1.
       and_then (dev_write (replicate (block_size - length blk) 0) d1) (write_blocks (b # bs)))"

fun child_entries :: "node list \<Rightarrow> (string \<times> nat) list \<Rightarrow> erofs_error + dirent list" where
  "child_entries ns [] = Inr []"
| "child_entries ns ((name, i) # kids) =
     (case canonical ns i of
        None \<Rightarrow> Inl Diverges
      | Some c \<Rightarrow> and_then (child_entries ns kids) (\<lambda>es.
          Inr (\<lparr>de_name = name, de_nid = nd_nid (ns ! c), de_ft = nd_ftype (ns ! c)\<rparr> # es)))"

definition dir_entries :: "node list \<Rightarrow> nat \<Rightarrow> erofs_error + dirent list" where
  "dir_entries ns n =
     (let par = (case nd_parent (ns ! n) of None \<Rightarrow> n | Some p \<Rightarrow> p)
      in and_then (child_entries ns (case nd_kids (ns ! n) of None \<Rightarrow> [] | Some kids \<Rightarrow> kids)) (\<lambda>es.
           Inr (sort_key de_name
             (\<lparr>de_name = ''.'', de_nid = nd_nid (ns ! n), de_ft = ft_dir\<rparr>
              # \<lparr>de_name = ''..'', de_nid = nd_nid (ns ! par), de_ft = ft_dir\<rparr> # es))))"

definition write_one_dir :: "nat \<Rightarrow> writer \<Rightarrow> erofs_error + writer" where
  "write_one_dir n w =
     and_then (dir_entries (nodes w) n) (\<lambda>es.
       and_then (pack_blocks es) (\<lambda>blocks.
         let w1 = upd n (\<lambda>x. x\<lparr>nd_blk := next_blk w\<rparr>) w; total = length (pad_blocks blocks)
         in and_then (write_blocks blocks (wr_out w1)) (\<lambda>d.
              pad_to_block total (upd n (\<lambda>x. x\<lparr>nd_size := int total\<rparr>) (w1\<lparr>wr_out := d\<rparr>)))))"

definition write_dir_blocks :: "writer \<Rightarrow> erofs_error + writer" where
  "write_dir_blocks w =
     and_then (walk_all (\<lambda>n (w, u). if is_dir (nodes w ! n)
                                   then and_then (write_one_dir n w) (\<lambda>w'. Inr (w', u)) else Inr (w, u)) () w)
       (\<lambda>(w', u). Inr w')"

subsection \<open>Inodes\<close>

text \<open>\<^verbatim>\<open>uint64(v)\<close> of an int64, and the two bytes 2..3, 12..15, 40..43 and 48..63 left zero.\<close>

definition u64 :: "int \<Rightarrow> nat" where
  "u64 v = unat (word_of_int v :: 64 word)"

definition inode_bytes :: "node \<Rightarrow> bytes" where
  "inode_bytes n =
     (let b0 = put_at 0 (le_bytes 2 1) (replicate inode_size 0);
          b1 = put_at 4 (le_bytes 2 (unat (nd_mode n))) b0;
          b2 = put_at 8 (le_bytes 8 (u64 (nd_size n))) b1;
          b3 = (if nd_ftype n \<in> {ft_chardev, ft_blkdev} then put_at 16 (le_bytes 4 (unat (nd_rdev n))) b2
                else put_at 16 (le_bytes 4 (unat (nd_blk n))) b2);
          b4 = put_at 20 (le_bytes 4 (unat (nd_ino n))) b3;
          b5 = put_at 24 (le_bytes 4 (unat (nd_uid n))) b4;
          b6 = put_at 28 (le_bytes 4 (unat (nd_gid n))) b5;
          b7 = put_at 32 (le_bytes 8 (u64 (nd_mtime n))) b6
      in put_at 44 (le_bytes 4 (unat (nd_nlink n))) b7)"

text \<open>The closure's \<^verbatim>\<open>inos\<close> and \<^verbatim>\<open>written\<close>.\<close>

definition write_inode :: "nat \<Rightarrow> writer \<times> nat \<times> nat \<Rightarrow> erofs_error + (writer \<times> nat \<times> nat)" where
  "write_inode n s =
     (case s of (w, inos, written) \<Rightarrow>
        and_then (dev_write (inode_bytes (nodes w ! n)) (wr_out w)) (\<lambda>d.
          Inr (w\<lparr>wr_out := d\<rparr>, Suc inos, written + inode_size)))"

definition write_inodes :: "writer \<Rightarrow> erofs_error + (writer \<times> 32 word \<times> nat)" where
  "write_inodes w =
     and_then (dev_write (replicate (2 * slot_size) 0) (wr_out w)) (\<lambda>d.
       and_then (walk_all write_inode (0, 2 * slot_size) (w\<lparr>wr_out := d\<rparr>)) (\<lambda>(w1, inos, written).
         and_then (pad_to_block written w1) (\<lambda>w2. Inr (w2, next_blk w, inos))))"

subsection \<open>The superblock\<close>

definition erofs_magic :: nat where "erofs_magic = 0xE0F5E1E2"

definition super_bytes :: "writer \<Rightarrow> 32 word \<Rightarrow> nat \<Rightarrow> bytes" where
  "super_bytes w meta inos =
     (let b0 = put_at 0 (le_bytes 4 erofs_magic) (replicate 128 0);
          b1 = put_at 12 [12] b0;
          b2 = put_at 14 (le_bytes 2 (unat (nd_nid (nodes w ! 0)))) b1;
          b3 = put_at 16 (le_bytes 8 inos) b2;
          b4 = put_at 36 (le_bytes 4 (unat (next_blk w))) b3;
          b5 = put_at 40 (le_bytes 4 (unat meta)) b4;
          b6 = put_at 48 (string_bytes ''kube-on-macos---'') b5
      in put_at 64 (string_bytes ''pod-image'') b6)"

definition write_superblock :: "32 word \<Rightarrow> nat \<Rightarrow> writer \<Rightarrow> erofs_error + writer" where
  "write_superblock meta inos w =
     and_then (dev_seek super_offset (wr_out w)) (\<lambda>d.
       and_then (dev_write (super_bytes w meta inos) d) (\<lambda>d'. Inr (w\<lparr>wr_out := d'\<rparr>)))"

subsection \<open>Convert\<close>

definition erofs_convert :: "tar_header list \<Rightarrow> bool \<Rightarrow> dev \<Rightarrow> erofs_error + dev" where
  "erofs_convert hs broken out =
     and_then (dev_seek block_size out) (\<lambda>d.
       and_then (add_entries hs broken (new_writer d)) (\<lambda>w1.
         and_then (assign_nids w1) (\<lambda>w2.
           and_then (write_dir_blocks w2) (\<lambda>w3.
             and_then (write_inodes w3) (\<lambda>(w4, meta, inos).
               and_then (write_superblock meta inos w4) (\<lambda>w5. Inr (wr_out w5)))))))"

end
