(* ===== verification/Erofs_Dirents.thy ===== *)
theory Erofs_Dirents imports Erofs_Image begin

text \<open>
  Directory blocks against a reader: \<open>decode_dir\<close> reads a directory the way Linux does
  (\<^verbatim>\<open>fs/erofs/namei.c\<close>: the first name offset gives the number of entries of a block, a name
  ends where the next one starts, the last one at the end of the block or at its padding), and
  reading what \<^verbatim>\<open>writeOneDir\<close> packs gives the entries back.
\<close>

subsection \<open>The reader\<close>

definition decode_name :: "nat \<Rightarrow> nat \<Rightarrow> bytes \<Rightarrow> string" where
  "decode_name from to blk = bytes_string (takeWhile (\<lambda>b. b \<noteq> 0) (slice from (to - from) blk))"

definition name_off :: "nat \<Rightarrow> bytes \<Rightarrow> nat" where
  "name_off k blk = le_val (slice (k * 12 + 8) 2 blk)"

definition decode_entry :: "bytes \<Rightarrow> nat \<Rightarrow> nat \<Rightarrow> dirent" where
  "decode_entry blk n k =
     \<lparr>de_name = decode_name (name_off k blk) (if Suc k < n then name_off (Suc k) blk else length blk) blk,
      de_nid = word_of_nat (le_val (slice (k * 12) 8 blk)),
      de_ft = blk ! (k * 12 + 10)\<rparr>"

definition decode_block :: "bytes \<Rightarrow> dirent list" where
  "decode_block blk = (let n = name_off 0 blk div 12 in map (decode_entry blk n) [0..<n])"

function chunks :: "bytes \<Rightarrow> bytes list" where
  "chunks bs = (if bs = [] then [] else take block_size bs # chunks (drop block_size bs))"
  by pat_completeness auto
termination
  by (relation "measure length") (auto simp: block_size_def length_greater_0_conv)

declare chunks.simps [simp del]

definition decode_dir :: "bytes \<Rightarrow> dirent list" where
  "decode_dir bs = concat (map decode_block (chunks bs))"

subsection \<open>The block in closed form\<close>

definition de_header :: "nat \<Rightarrow> dirent \<Rightarrow> bytes" where
  "de_header off e = le_bytes 8 (unat (de_nid e)) @ le_bytes 2 off @ [de_ft e, 0]"

fun de_headers :: "nat \<Rightarrow> dirent list \<Rightarrow> bytes" where
  "de_headers off [] = []"
| "de_headers off (e # es) = de_header off e @ de_headers (off + length (de_name e)) es"

definition de_names :: "dirent list \<Rightarrow> bytes" where
  "de_names es = concat (map (\<lambda>e. string_bytes (de_name e)) es)"

lemma length_de_header [simp]: "length (de_header off e) = 12"
  by (simp add: de_header_def)

lemma length_de_headers [simp]: "length (de_headers off es) = 12 * length es"
  by (induction es arbitrary: off) auto

lemma de_names_simps [simp]:
  "de_names [] = []" "de_names (e # es) = string_bytes (de_name e) @ de_names es"
  by (simp_all add: de_names_def)

lemma put_at_skip: "put_at (length xs + off) bs (xs @ ys) = xs @ put_at off bs ys"
  by (simp add: put_at_def)

lemma put_at_zeros: "length bs \<le> n \<Longrightarrow> put_at 0 bs (replicate n x @ ys) = bs @ replicate (n - length bs) x @ ys"
  by (simp add: put_at_def)

lemma put_header:
  assumes "length xs = k * 12"
  shows "put_at (k * 12 + 10) [de_ft e] (put_at (k * 12 + 8) (le_bytes 2 off)
      (put_at (k * 12) (le_bytes 8 (unat (de_nid e))) (xs @ replicate (12 + m) 0 @ ys)))
    = xs @ de_header off e @ replicate m 0 @ ys"
proof -
  let ?n = "le_bytes 8 (unat (de_nid e))" and ?o = "le_bytes 2 off"
  have 1: "put_at (k * 12) ?n (xs @ replicate (12 + m) 0 @ ys) = (xs @ ?n) @ replicate (4 + m) 0 @ ys"
    using put_at_skip [of xs 0] assms by (simp add: put_at_zeros)
  have 2: "put_at (k * 12 + 8) ?o ((xs @ ?n) @ replicate (4 + m) 0 @ ys)
      = (xs @ ?n @ ?o) @ replicate (2 + m) 0 @ ys"
    using put_at_skip [of "xs @ ?n" 0] assms by (simp add: put_at_zeros)
  have 3: "put_at (k * 12 + 10) [de_ft e] ((xs @ ?n @ ?o) @ replicate (2 + m) 0 @ ys)
      = (xs @ ?n @ ?o) @ [de_ft e] @ replicate (1 + m) 0 @ ys"
    using put_at_skip [of "xs @ ?n @ ?o" 0 "[de_ft e]" "replicate (2 + m) 0 @ ys"] assms
    by (simp add: put_at_def)
  show ?thesis unfolding 1 2 3 by (simp add: de_header_def)
qed

lemma fill_block_closed:
  "length xs = k * 12 \<Longrightarrow> off = length xs + 12 * length es + length ys \<Longrightarrow> length (de_names es) \<le> r
   \<Longrightarrow> fill_block k off es (xs @ replicate (12 * length es) 0 @ ys @ replicate r 0)
     = (xs @ de_headers off es @ ys @ de_names es @ replicate (r - length (de_names es)) 0,
        off + length (de_names es))"
proof (induction es arbitrary: k off xs ys r)
  case (Cons e es)
  let ?nm = "string_bytes (de_name e)"
  let ?z = "(xs @ de_header off e) @ replicate (12 * length es) 0 @ ys"
  have "length ?z + 0 = off" using Cons.prems by simp
  then have "put_at off ?nm (?z @ replicate r 0) = ?z @ put_at 0 ?nm (replicate r 0)"
    using put_at_skip [of ?z 0 ?nm "replicate r 0"] by (simp only:)
  then have name: "put_at off ?nm ((xs @ de_header off e) @ replicate (12 * length es) 0 @ ys @ replicate r 0)
     = (xs @ de_header off e) @ replicate (12 * length es) 0 @ (ys @ ?nm) @ replicate (r - length ?nm) 0"
    using Cons.prems put_at_zeros [of ?nm r 0 "[]"] by simp
  have "fill_block k off (e # es) (xs @ replicate (12 * length (e # es)) 0 @ ys @ replicate r 0)
    = fill_block (Suc k) (off + length (de_name e)) es
        ((xs @ de_header off e) @ replicate (12 * length es) 0 @ (ys @ ?nm) @ replicate (r - length ?nm) 0)"
    using put_header [of xs k e off "12 * length es" "ys @ replicate r 0"] Cons.prems name
    by (simp add: Let_def)
  also have "\<dots> = ((xs @ de_header off e) @ de_headers (off + length (de_name e)) es @ (ys @ ?nm) @ de_names es
        @ replicate (r - length ?nm - length (de_names es)) 0,
        off + length (de_name e) + length (de_names es))"
    using Cons.prems by (intro Cons.IH) auto
  finally show ?case by simp
qed simp

lemma sum_de_bytes: "sum_list (map de_bytes es) = 12 * length es + length (de_names es)"
  by (induction es) (auto simp: de_bytes_def)

lemma dir_block_closed:
  assumes "sum_list (map de_bytes es) \<le> block_size"
  shows "dir_block es = de_headers (12 * length es) es @ de_names es"
proof -
  let ?r = "block_size - 12 * length es"
  have "replicate block_size (0 :: byte) = [] @ replicate (12 * length es) 0 @ [] @ replicate ?r 0"
    using assms by (simp add: sum_de_bytes flip: replicate_add)
  then have "fill_block 0 (length es * 12) es (replicate block_size 0)
    = (de_headers (12 * length es) es @ de_names es @ replicate (?r - length (de_names es)) 0,
       12 * length es + length (de_names es))"
    using fill_block_closed [of "[]" 0 "12 * length es" es "[]" ?r] assms
    by (simp add: sum_de_bytes mult.commute)
  then show ?thesis by (simp add: dir_block_def)
qed

lemma length_dir_block:
  "sum_list (map de_bytes es) \<le> block_size \<Longrightarrow> length (dir_block es) = sum_list (map de_bytes es)"
  by (simp add: dir_block_closed sum_de_bytes)

subsection \<open>Reading a block back\<close>

definition off_of :: "nat \<Rightarrow> dirent list \<Rightarrow> nat \<Rightarrow> nat" where
  "off_of off es k = off + length (de_names (take k es))"

lemma slice_headers:
  "k < length es \<Longrightarrow> a + n \<le> 12
   \<Longrightarrow> slice (k * 12 + a) n (de_headers off es @ ys) = slice a n (de_header (off_of off es k) (es ! k))"
proof (induction es arbitrary: k off)
  case (Cons e es)
  show ?case
  proof (cases k)
    case 0
    with Cons.prems show ?thesis by (simp add: off_of_def slice_simps)
  next
    case (Suc j)
    with Cons.prems have "slice (k * 12 + a) n (de_headers off (e # es) @ ys)
        = slice (j * 12 + a) n (de_headers (off + length (de_name e)) es @ ys)"
      by (simp add: slice_simps)
    with Suc Cons show ?thesis by (simp add: off_of_def add.assoc)
  qed
qed simp

lemma header_fields:
  "le_val (slice 0 8 (de_header off e)) = unat (de_nid e)"
  "off < 65536 \<Longrightarrow> le_val (slice 8 2 (de_header off e)) = off"
  "slice 10 (Suc 0) (de_header off e) = [de_ft e]"
proof -
  show "le_val (slice 0 8 (de_header off e)) = unat (de_nid e)"
    by (simp add: de_header_def slice_simps le.dec_enc_word)
  show "off < 65536 \<Longrightarrow> le_val (slice 8 2 (de_header off e)) = off"
    by (simp add: de_header_def slice_simps le.dec_enc_small)
  show "slice 10 (Suc 0) (de_header off e) = [de_ft e]"
    by (simp add: de_header_def slice_def)
qed

lemma nth_slice: "i < length xs \<Longrightarrow> slice i (Suc 0) xs = [xs ! i]"
  by (metis Cons_nth_drop_Suc slice_def take0 take_Suc_Cons)

lemma slice_names:
  "k < length es \<Longrightarrow> slice (length (de_names (take k es))) (length (de_name (es ! k))) (de_names es)
     = string_bytes (de_name (es ! k))"
proof (induction es arbitrary: k)
  case (Cons e es)
  then show ?case by (cases k) (simp_all add: slice_simps)
qed simp

lemma off_of_Suc: "k < length es \<Longrightarrow> off_of off es (Suc k) = off_of off es k + length (de_name (es ! k))"
  by (simp add: off_of_def take_Suc_conv_app_nth de_names_def)

definition clean_name :: "string \<Rightarrow> bool" where
  "clean_name s \<longleftrightarrow> CHR 0x00 \<notin> set s"

lemma string_bytes_nonzero: "clean_name s \<Longrightarrow> b \<in> set (string_bytes s) \<Longrightarrow> b \<noteq> 0"
proof
  assume "clean_name s" "b \<in> set (string_bytes s)" "b = 0"
  then obtain c where c: "c \<in> set s" "(of_char c :: byte) = 0" by (auto simp: string_bytes_def)
  have "bytes_string (string_bytes [c]) = [c]" by (rule bytes_string_inverse)
  then have "char_of (0 :: nat) = c" using c(2) by (simp add: bytes_string_def string_bytes_def)
  moreover have "char_of (0 :: nat) = CHR 0x00" by (simp add: char_of_def)
  ultimately show False using c(1) \<open>clean_name s\<close> by (simp add: clean_name_def)
qed

lemma decode_dir_block:
  assumes "sum_list (map de_bytes es) \<le> block_size" and "\<forall>e \<in> set es. clean_name (de_name e)"
    and "es \<noteq> []" and "\<forall>b \<in> set pad. b = 0"
  shows "decode_block (dir_block es @ pad) = es"
proof -
  let ?off = "12 * length es"
  define blk where "blk = dir_block es @ pad"
  have blk: "blk = de_headers ?off es @ de_names es @ pad"
    using dir_block_closed [OF assms(1)] by (simp add: blk_def)
  have small: "?off + length (de_names es) \<le> 4096"
    using assms(1) by (simp add: sum_de_bytes block_size_def)
  have off: "name_off k blk = off_of ?off es k" if "k < length es" for k
  proof -
    have "length (de_names (take k es)) \<le> length (de_names es)"
      by (metis append_take_drop_id de_names_def concat_append length_append map_append le_add1)
    then have "off_of ?off es k < 65536" using small by (simp add: off_of_def)
    then show ?thesis
      using slice_headers [OF that, of 8 2 ?off] by (simp add: name_off_def blk header_fields)
  qed
  have n: "name_off 0 blk div 12 = length es" using off [of 0] assms(3) by (simp add: off_of_def)
  have "decode_entry blk (length es) k = es ! k" if k: "k < length es" for k
  proof -
    let ?e = "es ! k"
    have nid: "word_of_nat (le_val (slice (k * 12) 8 blk)) = de_nid ?e"
      using slice_headers [OF k, of 0 8 ?off] by (simp add: blk header_fields)
    have "slice (k * 12 + 10) (Suc 0) blk = [de_ft ?e]"
      using slice_headers [OF k, of 10 "Suc 0" ?off] by (simp add: blk header_fields)
    moreover have "k * 12 + 10 < length blk" using k by (simp add: blk)
    ultimately have ft: "blk ! (k * 12 + 10) = de_ft ?e" using nth_slice by fastforce
    let ?to = "if Suc k < length es then name_off (Suc k) blk else length blk"
    have nz: "\<forall>b \<in> set (string_bytes (de_name ?e)). b \<noteq> 0"
      using string_bytes_nonzero [of "de_name ?e"] assms(2) nth_mem [OF k] by blast
    have "takeWhile (\<lambda>b. b \<noteq> 0) (slice (off_of ?off es k) (?to - off_of ?off es k) blk) = string_bytes (de_name ?e)"
    proof -
      let ?s = "slice (off_of ?off es k) (?to - off_of ?off es k) blk"
      have drop: "drop (off_of ?off es k) blk = string_bytes (de_name ?e) @ de_names (drop (Suc k) es) @ pad"
      proof -
        have "de_names es = de_names (take k es) @ string_bytes (de_name ?e) @ de_names (drop (Suc k) es)"
          by (metis Cons_nth_drop_Suc append_take_drop_id concat_append de_names_def de_names_simps(2) k map_append)
        then show ?thesis by (simp add: blk off_of_def)
      qed
      show ?thesis
      proof (cases "Suc k < length es")
        case True
        then have "?to = off_of ?off es k + length (de_name ?e)" using off [of "Suc k"] off_of_Suc [OF k] by simp
        then have "?s = string_bytes (de_name ?e)" using drop by (simp add: slice_def)
        then show ?thesis using nz by (simp add: takeWhile_eq_all_conv)
      next
        case False
        then have "drop (Suc k) es = []" by simp
        moreover have "?s = drop (off_of ?off es k) blk" using False by (simp add: slice_def)
        ultimately have "?s = string_bytes (de_name ?e) @ pad" using drop by simp
        moreover have "takeWhile (\<lambda>b. b \<noteq> 0) pad = []" using assms(4) by (cases pad) auto
        ultimately show ?thesis using nz by (simp add: takeWhile_append2)
      qed
    qed
    then have "decode_name (off_of ?off es k) ?to blk = de_name ?e" by (simp add: decode_name_def)
    then show ?thesis using nid ft k off by (simp add: decode_entry_def)
  qed
  then have "map (decode_entry blk (length es)) [0..<length es] = es"
    by (intro nth_equalityI) auto
  then show ?thesis using n by (simp add: decode_block_def blk_def Let_def)
qed

subsection \<open>Packing\<close>

lemma fit_count_sum:
  "used \<le> block_size \<Longrightarrow> used + sum_list (map de_bytes (take (fit_count used es) es)) \<le> block_size"
proof (induction es arbitrary: used)
  case (Cons e es)
  show ?case using Cons.IH [of "used + de_bytes e"] Cons.prems by (auto simp: add.assoc)
qed simp

lemma pack_blocks_Nil: "pack_blocks es = Inr [] \<longleftrightarrow> es = []"
  by (subst pack_blocks.simps) auto

lemma chunks_block: "length b = block_size \<Longrightarrow> chunks (b @ bs) = b # chunks bs"
  by (subst chunks.simps) (auto simp: block_size_def)

lemma chunks_short: "b \<noteq> [] \<Longrightarrow> length b \<le> block_size \<Longrightarrow> chunks b = [b]"
  by (subst chunks.simps, subst chunks.simps) simp

lemma pack_decode:
  "pack_blocks es = Inr blocks \<Longrightarrow> \<forall>e \<in> set es. clean_name (de_name e)
   \<Longrightarrow> decode_dir (pad_blocks blocks) = es \<and> list_all (\<lambda>b. b \<noteq> [] \<and> length b \<le> block_size) blocks"
proof (induction es arbitrary: blocks rule: pack_blocks.induct)
  case (1 es)
  show ?case
  proof (cases "es = []")
    case True
    with 1 show ?thesis by (simp add: pack_blocks.simps decode_dir_def chunks.simps)
  next
    case False
    let ?n = "fit_count 0 es"
    from 1 False obtain bs where n: "?n \<noteq> 0" and bs: "pack_blocks (drop ?n es) = Inr bs"
        and blocks: "blocks = dir_block (take ?n es) # bs"
      by (subst (asm) (2) pack_blocks.simps) (auto split: if_splits)
    have clean: "\<forall>e \<in> set (take ?n es). clean_name (de_name e)" "\<forall>e \<in> set (drop ?n es). clean_name (de_name e)"
      using 1 by (auto dest: in_set_takeD in_set_dropD)
    have IH: "decode_dir (pad_blocks bs) = drop ?n es" "list_all (\<lambda>b. b \<noteq> [] \<and> length b \<le> block_size) bs"
      using 1(1) [OF False n bs clean(2)] by simp_all
    have sum: "sum_list (map de_bytes (take ?n es)) \<le> block_size"
      using fit_count_sum [of 0 es] by simp
    have ne: "take ?n es \<noteq> []" using False n by simp
    let ?b = "dir_block (take ?n es)"
    have len: "length ?b \<le> block_size" using length_dir_block [OF sum] sum by simp
    have "?b \<noteq> []" using length_dir_block [OF sum] ne by (cases "take ?n es") (auto simp: de_bytes_def)
    moreover have "decode_dir (pad_blocks blocks) = es"
    proof (cases bs)
      case Nil
      then have "drop ?n es = []" using bs by (simp add: pack_blocks_Nil)
      then have "take ?n es = es" by simp
      then show ?thesis
        using Nil blocks chunks_short [OF \<open>?b \<noteq> []\<close> len] decode_dir_block [OF sum clean(1) ne, of "[]"]
        by (simp add: decode_dir_def)
    next
      case (Cons b' bs')
      let ?z = "replicate (block_size - length ?b) 0"
      have "decode_dir (pad_blocks blocks) = decode_block (?b @ ?z) @ decode_dir (pad_blocks bs)"
        using Cons blocks len chunks_block [of "?b @ ?z" "pad_blocks bs"] by (simp add: decode_dir_def)
      also have "decode_block (?b @ ?z) = take ?n es"
        by (rule decode_dir_block [OF sum clean(1) ne]) simp
      finally show ?thesis using IH(1) by simp
    qed
    ultimately show ?thesis using blocks len IH(2) by simp
  qed
qed

lemma pack_blocks_total:
  "\<forall>e \<in> set es. length (de_name e) \<le> 255 \<Longrightarrow> \<exists>blocks. pack_blocks es = Inr blocks"
proof (induction es rule: pack_blocks.induct)
  case (1 es)
  show ?case
  proof (cases "es = []")
    case True
    then show ?thesis by (subst pack_blocks.simps) simp
  next
    case False
    then have n: "fit_count 0 es \<noteq> 0" using 1(2) by (cases es) (auto simp: de_bytes_def block_size_def)
    moreover obtain bs where "pack_blocks (drop (fit_count 0 es) es) = Inr bs"
      using 1(1) [OF False n] 1(2) by (auto dest: in_set_dropD)
    ultimately show ?thesis using False by (subst pack_blocks.simps) simp
  qed
qed

subsection \<open>Properties\<close>

text \<open>C9: directory data round trip.  Packing entries whose names are at most 255 bytes without NUL
  always succeeds, no block exceeds 4096 bytes, and reading the padded blocks back the way Linux
  reads a directory gives exactly the entries, in order.\<close>

theorem dir_round_trip:
  assumes "\<forall>e \<in> set es. length (de_name e) \<le> 255 \<and> clean_name (de_name e)"
  shows "\<exists>blocks. pack_blocks es = Inr blocks \<and> decode_dir (pad_blocks blocks) = es
    \<and> (\<forall>b \<in> set blocks. length b \<le> block_size)"
proof -
  obtain blocks where "pack_blocks es = Inr blocks" using pack_blocks_total assms by blast
  with pack_decode [of es blocks] assms show ?thesis by (auto simp: list_all_iff)
qed

definition two_entries :: "dirent list" where
  "two_entries = [\<lparr>de_name = ''etc'', de_nid = 4, de_ft = ft_dir\<rparr>, \<lparr>de_name = ''init'', de_nid = 6, de_ft = ft_reg\<rparr>]"

lemma dir_round_trip_witness:
  "\<exists>blocks. pack_blocks two_entries = Inr blocks \<and> decode_dir (pad_blocks blocks) = two_entries
    \<and> (\<forall>b \<in> set blocks. length b \<le> block_size)"
  by (rule dir_round_trip) (simp add: two_entries_def clean_name_def)

end
