(* ===== verification/Erofs_Inv.thy ===== *)
theory Erofs_Inv imports Erofs_Dirents begin

text \<open>
  Invariants of the EROFS writer's tree: children know their parent and name, hardlink chains
  end, and every tar entry keeps both unless it links a path to itself.  The breadth-first walk
  of such a tree visits each inode once, which fixes the inode numbering.
\<close>

subsection \<open>The tree\<close>

definition kid_of :: "node list \<Rightarrow> nat \<Rightarrow> string \<Rightarrow> nat option" where
  "kid_of ns i nm = (case nd_kids (ns ! i) of None \<Rightarrow> None | Some ks \<Rightarrow> map_of ks nm)"

definition keys_ok :: "node list \<Rightarrow> bool" where
  "keys_ok ns \<longleftrightarrow> (\<forall>i ks. i < length ns \<longrightarrow> nd_kids (ns ! i) = Some ks \<longrightarrow> distinct (map fst ks))"

definition kids_ok :: "node list \<Rightarrow> bool" where
  "kids_ok ns \<longleftrightarrow> (\<forall>i nm c. i < length ns \<longrightarrow> kid_of ns i nm = Some c \<longrightarrow>
     c < length ns \<and> nd_parent (ns ! c) = Some i \<and> nd_name (ns ! c) = nm)"

definition parents_ok :: "node list \<Rightarrow> bool" where
  "parents_ok ns \<longleftrightarrow> ns \<noteq> [] \<and> nd_parent (ns ! 0) = None
     \<and> (\<forall>i p. i < length ns \<longrightarrow> nd_parent (ns ! i) = Some p \<longrightarrow> p < i)"

definition links_ok :: "node list \<Rightarrow> bool" where
  "links_ok ns \<longleftrightarrow> (\<forall>i j. i < length ns \<longrightarrow> nd_hard (ns ! i) = Some j \<longrightarrow> j < length ns)
     \<and> (\<forall>i < length ns. canonical ns i \<noteq> None)"

definition tree_ok :: "writer \<Rightarrow> bool" where
  "tree_ok w \<longleftrightarrow> keys_ok (nodes w) \<and> kids_ok (nodes w) \<and> parents_ok (nodes w) \<and> links_ok (nodes w)
     \<and> (\<forall>q n. by_path w q = Some n \<longrightarrow> n < length (nodes w))"

lemmas tree_defs = keys_ok_def kids_ok_def parents_ok_def links_ok_def

lemma tree_parents: "tree_ok w \<Longrightarrow> 0 < length (nodes w)"
  by (simp add: tree_ok_def parents_ok_def)

subsection \<open>Aliases\<close>

lemma canonical_induct [consumes 1, case_names itself linked]:
  assumes "canonical ns i = Some j"
    and itself: "\<And>i. nd_hard (ns ! i) = None \<Longrightarrow> P i i"
    and linked: "\<And>i k j. nd_hard (ns ! i) = Some k \<Longrightarrow> canonical ns k = Some j \<Longrightarrow> P k j \<Longrightarrow> P i j"
  shows "P i j"
proof -
  have "ns' = ns \<longrightarrow> canonical ns i = Some j \<and> P i j" if "canonical ns' i = Some j" for ns'
    using that
  proof (induction rule: canonical.raw_induct [rotated, consumes 1, case_names 1])
    case (1 c ns' i j)
    show ?case
    proof
      assume e: "ns' = ns"
      show "canonical ns i = Some j \<and> P i j"
      proof (cases "nd_hard (ns ! i)")
        case None
        with 1 e show ?thesis by (subst canonical.simps) (simp add: itself)
      next
        case (Some k)
        with 1 e have "canonical ns k = Some j" "P k j" by auto
        with Some show ?thesis by (subst canonical.simps) (simp add: linked)
      qed
    qed
  qed
  with assms(1) show ?thesis by simp
qed

lemma canonical_real [simp]: "nd_hard (ns ! i) = None \<Longrightarrow> canonical ns i = Some i"
  by (subst canonical.simps) simp

lemma canonical_alias: "nd_hard (ns ! i) = Some k \<Longrightarrow> canonical ns i = canonical ns k"
  by (subst canonical.simps) simp

lemma canonical_Some: "canonical ns i = Some j \<Longrightarrow> nd_hard (ns ! j) = None"
  by (induction rule: canonical_induct) auto

definition aliases_in :: "node list \<Rightarrow> bool" where
  "aliases_in ns \<longleftrightarrow> (\<forall>i j. i < length ns \<longrightarrow> nd_hard (ns ! i) = Some j \<longrightarrow> j < length ns)"

lemma canonical_less: "canonical ns i = Some j \<Longrightarrow> aliases_in ns \<Longrightarrow> i < length ns \<Longrightarrow> j < length ns"
  by (induction rule: canonical_induct) (auto simp: aliases_in_def)

lemma tree_canonical: "tree_ok w \<Longrightarrow> i < length (nodes w) \<Longrightarrow> \<exists>j < length (nodes w). canonical (nodes w) i = Some j"
  using canonical_less [of "nodes w" i] by (auto simp: tree_ok_def links_ok_def aliases_in_def)

lemma canonical_transfer:
  "canonical ns i = Some j \<Longrightarrow> (\<And>k. nd_hard (ns' ! k) = nd_hard (ns ! k)) \<Longrightarrow> canonical ns' i = Some j"
  by (induction rule: canonical_induct) (simp_all add: canonical_alias)

lemma canonical_cong:
  assumes "\<And>k. nd_hard (ns' ! k) = nd_hard (ns ! k)"
  shows "canonical ns' i = canonical ns i"
  using canonical_transfer [of ns i _ ns'] canonical_transfer [of ns' i _ ns] assms
  by (cases "canonical ns i"; cases "canonical ns' i") auto

lemma canonical_append:
  "canonical ns i = Some j \<Longrightarrow> aliases_in ns \<Longrightarrow> i < length ns \<Longrightarrow> canonical (ns @ xs) i = Some j"
proof (induction rule: canonical_induct)
  case (linked i k j)
  then have "k < length ns" by (simp add: aliases_in_def)
  moreover have "nd_hard ((ns @ xs) ! i) = Some k" using linked by (simp add: nth_append)
  ultimately show ?case using linked by (simp add: canonical_alias)
qed (simp add: nth_append)

lemma nth_update_any: "ns[i := x] ! k = (if k = i \<and> i < length ns then x else ns ! k)"
  by (cases "i < length ns") (auto simp: list_update_beyond nth_list_update)

lemma canonical_link:
  assumes "canonical ns i = Some j" and t: "nd_hard (ns ! t) = None" "t \<noteq> n"
  shows "\<exists>j'. canonical (ns[n := (ns ! n)\<lparr>nd_hard := Some t\<rparr>]) i = Some j'"
    (is "\<exists>j'. canonical ?ns i = Some j'")
proof -
  have ct: "canonical ?ns t = Some t" using t by (simp add: nth_update_any)
  have at_n: "\<exists>j'. canonical ?ns n = Some j'" if "n < length ns"
    using ct that by (subst canonical_alias) auto
  show ?thesis
    using assms(1)
  proof (induction rule: canonical_induct)
    case (itself i)
    then show ?case using at_n by (cases "i = n \<and> n < length ns") (auto simp: nth_update_any)
  next
    case (linked i k j)
    show ?case
    proof (cases "i = n \<and> n < length ns")
      case True
      with at_n show ?thesis by blast
    next
      case False
      then have "nd_hard (?ns ! i) = Some k" using linked by (auto simp: nth_update_any)
      with linked show ?thesis by (simp add: canonical_alias)
    qed
  qed
qed

lemma canonical_self_loop:
  assumes "nd_hard (ns ! i) = Some i"
  shows "canonical ns i = None"
proof (rule ccontr)
  assume "canonical ns i \<noteq> None"
  then obtain j where j: "canonical ns i = Some j" by auto
  have "nd_hard (ns ! m) = Some m \<Longrightarrow> False" if "canonical ns m = Some j" for m
    using that by (induction rule: canonical_induct) auto
  then show False using assms j by blast
qed

subsection \<open>Updates that keep the shape\<close>

definition shape :: "node \<Rightarrow> string \<times> nat option \<times> (string \<times> nat) list option \<times> nat option" where
  "shape n = (nd_name n, nd_parent n, nd_kids n, nd_hard n)"

definition same_shape :: "node list \<Rightarrow> node list \<Rightarrow> bool" where
  "same_shape ns ns' \<longleftrightarrow> length ns' = length ns \<and> (\<forall>i. shape (ns' ! i) = shape (ns ! i))"

lemma same_shape_refl [simp]: "same_shape ns ns"
  by (simp add: same_shape_def)

lemma same_shape_trans: "same_shape ns ns' \<Longrightarrow> same_shape ns' ns'' \<Longrightarrow> same_shape ns ns''"
  by (simp add: same_shape_def)

lemma nodes_upd [simp]: "nodes (upd i f w) = (nodes w)[i := f (nodes w ! i)]" "by_path (upd i f w) = by_path w"
    "wr_out (upd i f w) = wr_out w" "next_blk (upd i f w) = next_blk w" "ino_seq (upd i f w) = ino_seq w"
  by (simp_all add: upd_def)

lemma same_shape_upd: "(\<And>x. shape (f x) = shape x) \<Longrightarrow> same_shape (nodes w) (nodes (upd i f w))"
  by (simp add: same_shape_def nth_update_any)

lemma tree_ok_shape:
  assumes "tree_ok w" and "same_shape (nodes w) (nodes w')" and "by_path w' = by_path w"
  shows "tree_ok w'"
proof -
  have eq: "nd_name (nodes w' ! i) = nd_name (nodes w ! i)" "nd_parent (nodes w' ! i) = nd_parent (nodes w ! i)"
      "nd_kids (nodes w' ! i) = nd_kids (nodes w ! i)" "nd_hard (nodes w' ! i) = nd_hard (nodes w ! i)" for i
    using assms(2) by (auto simp: same_shape_def shape_def)
  have len: "length (nodes w') = length (nodes w)" using assms(2) by (simp add: same_shape_def)
  have can: "canonical (nodes w') i = canonical (nodes w) i" for i
    using eq(4) by (rule canonical_cong)
  have kid: "kid_of (nodes w') i nm = kid_of (nodes w) i nm" for i nm
    by (simp add: kid_of_def eq)
  have "keys_ok (nodes w') = keys_ok (nodes w)" "kids_ok (nodes w') = kids_ok (nodes w)"
      "parents_ok (nodes w') = parents_ok (nodes w)" "links_ok (nodes w') = links_ok (nodes w)"
    by (simp_all only: tree_defs eq can kid len flip: length_0_conv)
  then show ?thesis using assms(1,3) len by (simp add: tree_ok_def)
qed

lemma tree_ok_upd: "tree_ok w \<Longrightarrow> (\<And>x. shape (f x) = shape x) \<Longrightarrow> tree_ok (upd i f w)"
  by (rule tree_ok_shape [OF _ same_shape_upd]) simp_all

subsection \<open>Updates that change the tree\<close>

lemma tree_ok_empty:
  assumes "tree_ok w" and f: "\<And>x. nd_kids (f x) \<in> {None, Some [], nd_kids x}"
    and "\<And>x. nd_name (f x) = nd_name x \<and> nd_parent (f x) = nd_parent x \<and> nd_hard (f x) = nd_hard x"
  shows "tree_ok (upd n f w)"
proof -
  let ?ns = "nodes (upd n f w)"
  have eq: "nd_name (?ns ! i) = nd_name (nodes w ! i)" "nd_parent (?ns ! i) = nd_parent (nodes w ! i)"
      "nd_hard (?ns ! i) = nd_hard (nodes w ! i)" for i
    using assms(3) by (simp_all add: nth_update_any)
  have len: "length ?ns = length (nodes w)" by simp
  have can: "canonical ?ns i = canonical (nodes w) i" for i using eq(3) by (rule canonical_cong)
  have ks: "nd_kids (?ns ! i) \<in> {None, Some [], nd_kids (nodes w ! i)}" for i
    using f by (simp add: nth_update_any)
  have kid: "kid_of (nodes w) i nm = Some c" if "kid_of ?ns i nm = Some c" for i nm c
    using that ks [of i] unfolding kid_of_def by (elim insertE) (simp_all split: option.splits)
  have "keys_ok ?ns" using assms(1) ks len unfolding tree_ok_def keys_ok_def by (metis distinct.simps(1)
      insert_iff empty_iff list.simps(8) option.distinct(1) option.inject)
  moreover have "kids_ok ?ns"
    using assms(1) kid unfolding tree_ok_def kids_ok_def len eq by blast
  moreover have "parents_ok ?ns = parents_ok (nodes w)" "links_ok ?ns = links_ok (nodes w)"
    by (simp_all only: tree_defs eq can len flip: length_0_conv)
  ultimately show ?thesis using assms(1) by (simp add: tree_ok_def)
qed

lemma tree_ok_link:
  assumes "tree_ok w" and t: "nd_hard (nodes w ! t) = None" "t \<noteq> n" "t < length (nodes w)"
  shows "tree_ok (upd n (\<lambda>x. x\<lparr>nd_hard := Some t\<rparr>) w)"
proof -
  let ?ns = "nodes (upd n (\<lambda>x. x\<lparr>nd_hard := Some t\<rparr>) w)"
  have eq: "nd_name (?ns ! i) = nd_name (nodes w ! i)" "nd_parent (?ns ! i) = nd_parent (nodes w ! i)"
      "nd_kids (?ns ! i) = nd_kids (nodes w ! i)" for i
    by (simp_all add: nth_update_any)
  have len: "length ?ns = length (nodes w)" by simp
  have kid: "kid_of ?ns i nm = kid_of (nodes w) i nm" for i nm unfolding kid_of_def eq ..
  have "keys_ok ?ns = keys_ok (nodes w)" "kids_ok ?ns = kids_ok (nodes w)" "parents_ok ?ns = parents_ok (nodes w)"
    by (simp_all only: tree_defs eq kid len flip: length_0_conv)
  moreover have "links_ok ?ns"
  proof -
    have "canonical ?ns i \<noteq> None" if "i < length (nodes w)" for i
      using tree_canonical [OF assms(1) that] canonical_link [of "nodes w" i _ t n] t by auto
    then show ?thesis using assms(1) t by (auto simp: tree_ok_def links_ok_def nth_update_any)
  qed
  ultimately show ?thesis using assms(1) by (simp add: tree_ok_def)
qed

lemma distinct_keys_update: "distinct (map fst al) \<Longrightarrow> distinct (map fst (AList.update k v al))"
  by (rule distinct_update)

lemma nodes_add_child:
  "nodes (snd (add_child par q base kids w)) = (nodes w @ [new_dir base (Some par)])
     [par := ((nodes w @ [new_dir base (Some par)]) ! par)
        \<lparr>nd_kids := Some (AList.update base (length (nodes w)) kids),
         nd_nlink := nd_nlink ((nodes w @ [new_dir base (Some par)]) ! par) + 1\<rparr>]"
  "by_path (snd (add_child par q base kids w)) = (by_path w)(q \<mapsto> length (nodes w))"
  "wr_out (snd (add_child par q base kids w)) = wr_out w"
  "next_blk (snd (add_child par q base kids w)) = next_blk w"
  "fst (add_child par q base kids w) = length (nodes w)"
  by (simp_all add: add_child_def Let_def)

lemma nth_add_child:
  assumes "par < length (nodes w)"
  shows "nodes (snd (add_child par q base kids w)) ! i
    = (if i = par then (nodes w ! par)\<lparr>nd_kids := Some (AList.update base (length (nodes w)) kids),
                                     nd_nlink := nd_nlink (nodes w ! par) + 1\<rparr>
       else if i = length (nodes w) then new_dir base (Some par)
       else if i < length (nodes w) then nodes w ! i
       else (nodes w @ [new_dir base (Some par)]) ! i)"
  using assms by (simp add: nodes_add_child nth_update_any nth_append)

lemma tree_ok_add_child:
  assumes ok: "tree_ok w" and par: "par < length (nodes w)" and kids: "nd_kids (nodes w ! par) = Some kids"
  shows "tree_ok (snd (add_child par q base kids w))"
proof -
  let ?w = "snd (add_child par q base kids w)" and ?n = "length (nodes w)"
  note nth = nth_add_child [OF par, of q base kids]
  have len: "length (nodes ?w) = Suc ?n" by (simp add: nodes_add_child)
  have hard: "nd_hard (nodes ?w ! i) = nd_hard ((nodes w @ [new_dir base (Some par)]) ! i)" for i
    using par by (simp add: nth nth_append)
  have ain: "aliases_in (nodes w)" using ok by (simp add: tree_ok_def links_ok_def aliases_in_def)
  have can: "canonical (nodes ?w) i \<noteq> None" if "i < Suc ?n" for i
  proof (cases "i = ?n")
    case True
    then have "nd_hard (nodes ?w ! i) = None" by (simp add: hard new_dir_def)
    then show ?thesis by simp
  next
    case False
    with that have "i < ?n" by simp
    then obtain j where "canonical (nodes w) i = Some j" using tree_canonical [OF ok] by blast
    then have "canonical (nodes w @ [new_dir base (Some par)]) i = Some j"
      using ain \<open>i < ?n\<close> by (rule canonical_append)
    then show ?thesis using canonical_cong [of "nodes ?w", OF hard] by simp
  qed
  have kid: "kid_of (nodes ?w) i nm = (if i = par then ((map_of kids)(base \<mapsto> ?n)) nm
      else if i = ?n then None else kid_of (nodes w) i nm)" if "i < Suc ?n" for i nm
    using that par by (auto simp: kid_of_def nth map_of_update new_dir_def)
  have parw: "kid_of (nodes w) par nm = map_of kids nm" for nm by (simp add: kid_of_def kids)
  have "keys_ok (nodes ?w)"
  proof -
    have "distinct (map fst kids)" using ok par kids by (simp add: tree_ok_def keys_ok_def)
    then show ?thesis
      using ok len by (auto simp: tree_ok_def keys_ok_def nth distinct_keys_update new_dir_def less_Suc_eq)
  qed
  moreover have "kids_ok (nodes ?w)"
    unfolding kids_ok_def len
  proof (intro allI impI)
    fix i nm c
    assume i: "i < Suc ?n" and c: "kid_of (nodes ?w) i nm = Some c"
    show "c < Suc ?n \<and> nd_parent (nodes ?w ! c) = Some i \<and> nd_name (nodes ?w ! c) = nm"
    proof (cases "i = par \<and> nm = base")
      case True
      with c kid [OF i] have "c = ?n" by simp
      with True par show ?thesis by (simp add: nth new_dir_def)
    next
      case False
      with c kid [OF i] parw have "kid_of (nodes w) i nm = Some c" and "i < ?n"
        using i par by (auto split: if_splits)
      with ok have "c < ?n \<and> nd_parent (nodes w ! c) = Some i \<and> nd_name (nodes w ! c) = nm"
        by (simp add: tree_ok_def kids_ok_def)
      then show ?thesis by (auto simp: nth)
    qed
  qed
  moreover have "parents_ok (nodes ?w)"
    using ok par len by (auto simp: tree_ok_def parents_ok_def nth new_dir_def less_Suc_eq)
  moreover have "links_ok (nodes ?w)"
    using ok par len can by (auto simp: tree_ok_def links_ok_def nth new_dir_def less_Suc_eq)
  moreover have "\<forall>q' n. by_path ?w q' = Some n \<longrightarrow> n < length (nodes ?w)"
    using ok len by (auto simp: nodes_add_child tree_ok_def less_SucI)
  ultimately show ?thesis by (simp only: tree_ok_def)
qed

subsection \<open>Lookup and entries\<close>

lemma lookup_new:
  assumes "q = path_clean (trim_prefix p ''/'')" and "q \<noteq> ''.''" "q \<noteq> []" and "by_path w q = None"
  shows "lookup p True w = and_then (lookup (path_dir q) True w) (attach q)"
  using assms(2-) unfolding assms(1) by (subst lookup.simps) (simp add: Let_def)

lemma attach_ok:
  assumes "attach q (par0, w1) = Inr (n, w')" and ok: "tree_ok w1" and "par0 < length (nodes w1)"
  shows "tree_ok w' \<and> n < length (nodes w') \<and> length (nodes w1) \<le> length (nodes w')"
proof -
  obtain par kids where par: "canonical (nodes w1) par0 = Some par"
      and kids: "nd_kids (nodes w1 ! par) = Some kids" and r: "add_child par q (path_base q) kids w1 = (n, w')"
    using assms(1) by (auto simp: attach_def split: if_splits option.splits)
  have "par < length (nodes w1)"
    using canonical_less [OF par] assms(2,3) by (auto simp: tree_ok_def links_ok_def aliases_in_def)
  then have "tree_ok (snd (add_child par q (path_base q) kids w1))"
    using kids ok by (intro tree_ok_add_child) auto
  moreover have "n = length (nodes w1)" "length (nodes w') = Suc (length (nodes w1))"
    using r nodes_add_child [of par q "path_base q" kids w1] by simp_all
  ultimately show ?thesis using r by simp
qed

lemma attach_not_Diverges: "tree_ok w1 \<Longrightarrow> par0 < length (nodes w1) \<Longrightarrow> attach q (par0, w1) \<noteq> Inl Diverges"
  using tree_canonical [of w1 par0] by (auto simp: attach_def split: option.splits)

lemma lookup_ok:
  "lookup p create w = Inr (n, w') \<Longrightarrow> tree_ok w
   \<Longrightarrow> tree_ok w' \<and> n < length (nodes w') \<and> length (nodes w) \<le> length (nodes w')"
proof (induction p create w arbitrary: n w' rule: lookup.induct)
  case (1 p create w)
  let ?q = "path_clean (trim_prefix p ''/'')"
  show ?case
  proof (cases "?q = ''.'' \<or> ?q = [] \<or> by_path w ?q \<noteq> None \<or> \<not> create")
    case True
    with 1(2) have "w' = w \<and> (n = 0 \<or> by_path w ?q = Some n)"
      by (subst (asm) lookup.simps) (auto simp: Let_def split: if_splits option.splits)
    then show ?thesis using 1(3) tree_parents by (auto simp: tree_ok_def)
  next
    case False
    then have "and_then (lookup (path_dir ?q) True w) (attach ?q) = Inr (n, w')"
      using 1(2) lookup_new [of ?q p w] by simp
    then obtain par0 w1 where up: "lookup (path_dir ?q) True w = Inr (par0, w1)"
        and at: "attach ?q (par0, w1) = Inr (n, w')"
      by auto
    have "tree_ok w1 \<and> par0 < length (nodes w1) \<and> length (nodes w) \<le> length (nodes w1)"
      using 1(1) [of ?q] False up 1(3) by auto
    then show ?thesis using attach_ok [OF at] by auto
  qed
qed

lemma lookup_no_create: "lookup p False w = Inr (n, w') \<Longrightarrow> w' = w"
  by (subst (asm) lookup.simps) (auto simp: Let_def split: if_splits option.splits)

lemma lookup_not_Diverges: "tree_ok w \<Longrightarrow> lookup p create w \<noteq> Inl Diverges"
proof (induction p create w rule: lookup.induct)
  case (1 p create w)
  let ?q = "path_clean (trim_prefix p ''/'')"
  show ?case
  proof (cases "?q = ''.'' \<or> ?q = [] \<or> by_path w ?q \<noteq> None \<or> \<not> create")
    case True
    then show ?thesis by (subst lookup.simps) (auto simp: Let_def split: option.splits)
  next
    case False
    then have step: "lookup p create w = and_then (lookup (path_dir ?q) True w) (attach ?q)"
      using lookup_new [of ?q p w] by auto
    show ?thesis
    proof (cases "lookup (path_dir ?q) True w")
      case (Inl e)
      then show ?thesis using step 1(1) [of ?q] False 1(2) by auto
    next
      case (Inr r)
      obtain par0 w1 where r: "r = (par0, w1)" by force
      with Inr lookup_ok 1(2) have "tree_ok w1" "par0 < length (nodes w1)" by blast+
      then show ?thesis unfolding step using Inr r attach_not_Diverges by simp
    qed
  qed
qed

text \<open>The entry links a path to the inode it is itself an alias of.\<close>

definition self_link :: "tar_header \<Rightarrow> writer \<Rightarrow> bool" where
  "self_link h w \<longleftrightarrow> hdr_type h = TypeLink \<and>
     (case lookup (hdr_name h) True w of
        Inl _ \<Rightarrow> False
      | Inr (n, w1) \<Rightarrow> (case lookup (hdr_link h) False w1 of
                        Inl _ \<Rightarrow> False
                      | Inr (t, _) \<Rightarrow> canonical (nodes w1) t = Some n))"

lemma pad_to_block_tree: "pad_to_block sz w = Inr w' \<Longrightarrow> nodes w' = nodes w \<and> by_path w' = by_path w"
  by (auto simp: pad_to_block_def Let_def)

lemma stream_data_tree:
  "stream_data n body fails sz w = Inr w' \<Longrightarrow> tree_ok w \<Longrightarrow> tree_ok w'"
proof -
  assume r: "stream_data n body fails sz w = Inr w'" and ok: "tree_ok w"
  have keep: "tree_ok (upd n (\<lambda>x. x\<lparr>nd_size := s, nd_blk := b\<rparr>) w)" for s b
    by (rule tree_ok_upd [OF ok]) (simp add: shape_def)
  show "tree_ok w'"
  proof (cases "sz = 0")
    case True
    then show ?thesis using r keep by (auto simp: stream_data_def)
  next
    case False
    then obtain d where "pad_to_block sz ((upd n (\<lambda>x. x\<lparr>nd_size := int sz, nd_blk := next_blk w\<rparr>) w)\<lparr>wr_out := d\<rparr>) = Inr w'"
      using r by (auto simp: stream_data_def Let_def split: if_splits)
    then show ?thesis
      using pad_to_block_tree tree_ok_shape [OF keep [where s = "int sz" and b = "next_blk w"], of w'] by force
  qed
qed

lemma replace_dir_tree:
  assumes "replace_dir n w = Inr w'" and "tree_ok w"
  shows "tree_ok w' \<and> length (nodes w') = length (nodes w)
    \<and> (\<forall>i. nd_hard (nodes w' ! i) = nd_hard (nodes w ! i)) \<and> by_path w' = by_path w"
proof -
  obtain p where w': "w' = upd n (\<lambda>x. x\<lparr>nd_kids := None, nd_nlink := 1\<rparr>)
      (upd p (\<lambda>x. x\<lparr>nd_nlink := nd_nlink x - 1\<rparr>) w)"
    using assms(1) by (auto simp: replace_dir_def split: option.splits list.splits)
  have "tree_ok (upd p (\<lambda>x. x\<lparr>nd_nlink := nd_nlink x - 1\<rparr>) w)"
    by (rule tree_ok_upd [OF assms(2)]) (simp add: shape_def)
  then have "tree_ok w'" unfolding w' by (rule tree_ok_empty) simp_all
  then show ?thesis by (simp add: w' nth_update_any)
qed

lemma link_entry_tree:
  assumes r: "link_entry n target w = Inr w'" and ok: "tree_ok w"
    and ne: "\<And>t w1. lookup target False w = Inr (t, w1) \<Longrightarrow> canonical (nodes w) t \<noteq> Some n"
  shows "tree_ok w'"
proof -
  obtain t0 t w1 where l: "lookup target False w = Inr (t0, w1)" and t: "canonical (nodes w1) t0 = Some t"
      and w': "w' = upd t (\<lambda>x. x\<lparr>nd_nlink := nd_nlink x + 1\<rparr>) (upd n (\<lambda>x. x\<lparr>nd_hard := Some t\<rparr>) w1)"
    using r by (auto simp: link_entry_def split: sum.splits option.splits)
  have w1: "w1 = w" using lookup_no_create [OF l] .
  have "t0 < length (nodes w)" using lookup_ok [OF l ok] w1 by simp
  then have "t < length (nodes w)" using tree_canonical [OF ok, of t0] t w1 by auto
  moreover have "nd_hard (nodes w ! t) = None" using canonical_Some t w1 by simp
  moreover have "t \<noteq> n" using ne l t w1 by blast
  ultimately have "tree_ok (upd n (\<lambda>x. x\<lparr>nd_hard := Some t\<rparr>) w)" using ok by (intro tree_ok_link)
  then show ?thesis unfolding w' w1 by (rule tree_ok_upd) (simp add: shape_def)
qed

lemma lookup_False:
  "lookup p False w =
     (let q = path_clean (trim_prefix p ''/'')
      in if q = ''.'' \<or> q = [] then Inr (0, w)
         else case by_path w q of Some n \<Rightarrow> Inr (n, w) | None \<Rightarrow> Inl (NotFound q))"
  by (subst lookup.simps) (auto simp: Let_def split: option.splits)

lemma fill_entry_tree:
  assumes r: "fill_entry n h w = Inr w'" and ok: "tree_ok w"
    and ne': "\<And>t w1. hdr_type h = TypeLink \<Longrightarrow> lookup (hdr_link h) False w = Inr (t, w1) \<Longrightarrow> canonical (nodes w) t \<noteq> Some n"
  shows "tree_ok w'"
proof -
  have set: "tree_ok (upd n (set_type m ft) w)" for m ft
    by (rule tree_ok_upd [OF ok]) (simp add: shape_def set_type_def)
  show ?thesis
  proof (cases "hdr_type h")
    case TypeDir
    then have "w' = upd n (\<lambda>x. x\<lparr>nd_mode := or (and (word_of_int (hdr_mode h)) 0xFFF) 0x4000, nd_ftype := ft_dir,
        nd_kids := (case nd_kids x of None \<Rightarrow> Some [] | Some ks \<Rightarrow> Some ks)\<rparr>) w"
      using r by (simp add: fill_entry_def)
    then show ?thesis using ok by (auto intro!: tree_ok_empty split: option.splits)
  next
    case TypeReg
    then show ?thesis using r stream_data_tree set by (auto simp: fill_entry_def)
  next
    case TypeSymlink
    then show ?thesis using r stream_data_tree set by (auto simp: fill_entry_def)
  next
    case TypeLink
    then show ?thesis using r ne' link_entry_tree [of n "hdr_link h" w w'] ok by (simp add: fill_entry_def)
  next
    case TypeChar
    then show ?thesis using r by (auto simp: fill_entry_def shape_def set_type_def intro!: tree_ok_upd [OF ok])
  next
    case TypeBlock
    then show ?thesis using r by (auto simp: fill_entry_def shape_def set_type_def intro!: tree_ok_upd [OF ok])
  next
    case TypeFifo
    then show ?thesis using r set by (auto simp: fill_entry_def)
  next
    case TypeOther
    then show ?thesis using r ok by (simp add: fill_entry_def)
  qed
qed

lemma add_entry_steps:
  assumes "add_entry h w = Inr w'" and "tree_ok w"
  obtains n w1 w3 where "lookup (hdr_name h) True w = Inr (n, w1)" and "tree_ok w3" and "n < length (nodes w1)"
    and "\<forall>i. nd_hard (nodes w3 ! i) = nd_hard (nodes w1 ! i)" and "by_path w3 = by_path w1"
    and "fill_entry n h w3 = Inr w'"
proof -
  obtain n w1 where l: "lookup (hdr_name h) True w = Inr (n, w1)"
    using assms(1) by (auto simp: add_entry_def)
  then have ok1: "tree_ok w1" "n < length (nodes w1)" using lookup_ok assms(2) by blast+
  obtain w2 where r: "(if is_dir (nodes w1 ! n) \<and> hdr_type h \<noteq> TypeDir then replace_dir n w1 else Inr w1) = Inr w2"
      and f: "fill_entry n h (upd n (\<lambda>x. x\<lparr>nd_uid := word_of_int (hdr_uid h), nd_gid := word_of_int (hdr_gid h),
           nd_mtime := hdr_mtime h\<rparr>) w2) = Inr w'"
    using assms(1) l by (auto simp: add_entry_def)
  have w2: "tree_ok w2 \<and> (\<forall>i. nd_hard (nodes w2 ! i) = nd_hard (nodes w1 ! i)) \<and> by_path w2 = by_path w1"
    using r ok1 replace_dir_tree by (auto split: if_splits)
  let ?w3 = "upd n (\<lambda>x. x\<lparr>nd_uid := word_of_int (hdr_uid h), nd_gid := word_of_int (hdr_gid h),
           nd_mtime := hdr_mtime h\<rparr>) w2"
  have "tree_ok ?w3" using w2 by (intro tree_ok_upd) (simp_all add: shape_def)
  moreover have "nd_hard (nodes ?w3 ! i) = nd_hard (nodes w1 ! i)" for i using w2 by (simp add: nth_update_any)
  moreover have "by_path ?w3 = by_path w1" using w2 by simp
  ultimately show thesis using that l ok1 f by blast
qed

definition blank_dev :: dev where
  "blank_dev = \<lparr>dev_data = [], dev_pos = 4096, dev_cap = 100000, dev_seeks = True\<rparr>"

definition tar_entry :: "string \<Rightarrow> tar_type \<Rightarrow> string \<Rightarrow> tar_header" where
  "tar_entry name ty link = \<lparr>hdr_name = name, hdr_type = ty, hdr_uid = 0, hdr_gid = 0, hdr_mtime = 0,
     hdr_mode = 420, hdr_link = link, hdr_major = 0, hdr_minor = 0, hdr_size = 0, hdr_body = [],
     hdr_fails = False\<rparr>"

definition result_of :: "erofs_error + 'a \<Rightarrow> 'a" where
  "result_of r = (case r of Inl _ \<Rightarrow> undefined | Inr x \<Rightarrow> x)"

lemma result_of_Inr: "isl r = False \<Longrightarrow> r = Inr (result_of r)"
  by (cases r) (simp_all add: result_of_def)

lemma new_writer_tree: "tree_ok (new_writer d)"
proof -
  have "canonical [new_dir [] None] 0 = Some 0" by (rule canonical_real) (simp add: new_dir_def)
  then show ?thesis by (auto simp: tree_ok_def tree_defs new_writer_def new_dir_def kid_of_def)
qed

subsection \<open>One entry at the root\<close>

lemma path_a: "path_clean (trim_prefix ''a'' ''/'') = ''a''" "path_dir ''a'' = ''.''"
    "path_clean (trim_prefix ''.'' ''/'') = ''.''" "path_base ''a'' = ''a''"
  by code_simp+

lemma lookup_root: "lookup ''.'' c w = Inr (0, w)"
  by (subst lookup.simps) (simp add: path_a)

definition a_writer :: "dev \<Rightarrow> writer" where
  "a_writer d = snd (add_child 0 ''a'' ''a'' [] (new_writer d))"

lemma a_nodes: "nodes (a_writer d) = [(new_dir [] None)\<lparr>nd_kids := Some [(''a'', 1)], nd_nlink := 3\<rparr>,
    new_dir ''a'' (Some 0)]"
  by (simp add: a_writer_def nodes_add_child new_writer_def) (simp add: new_dir_def)

lemma a_path: "by_path (a_writer d) ''a'' = Some 1" "wr_out (a_writer d) = d" "next_blk (a_writer d) = 1"
  by (simp_all add: a_writer_def nodes_add_child new_writer_def)

lemma lookup_a: "lookup ''a'' True (new_writer d) = Inr (1, a_writer d)"
proof -
  have "canonical (nodes (new_writer d)) 0 = Some 0" by (rule canonical_real) (simp add: new_writer_def new_dir_def)
  then have "attach ''a'' (0, new_writer d) = Inr (add_child 0 ''a'' ''a'' [] (new_writer d))"
    by (simp add: attach_def path_a) (simp add: new_writer_def new_dir_def is_dir_def path_a)
  also have "add_child 0 ''a'' ''a'' [] (new_writer d) = (1, a_writer d)"
    using nodes_add_child(5) [of 0 "''a''" "''a''" "[]" "new_writer d"]
    by (simp add: a_writer_def prod_eq_iff new_writer_def)
  finally show ?thesis
    using lookup_new [of "''a''" "''a''" "new_writer d"] by (simp add: path_a lookup_root new_writer_def)
qed

lemma add_entry_a:
  assumes "hdr_name h = ''a''" and "hdr_type h \<noteq> TypeDir"
  shows "add_entry h (new_writer d) = fill_entry 1 h
    ((a_writer d)\<lparr>nodes := [(new_dir [] None)\<lparr>nd_kids := Some [(''a'', 1)]\<rparr>,
       (new_dir ''a'' (Some 0))\<lparr>nd_kids := None, nd_nlink := 1, nd_uid := word_of_int (hdr_uid h),
          nd_gid := word_of_int (hdr_gid h), nd_mtime := hdr_mtime h\<rparr>]\<rparr>)"
  using assms
proof -
  have dir: "is_dir (nodes (a_writer d) ! 1) \<and> hdr_type h \<noteq> TypeDir"
    using assms(2) by (simp add: a_nodes is_dir_def new_dir_def)
  have "replace_dir 1 (a_writer d) = Inr ((a_writer d)\<lparr>nodes := [(new_dir [] None)\<lparr>nd_kids := Some [(''a'', 1)]\<rparr>,
       (new_dir ''a'' (Some 0))\<lparr>nd_kids := None, nd_nlink := 1\<rparr>]\<rparr>)"
    by (simp add: replace_dir_def a_nodes upd_def) (simp add: new_dir_def a_nodes)
  with dir show ?thesis
    using assms(1) by (simp only: add_entry_def lookup_a and_then.simps prod.case if_True) (simp add: upd_def)
qed

definition fifo_entry :: tar_header where
  "fifo_entry = tar_entry ''a'' TypeFifo []"

definition self_entry :: tar_header where
  "self_entry = tar_entry ''a'' TypeLink ''a''"

lemma fifo_added: "\<exists>w. add_entry fifo_entry (new_writer d) = Inr w"
  by (simp add: add_entry_a fifo_entry_def tar_entry_def fill_entry_def)

lemma self_added:
  "\<exists>w. add_entry self_entry (new_writer d) = Inr w \<and> nodes w = 
     [(new_dir [] None)\<lparr>nd_kids := Some [(''a'', 1)]\<rparr>,
       (new_dir ''a'' (Some 0))\<lparr>nd_kids := None, nd_nlink := 2, nd_hard := Some 1\<rparr>]"
  by (simp add: add_entry_a self_entry_def tar_entry_def fill_entry_def link_entry_def lookup_False path_a a_path)
    (simp add: new_dir_def a_path upd_def Let_def)


lemma self_link_diverges:
  assumes "nodes w = [r, x]" and "nd_kids r = Some [(''a'', 1)]" and "is_dir r" and "nd_hard x = Some 1"
    and "nd_hard r = None"
  shows "and_then (assign_nids w) write_dir_blocks = Inl Diverges"
proof -
  have k: "kids_in_order (nodes w) 0 = []" using assms by (simp add: kids_in_order_def)
  obtain w2 where w2: "assign_nids w = Inr w2" and n2: "nodes w2 = [r\<lparr>nd_nid := 2, nd_ino := ino_seq w + 1\<rparr>, x]"
    using assms by (simp add: assign_nids_def walk_all_def number_node_def Let_def upd_def kids_in_order_def is_dir_def)
  have "canonical (nodes w2) 1 = None" by (rule canonical_self_loop) (use n2 assms in simp)
  then have "dir_entries (nodes w2) 0 = Inl Diverges" using n2 assms by (simp add: dir_entries_def Let_def)
  then have "write_dir_blocks w2 = Inl Diverges"
    using n2 assms by (simp add: write_dir_blocks_def walk_all_def write_one_dir_def is_dir_def)
  with w2 show ?thesis by simp
qed

subsection \<open>Properties\<close>

lemma add_entry_tree:
  assumes "tree_ok w" and "add_entry h w = Inr w'" and "\<not> self_link h w"
  shows "tree_ok w'"
proof -
  obtain n w1 w3 where l: "lookup (hdr_name h) True w = Inr (n, w1)" and ok3: "tree_ok w3"
    and "n < length (nodes w1)" and hard: "\<forall>i. nd_hard (nodes w3 ! i) = nd_hard (nodes w1 ! i)" and bp: "by_path w3 = by_path w1"
    and f: "fill_entry n h w3 = Inr w'"
    using add_entry_steps [OF assms(2,1)] by blast
  have "canonical (nodes w3) t \<noteq> Some n"
    if "hdr_type h = TypeLink" "lookup (hdr_link h) False w3 = Inr (t, w4)" for t w4
  proof -
    have "lookup (hdr_link h) False w1 = Inr (t, w1)"
      using that(2) by (auto simp: lookup_False Let_def bp split: if_splits option.splits)
    then have "canonical (nodes w1) t \<noteq> Some n" using assms(3) that(1) l by (simp add: self_link_def)
    then show ?thesis using canonical_cong [of "nodes w3" "nodes w1"] hard by simp
  qed
  then show ?thesis using fill_entry_tree [OF f ok3] by blast
qed

text \<open>a hardlink of a path to itself makes the conversion of the image loop for ever in
  \<^verbatim>\<open>canonical\<close>, whatever the output file.\<close>

theorem self_link_hangs:
  assumes "dev_seeks d"
  shows "erofs_convert [self_entry] False d = Inl Diverges"
proof -
  let ?d = "d\<lparr>dev_pos := block_size\<rparr>"
  obtain w where w: "add_entry self_entry (new_writer ?d) = Inr w" and n: "nodes w = 
     [(new_dir [] None)\<lparr>nd_kids := Some [(''a'', 1)]\<rparr>,
       (new_dir ''a'' (Some 0))\<lparr>nd_kids := None, nd_nlink := 2, nd_hard := Some 1\<rparr>]"
    using self_added by blast
  have "and_then (assign_nids w) write_dir_blocks = Inl Diverges"
    by (rule self_link_diverges [OF n]) (simp_all add: new_dir_def is_dir_def)
  then have "and_then (assign_nids w) (\<lambda>w2. and_then (write_dir_blocks w2) f) = Inl Diverges" for f :: "writer \<Rightarrow> erofs_error + dev"
    by (simp flip: and_then_assoc)
  then show ?thesis
    using assms w by (simp add: erofs_convert_def dev_seek_def add_entries_def)
qed

lemma self_link_hangs_witness: "erofs_convert [self_entry] False blank_dev = Inl Diverges"
  by (rule self_link_hangs) (simp add: blank_dev_def)

end
