(* ===== verification/Erofs_Walk.thy ===== *)
theory Erofs_Walk imports Erofs_Inv begin

text \<open>
  The breadth-first walk of a well-formed tree and the three passes that use it: every canonical
  inode reachable from the root is visited once, so \<^verbatim>\<open>assignNids\<close> numbers them 2, 4, 6, ... and
  \<^verbatim>\<open>writeInodes\<close> puts each at its number in the inode table.
\<close>

subsection \<open>The order of the walk\<close>

fun bfs :: "nat \<Rightarrow> node list \<Rightarrow> nat list \<Rightarrow> nat list option" where
  "bfs k ns [] = Some []"
| "bfs 0 ns (n # queue) = None"
| "bfs (Suc k) ns (n # queue) = map_option ((#) n) (bfs k ns (queue @ kids_in_order ns n))"

text \<open>What the walk reads of a node.\<close>

definition wshape :: "node \<Rightarrow> byte \<times> (string \<times> nat) list option \<times> nat option" where
  "wshape n = (nd_ftype n, nd_kids n, nd_hard n)"

definition same_walk :: "node list \<Rightarrow> node list \<Rightarrow> bool" where
  "same_walk ns ns' \<longleftrightarrow> length ns' = length ns \<and> (\<forall>i. wshape (ns' ! i) = wshape (ns ! i))"

lemma same_walk_refl [simp]: "same_walk ns ns"
  by (simp add: same_walk_def)

lemma same_walk_trans: "same_walk ns ns' \<Longrightarrow> same_walk ns' ns'' \<Longrightarrow> same_walk ns ns''"
  by (simp add: same_walk_def)

lemma same_walk_upd: "(\<And>x. wshape (f x) = wshape x) \<Longrightarrow> same_walk (nodes w) (nodes (upd i f w))"
  by (simp add: same_walk_def nth_update_any)

lemma kids_in_order_cong: "same_walk ns ns' \<Longrightarrow> kids_in_order ns' = kids_in_order ns"
  by (auto simp: same_walk_def wshape_def kids_in_order_def is_dir_def fun_eq_iff split: option.splits
      intro!: filter_cong)

lemma walk_bfs:
  assumes "bfs k ns q = Some order" and "same_walk ns (nodes (fst s))"
    and "\<And>n s s'. fn n s = Inr s' \<Longrightarrow> same_walk (nodes (fst s)) (nodes (fst s'))"
  shows "walk k fn q s = foldr_err (\<lambda>s n. fn n s) s order"
  using assms(1,2)
proof (induction k ns q arbitrary: s order rule: bfs.induct)
  case (3 k ns n queue)
  then obtain order' where o: "order = n # order'" "bfs k ns (queue @ kids_in_order ns n) = Some order'" by auto
  show ?case
  proof (cases "fn n s")
    case (Inl e)
    then show ?thesis using o by simp
  next
    case (Inr s')
    then have same: "same_walk ns (nodes (fst s'))" using assms(3) 3 same_walk_trans by blast
    then have "kids_in_order (nodes (fst s')) n = kids_in_order ns n" using kids_in_order_cong by metis
    then show ?thesis using Inr o 3(1) [OF o(2) same] by simp
  qed
qed auto

subsection \<open>Every inode once\<close>

lemma kids_in_order_in:
  assumes "tree_ok w" and "n < length (nodes w)" and "c \<in> set (kids_in_order (nodes w) n)"
  shows "c < length (nodes w) \<and> nd_parent (nodes w ! c) = Some n"
proof -
  have "kids_in_order (nodes w) n = []" if "nd_kids (nodes w ! n) = None"
    using that by (simp add: kids_in_order_def)
  then obtain ks where ks: "nd_kids (nodes w ! n) = Some ks" using assms(3) by fastforce
  define cs where "cs = filter (\<lambda>c. nd_hard (nodes w ! c) = None) (map snd (sort_key fst ks))"
  have "kids_in_order (nodes w) n = (if is_dir (nodes w ! n) then cs else [])"
    unfolding kids_in_order_def cs_def by (simp only: ks option.case)
  moreover have "set cs \<subseteq> snd ` set ks" by (auto simp: cs_def)
  ultimately have "set (kids_in_order (nodes w) n) \<subseteq> snd ` set ks" by (cases "is_dir (nodes w ! n)") simp_all
  then have "c \<in> snd ` set ks" using assms(3) by blast
  with ks obtain nm where "nd_kids (nodes w ! n) = Some ks" "(nm, c) \<in> set ks" by force
  moreover from this have "distinct (map fst ks)" using assms(1,2) by (simp add: tree_ok_def keys_ok_def)
  ultimately have "kid_of (nodes w) n nm = Some c" by (simp add: kid_of_def)
  then show ?thesis using assms(1,2) by (simp add: tree_ok_def kids_ok_def)
qed

lemma kids_in_order_distinct:
  assumes "tree_ok w" and "n < length (nodes w)"
  shows "distinct (kids_in_order (nodes w) n)"
proof (cases "nd_kids (nodes w ! n)")
  case None
  then show ?thesis by (simp add: kids_in_order_def)
next
  case (Some ks)
  then have d: "distinct (map fst ks)" using assms by (simp add: tree_ok_def keys_ok_def)
  have name: "nd_name (nodes w ! c) = nm" if "(nm, c) \<in> set ks" for nm c
  proof -
    have "kid_of (nodes w) n nm = Some c" using that d Some by (simp add: kid_of_def)
    then show ?thesis using assms by (simp add: tree_ok_def kids_ok_def)
  qed
  have m: "map fst ks = map (\<lambda>c. nd_name (nodes w ! c)) (map snd ks)"
    unfolding map_map by (rule map_cong [OF refl]) (use name in force)
  then have "distinct (map (\<lambda>c. nd_name (nodes w ! c)) (map snd ks))" using d by (simp only: m)
  then have "distinct (map snd ks)" by (rule distinct_map [THEN iffD1, THEN conjunct1])
  then have "distinct (map snd (sort_key fst ks))"
    by (metis mset_eq_imp_distinct_iff mset_map mset_sort)
  then show ?thesis using Some by (simp add: kids_in_order_def)
qed

lemma bfs_total:
  assumes ok: "tree_ok w"
  shows "distinct (vis @ q) \<Longrightarrow> set (vis @ q) \<subseteq> {..<length (nodes w)} \<Longrightarrow> length (nodes w) \<le> length vis + k
    \<Longrightarrow> \<forall>x \<in> set (vis @ q). x = 0 \<or> (\<exists>p \<in> set vis. nd_parent (nodes w ! x) = Some p)
    \<Longrightarrow> \<forall>x \<in> set vis. set (kids_in_order (nodes w) x) \<subseteq> set (vis @ q) \<Longrightarrow> 0 \<in> set (vis @ q)
    \<Longrightarrow> \<exists>order. bfs k (nodes w) q = Some order \<and> distinct (vis @ order) \<and> set (vis @ order) \<subseteq> {..<length (nodes w)}
      \<and> set q \<subseteq> set order \<and> (\<forall>x \<in> set (vis @ order). set (kids_in_order (nodes w) x) \<subseteq> set (vis @ order))"
proof (induction k "nodes w" q arbitrary: vis rule: bfs.induct)
  case (1 k)
  then show ?case by auto
next
  case (2 n queue)
  have "card (set (vis @ n # queue)) \<le> card {..<length (nodes w)}" by (rule card_mono) (use 2 in auto)
  then show ?case using 2 distinct_card [of "vis @ n # queue"] by simp
next
  case (3 k n queue)
  let ?ks = "kids_in_order (nodes w) n"
  have n: "n < length (nodes w)" using 3 by simp
  have par: "c < length (nodes w) \<and> nd_parent (nodes w ! c) = Some n" if "c \<in> set ?ks" for c
    using kids_in_order_in [OF ok n that] .
  have new: "c \<notin> set (vis @ n # queue)" if "c \<in> set ?ks" for c
  proof
    assume c: "c \<in> set (vis @ n # queue)"
    have "c \<noteq> 0" using par [OF that] ok by (auto simp: tree_ok_def parents_ok_def)
    then obtain p where "p \<in> set vis" "nd_parent (nodes w ! c) = Some p" using bspec [OF 3(5) c] by blast
    then have "n \<in> set vis" using par [OF that] by simp
    then show False using 3(2) by simp
  qed
  have "\<exists>order. bfs k (nodes w) (queue @ ?ks) = Some order \<and> distinct ((vis @ [n]) @ order)
      \<and> set ((vis @ [n]) @ order) \<subseteq> {..<length (nodes w)} \<and> set (queue @ ?ks) \<subseteq> set order
      \<and> (\<forall>x \<in> set ((vis @ [n]) @ order). set (kids_in_order (nodes w) x) \<subseteq> set ((vis @ [n]) @ order))"
  proof (rule 3(1))
    show "distinct ((vis @ [n]) @ queue @ ?ks)"
      using 3(2) new kids_in_order_distinct [OF ok n] by auto
    show "set ((vis @ [n]) @ queue @ ?ks) \<subseteq> {..<length (nodes w)}" using 3(3) par by auto
    show "length (nodes w) \<le> length (vis @ [n]) + k" using 3(4) by simp
    show "\<forall>x \<in> set ((vis @ [n]) @ queue @ ?ks). x = 0 \<or> (\<exists>p \<in> set (vis @ [n]). nd_parent (nodes w ! x) = Some p)"
    proof
      fix x
      assume "x \<in> set ((vis @ [n]) @ queue @ ?ks)"
      then consider "x \<in> set (vis @ n # queue)" | "x \<in> set ?ks" by auto
      then show "x = 0 \<or> (\<exists>p \<in> set (vis @ [n]). nd_parent (nodes w ! x) = Some p)"
      proof cases
        case 1
        then show ?thesis using bspec [OF 3(5) 1] by auto
      next
        case 2
        then show ?thesis using par by simp
      qed
    qed
    show "\<forall>x \<in> set (vis @ [n]). set (kids_in_order (nodes w) x) \<subseteq> set ((vis @ [n]) @ queue @ ?ks)"
      using 3(6) by auto
    show "0 \<in> set ((vis @ [n]) @ queue @ ?ks)" using 3(7) by auto
  qed
  then obtain order where "bfs k (nodes w) (queue @ ?ks) = Some order" "distinct ((vis @ [n]) @ order)"
      "set ((vis @ [n]) @ order) \<subseteq> {..<length (nodes w)}" "set (queue @ ?ks) \<subseteq> set order"
      "\<forall>x \<in> set ((vis @ [n]) @ order). set (kids_in_order (nodes w) x) \<subseteq> set ((vis @ [n]) @ order)"
    by blast
  then show ?case by (intro exI [of _ "n # order"]) auto
qed

text \<open>The walk order of a tree: starts at the root, visits nothing twice, misses no child.\<close>

definition walk_order :: "node list \<Rightarrow> nat list" where
  "walk_order ns = (case bfs (length ns) ns [0] of None \<Rightarrow> [] | Some order \<Rightarrow> order)"

lemma walk_order_ok:
  assumes "tree_ok w"
  shows "bfs (length (nodes w)) (nodes w) [0] = Some (walk_order (nodes w))"
    and "distinct (walk_order (nodes w))"
    and "set (walk_order (nodes w)) \<subseteq> {..<length (nodes w)}"
    and "\<forall>x \<in> set (walk_order (nodes w)). set (kids_in_order (nodes w) x) \<subseteq> set (walk_order (nodes w))"
    and "\<exists>xs. walk_order (nodes w) = 0 # xs"
proof -
  have "0 < length (nodes w)" using tree_parents [OF assms] .
  then obtain order where o: "bfs (length (nodes w)) (nodes w) [0] = Some order" "distinct order"
      "set order \<subseteq> {..<length (nodes w)}" "\<forall>x \<in> set order. set (kids_in_order (nodes w) x) \<subseteq> set order"
    using bfs_total [OF assms, of "[]" "[0]" "length (nodes w)"] by auto
  then have w: "walk_order (nodes w) = order" by (simp add: walk_order_def)
  then show "bfs (length (nodes w)) (nodes w) [0] = Some (walk_order (nodes w))"
    and "distinct (walk_order (nodes w))" and "set (walk_order (nodes w)) \<subseteq> {..<length (nodes w)}"
    and "\<forall>x \<in> set (walk_order (nodes w)). set (kids_in_order (nodes w) x) \<subseteq> set (walk_order (nodes w))"
    using o by simp_all
  obtain k where "length (nodes w) = Suc k" using tree_parents [OF assms] gr0_conv_Suc by auto
  then have "bfs (Suc k) (nodes w) [0] = Some (walk_order (nodes w))" using o(1) w by simp
  then obtain z where "0 # z = walk_order (nodes w)" by auto
  then show "\<exists>xs. walk_order (nodes w) = 0 # xs" by metis
qed

lemma walk_all_order:
  assumes "tree_ok w" and "\<And>n s s'. fn n s = Inr s' \<Longrightarrow> same_walk (nodes (fst s)) (nodes (fst s'))"
  shows "walk_all fn x w = foldr_err (\<lambda>s n. fn n s) (w, x) (walk_order (nodes w))"
  unfolding walk_all_def by (rule walk_bfs [OF walk_order_ok(1) [OF assms(1)]]) (use assms(2) in auto)

subsection \<open>Numbering\<close>

lemma number_node_walk: "number_node n s = Inr s' \<Longrightarrow> same_walk (nodes (fst s)) (nodes (fst s'))"
  by (auto simp: number_node_def Let_def wshape_def same_walk_def nth_update_any split: prod.splits)

text \<open>The state of the numbering after it has visited \<open>k\<close> inodes.\<close>

lemma number_fold:
  assumes "distinct order" and "set order \<subseteq> {..<length (nodes w)}"
  shows "\<exists>w'. foldr_err (\<lambda>s n. number_node n s) (w, nxt) order = Inr (w', nxt + 2 * word_of_nat (length order))
    \<and> length (nodes w') = length (nodes w) \<and> ino_seq w' = ino_seq w + word_of_nat (length order)
    \<and> by_path w' = by_path w \<and> wr_out w' = wr_out w \<and> next_blk w' = next_blk w
    \<and> (\<forall>k < length order. nodes w' ! (order ! k) = (nodes w ! (order ! k))
          \<lparr>nd_ino := ino_seq w + word_of_nat (Suc k), nd_nid := nxt + 2 * word_of_nat k\<rparr>)
    \<and> (\<forall>i. i \<notin> set order \<longrightarrow> nodes w' ! i = nodes w ! i)"
  using assms
proof (induction order arbitrary: w nxt)
  case (Cons n order)
  let ?w1 = "upd n (\<lambda>x. x\<lparr>nd_ino := ino_seq w + 1, nd_nid := nxt\<rparr>) (w\<lparr>ino_seq := ino_seq w + 1\<rparr>)"
  have step: "number_node n (w, nxt) = Inr (?w1, nxt + 2)"
    by (simp add: number_node_def Let_def erofs_consts)
  have "distinct order" "set order \<subseteq> {..<length (nodes ?w1)}" using Cons.prems by auto
  from Cons.IH [OF this, of "nxt + 2"] obtain w' where
      w': "foldr_err (\<lambda>s n. number_node n s) (?w1, nxt + 2) order = Inr (w', nxt + 2 + 2 * word_of_nat (length order))"
        "length (nodes w') = length (nodes w)" "ino_seq w' = ino_seq w + 1 + word_of_nat (length order)"
        "by_path w' = by_path w" "wr_out w' = wr_out w" "next_blk w' = next_blk w"
      and nums: "\<forall>k < length order. nodes w' ! (order ! k) = (nodes ?w1 ! (order ! k))
          \<lparr>nd_ino := ino_seq w + 1 + word_of_nat (Suc k), nd_nid := nxt + 2 + 2 * word_of_nat k\<rparr>"
      and rest: "\<forall>i. i \<notin> set order \<longrightarrow> nodes w' ! i = nodes ?w1 ! i"
    by auto
  have "nodes w' ! ((n # order) ! k) = (nodes w ! ((n # order) ! k))
      \<lparr>nd_ino := ino_seq w + word_of_nat (Suc k), nd_nid := nxt + 2 * word_of_nat k\<rparr>"
    if "k < length (n # order)" for k
  proof (cases k)
    case 0
    with rest Cons.prems show ?thesis by (simp add: nth_update_any)
  next
    case (Suc j)
    then have "order ! j \<noteq> n" using that Cons.prems by auto
    with Suc nums that show ?thesis by (simp add: nth_update_any algebra_simps)
  qed
  moreover have "nodes w' ! i = nodes w ! i" if "i \<notin> set (n # order)" for i
    using that rest by (simp add: nth_update_any)
  ultimately show ?case using step w' by (simp add: algebra_simps)
qed simp

lemma assign_nids_ok:
  assumes "tree_ok w"
  shows "\<exists>w'. assign_nids w = Inr w' \<and> length (nodes w') = length (nodes w)
    \<and> by_path w' = by_path w \<and> wr_out w' = wr_out w \<and> next_blk w' = next_blk w
    \<and> (\<forall>k < length (walk_order (nodes w)). nodes w' ! (walk_order (nodes w) ! k) = (nodes w ! (walk_order (nodes w) ! k))
          \<lparr>nd_ino := ino_seq w + word_of_nat (Suc k), nd_nid := 2 + 2 * word_of_nat k\<rparr>)
    \<and> (\<forall>i. i \<notin> set (walk_order (nodes w)) \<longrightarrow> nodes w' ! i = nodes w ! i)"
proof -
  have "walk_all number_node 2 w = foldr_err (\<lambda>s n. number_node n s) (w, 2) (walk_order (nodes w))"
    by (rule walk_all_order [OF assms number_node_walk])
  then show ?thesis
    using number_fold [OF walk_order_ok(2,3) [OF assms], of 2] by (auto simp: assign_nids_def)
qed

end
