(* ===== verification/Erofs_Table.thy ===== *)
theory Erofs_Table imports Erofs_Walk begin

text \<open>
  The bytes on the device: what a write leaves in place, the block alignment of file data, the
  fields of an inode and of the superblock read back, and the inode table in the order of the
  numbering.
\<close>

subsection \<open>Writes to the device\<close>

lemma length_write_over [simp]: "length (write_over off bs buf) = max (length buf) (off + length bs)"
  by (auto simp: write_over_def put_at_def)

lemma slice_write_over_same: "slice off (length bs) (write_over off bs buf) = bs"
  unfolding write_over_def by (rule slice_put_same) auto

lemma slice_write_over_before:
  "off' + n \<le> off \<Longrightarrow> off' + n \<le> length buf \<Longrightarrow> slice off' n (write_over off bs buf) = slice off' n buf"
  by (simp add: write_over_def slice_put_before slice_append_left)

text \<open>What is below the write position stays.\<close>

definition dev_keeps :: "dev \<Rightarrow> dev \<Rightarrow> bool" where
  "dev_keeps d d' \<longleftrightarrow> dev_cap d' = dev_cap d \<and> dev_pos d \<le> dev_pos d'
     \<and> length (dev_data d) \<le> length (dev_data d')
     \<and> (\<forall>off n. off + n \<le> dev_pos d \<longrightarrow> off + n \<le> length (dev_data d) \<longrightarrow>
          slice off n (dev_data d') = slice off n (dev_data d))"

lemma dev_keeps_refl [simp]: "dev_keeps d d"
  by (simp add: dev_keeps_def)

lemma dev_keeps_trans: "dev_keeps d d' \<Longrightarrow> dev_keeps d' d'' \<Longrightarrow> dev_keeps d d''"
  by (auto simp: dev_keeps_def)

lemma dev_write_ok:
  assumes "dev_write bs d = Inr d'"
  shows "dev_keeps d d'" and "dev_pos d' = dev_pos d + length bs" and "dev_pos d' \<le> dev_cap d'"
    and "slice (dev_pos d) (length bs) (dev_data d') = bs" and "dev_pos d' \<le> length (dev_data d')"
  using assms
  by (auto simp: dev_write_def dev_keeps_def slice_write_over_same slice_write_over_before split: if_splits)

subsection \<open>Block alignment\<close>

definition aligned :: "writer \<Rightarrow> bool" where
  "aligned w \<longleftrightarrow> dev_pos (wr_out w) = block_size * unat (next_blk w) \<and> dev_cap (wr_out w) < block_size * 2 ^ 32"

lemma blocks_of: "(sz + block_size - 1) div block_size * block_size - sz = pad \<Longrightarrow>
    sz + pad = (sz + block_size - 1) div block_size * block_size"
  by (simp add: block_size_def)

lemma pad_to_block_ok:
  assumes "pad_to_block sz w = Inr w'"
    and pos: "dev_pos (wr_out w) = block_size * unat (next_blk w) + sz"
    and cap: "dev_cap (wr_out w) < block_size * 2 ^ 32"
    and le: "sz = 0 \<or> dev_pos (wr_out w) \<le> dev_cap (wr_out w)"
  shows "aligned w'" and "dev_keeps (wr_out w) (wr_out w')" and "nodes w' = nodes w"
proof -
  define blocks where "blocks = (sz + block_size - 1) div block_size"
  define pad where "pad = blocks * block_size - sz"
  have sp: "sz + pad = blocks * block_size"
    unfolding pad_def blocks_def by (rule blocks_of) simp
  have "and_then (if 0 < pad then dev_write (replicate pad 0) (wr_out w) else Inr (wr_out w))
      (\<lambda>d. Inr (w\<lparr>wr_out := d, next_blk := next_blk w + word_of_nat blocks\<rparr>)) = Inr w'"
    using assms(1) unfolding pad_to_block_def Let_def blocks_def [symmetric] pad_def [symmetric] .
  then obtain d where d: "(if 0 < pad then dev_write (replicate pad 0) (wr_out w) else Inr (wr_out w)) = Inr d"
      and w': "w' = w\<lparr>wr_out := d, next_blk := next_blk w + word_of_nat blocks\<rparr>"
    by auto
  have keep: "dev_keeps (wr_out w) d" using d dev_write_ok(1) by (auto split: if_splits)
  have dpos: "dev_pos d = dev_pos (wr_out w) + pad"
    using d dev_write_ok(2) [of "replicate pad 0" "wr_out w" d] by (cases "0 < pad") simp_all
  have dcap: "sz = 0 \<or> dev_pos d \<le> dev_cap (wr_out w)"
  proof (cases "0 < pad")
    case True
    then have "dev_pos d \<le> dev_cap d" using d dev_write_ok(3) by simp
    then show ?thesis using keep by (simp add: dev_keeps_def)
  next
    case False
    then show ?thesis using d le by simp
  qed
  have p: "dev_pos d = block_size * (unat (next_blk w) + blocks)"
    using pos dpos sp by (simp add: algebra_simps)
  have "unat (next_blk w) + blocks < 2 ^ 32"
  proof (cases "sz = 0")
    case True
    then have "blocks = 0" by (simp add: blocks_def block_size_def)
    moreover have "unat (next_blk w) < 2 ^ 32" using unsigned_less [of "next_blk w"] by simp
    ultimately show ?thesis by simp
  next
    case False
    then have "block_size * (unat (next_blk w) + blocks) < block_size * 2 ^ 32" using dcap p cap by linarith
    then show ?thesis by simp
  qed
  then have "unat (next_blk w + word_of_nat blocks) = unat (next_blk w) + blocks"
    by (simp add: unat_word_ariths unat_of_nat)
  then show "aligned w'" using p keep cap w' by (simp add: aligned_def dev_keeps_def)
  show "dev_keeps (wr_out w) (wr_out w')" and "nodes w' = nodes w" using keep w' by simp_all
qed

text \<open>File data lands block-aligned at the block the node records.\<close>

lemma stream_data_ok:
  assumes r: "stream_data n body fails sz w = Inr w'" and al: "aligned w" and n: "n < length (nodes w)"
  shows "aligned w' \<and> dev_keeps (wr_out w) (wr_out w') \<and> nd_size (nodes w' ! n) = int sz
    \<and> (sz \<noteq> 0 \<longrightarrow> length body = sz
         \<and> slice (block_size * unat (nd_blk (nodes w' ! n))) sz (dev_data (wr_out w')) = body)"
proof (cases "sz = 0")
  case True
  then show ?thesis using r al n by (auto simp: stream_data_def aligned_def)
next
  case False
  let ?w1 = "upd n (\<lambda>x. x\<lparr>nd_size := int sz, nd_blk := next_blk w\<rparr>) w"
  obtain d where d: "dev_write body (wr_out w) = Inr d" and len: "length body = sz"
      and p: "pad_to_block sz (?w1\<lparr>wr_out := d\<rparr>) = Inr w'"
    using r False by (auto simp: stream_data_def Let_def split: if_splits)
  note wr = dev_write_ok [OF d]
  have pos: "dev_pos (wr_out w) = block_size * unat (next_blk w)" "dev_cap (wr_out w) < block_size * 2 ^ 32"
    using al by (simp_all add: aligned_def)
  have "aligned w'" "dev_keeps d (wr_out w')" "nodes w' = nodes ?w1"
    using pad_to_block_ok [OF p] wr pos len by (auto simp: dev_keeps_def)
  moreover have "slice (block_size * unat (next_blk w)) sz (dev_data (wr_out w')) = body"
  proof -
    have "dev_pos (wr_out w) + sz \<le> dev_pos d" "dev_pos (wr_out w) + sz \<le> length (dev_data d)"
      using wr len by simp_all
    then have "slice (dev_pos (wr_out w)) sz (dev_data (wr_out w')) = slice (dev_pos (wr_out w)) sz (dev_data d)"
      using \<open>dev_keeps d (wr_out w')\<close> by (simp add: dev_keeps_def)
    then show ?thesis using wr(4) len pos by simp
  qed
  ultimately show ?thesis using wr(1) dev_keeps_trans n len by auto
qed

subsection \<open>Inodes and the superblock read back\<close>

record inode_view =
  iv_format :: nat
  iv_mode :: "16 word"
  iv_size :: "64 word"
  iv_u :: "32 word"
  iv_ino :: "32 word"
  iv_uid :: "32 word"
  iv_gid :: "32 word"
  iv_mtime :: "64 word"
  iv_nlink :: "32 word"

definition decode_inode :: "bytes \<Rightarrow> inode_view" where
  "decode_inode b =
     \<lparr>iv_format = le_val (slice 0 2 b), iv_mode = word_of_nat (le_val (slice 4 2 b)),
      iv_size = word_of_nat (le_val (slice 8 8 b)), iv_u = word_of_nat (le_val (slice 16 4 b)),
      iv_ino = word_of_nat (le_val (slice 20 4 b)), iv_uid = word_of_nat (le_val (slice 24 4 b)),
      iv_gid = word_of_nat (le_val (slice 28 4 b)), iv_mtime = word_of_nat (le_val (slice 32 8 b)),
      iv_nlink = word_of_nat (le_val (slice 44 4 b))\<rparr>"

definition node_view :: "node \<Rightarrow> inode_view" where
  "node_view n =
     \<lparr>iv_format = 1, iv_mode = nd_mode n, iv_size = word_of_int (nd_size n),
      iv_u = (if nd_ftype n \<in> {ft_chardev, ft_blkdev} then nd_rdev n else nd_blk n),
      iv_ino = nd_ino n, iv_uid = nd_uid n, iv_gid = nd_gid n, iv_mtime = word_of_int (nd_mtime n),
      iv_nlink = nd_nlink n\<rparr>"

lemma length_inode_bytes [simp]: "length (inode_bytes n) = inode_size"
  by (simp add: inode_bytes_def Let_def erofs_consts)

lemma decode_inode_bytes: "decode_inode (inode_bytes n) = node_view n"
  by (simp add: decode_inode_def node_view_def inode_bytes_def Let_def erofs_consts slice_simps
      le.dec_enc_small le.word_dec_enc u64_def)

definition super_root :: "bytes \<Rightarrow> nat" where "super_root b = le_val (slice 14 2 b)"
definition super_inos :: "bytes \<Rightarrow> nat" where "super_inos b = le_val (slice 16 8 b)"
definition super_blocks :: "bytes \<Rightarrow> nat" where "super_blocks b = le_val (slice 36 4 b)"
definition super_meta :: "bytes \<Rightarrow> nat" where "super_meta b = le_val (slice 40 4 b)"

lemma length_super_bytes [simp]: "length (super_bytes w meta inos) = 128"
  by (simp add: super_bytes_def Let_def)

lemma super_fields:
  "le_val (slice 0 4 (super_bytes w meta inos)) = erofs_magic"
  "slice 12 1 (super_bytes w meta inos) = [12]"
  "unat (nd_nid (nodes w ! 0)) < 65536 \<Longrightarrow> super_root (super_bytes w meta inos) = unat (nd_nid (nodes w ! 0))"
  "inos < 2 ^ 64 \<Longrightarrow> super_inos (super_bytes w meta inos) = inos"
  "super_blocks (super_bytes w meta inos) = unat (next_blk w)"
  "super_meta (super_bytes w meta inos) = unat meta"
  by (simp_all add: super_bytes_def Let_def slice_simps super_root_def super_inos_def super_blocks_def
      super_meta_def le.dec_enc_small le.dec_enc_word erofs_magic_def)

subsection \<open>The inode table\<close>

text \<open>After the numbering, the inode at place \<open>k\<close> of the walk has number \<open>2 + 2 k\<close>.\<close>

definition numbered :: "writer \<Rightarrow> bool" where
  "numbered w \<longleftrightarrow> (\<forall>k < length (walk_order (nodes w)).
     nd_nid (nodes w ! (walk_order (nodes w) ! k)) = 2 + 2 * word_of_nat k)"

lemma write_inode_walk: "write_inode n s = Inr s' \<Longrightarrow> same_walk (nodes (fst s)) (nodes (fst s'))"
  by (auto simp: write_inode_def split: prod.splits)

lemma write_inode_fold:
  "foldr_err (\<lambda>s n. write_inode n s) (w, inos, written) order = Inr (w', inos', written')
   \<Longrightarrow> nodes w' = nodes w \<and> next_blk w' = next_blk w \<and> by_path w' = by_path w
     \<and> inos' = inos + length order \<and> written' = written + inode_size * length order
     \<and> dev_keeps (wr_out w) (wr_out w')
     \<and> dev_pos (wr_out w') = dev_pos (wr_out w) + inode_size * length order
     \<and> (order \<noteq> [] \<longrightarrow> dev_pos (wr_out w') \<le> dev_cap (wr_out w'))
     \<and> (order \<noteq> [] \<longrightarrow> dev_pos (wr_out w') \<le> length (dev_data (wr_out w')))
     \<and> (\<forall>k < length order. slice (dev_pos (wr_out w) + inode_size * k) inode_size (dev_data (wr_out w'))
           = inode_bytes (nodes w ! (order ! k)))"
proof (induction order arbitrary: w inos written)
  case (Cons n order)
  then obtain d where d: "dev_write (inode_bytes (nodes w ! n)) (wr_out w) = Inr d"
      and rest: "foldr_err (\<lambda>s n. write_inode n s) (w\<lparr>wr_out := d\<rparr>, Suc inos, written + inode_size) order
        = Inr (w', inos', written')"
    by (auto simp: write_inode_def)
  note wr = dev_write_ok [OF d]
  note ih = Cons.IH [OF rest]
  have keep: "dev_keeps (wr_out w) (wr_out w')" using ih wr(1) dev_keeps_trans by auto
  have "slice (dev_pos (wr_out w) + inode_size * k) inode_size (dev_data (wr_out w'))
      = inode_bytes (nodes w ! ((n # order) ! k))" if "k < length (n # order)" for k
  proof (cases k)
    case 0
    have "slice (dev_pos (wr_out w)) inode_size (dev_data (wr_out w')) = slice (dev_pos (wr_out w)) inode_size (dev_data d)"
      using ih wr(2,5) by (auto simp: dev_keeps_def)
    with 0 wr(4) show ?thesis by simp
  next
    case (Suc j)
    then have "slice (dev_pos d + inode_size * j) inode_size (dev_data (wr_out w')) = inode_bytes (nodes w ! (order ! j))"
      using that ih by auto
    then show ?thesis using Suc wr(2) by (simp add: algebra_simps)
  qed
  moreover have "dev_pos (wr_out w') \<le> dev_cap (wr_out w')" "dev_pos (wr_out w') \<le> length (dev_data (wr_out w'))"
    using ih wr(3,5) by (cases "order = []"; auto simp: dev_keeps_def)+
  ultimately show ?case using ih wr(2) keep by (simp add: algebra_simps)
qed simp

lemma word_of_place: "2 + 2 * k < 2 ^ 64 \<Longrightarrow> unat (2 + 2 * word_of_nat k :: 64 word) = 2 + 2 * k"
proof -
  assume b: "2 + 2 * k < 2 ^ 64"
  have "(2 + 2 * word_of_nat k :: 64 word) = word_of_nat (2 + 2 * k)" by simp
  then have "unat (2 + 2 * word_of_nat k :: 64 word) = unat (word_of_nat (2 + 2 * k) :: 64 word)" by (simp only:)
  also have "\<dots> = 2 + 2 * k" using b by (simp only: unat_of_nat) simp
  finally show ?thesis .
qed

subsection \<open>Properties\<close>

text \<open>numbering.  Numbering a well-formed tree succeeds; the root gets inode number 2; two
  different inodes the walk visits never share a number; and with the root the walk visits every
  child that is not an alias of an inode it visits.\<close>

theorem nids_distinct:
  assumes "tree_ok w" and "2 * length (nodes w) + 2 < 2 ^ 64"
  shows "\<exists>w'. assign_nids w = Inr w' \<and> nd_nid (nodes w' ! 0) = 2
    \<and> inj_on (\<lambda>i. nd_nid (nodes w' ! i)) (set (walk_order (nodes w)))
    \<and> 0 \<in> set (walk_order (nodes w))
    \<and> (\<forall>i \<in> set (walk_order (nodes w)). set (kids_in_order (nodes w) i) \<subseteq> set (walk_order (nodes w)))"
proof -
  let ?o = "walk_order (nodes w)"
  obtain w' where w': "assign_nids w = Inr w'" and nums: "\<forall>k < length ?o. nodes w' ! (?o ! k) = (nodes w ! (?o ! k))
      \<lparr>nd_ino := ino_seq w + word_of_nat (Suc k), nd_nid := 2 + 2 * word_of_nat k\<rparr>"
    using assign_nids_ok [OF assms(1)] by blast
  have nid: "nd_nid (nodes w' ! (?o ! k)) = 2 + 2 * word_of_nat k" if "k < length ?o" for k
    using nums that by simp
  have "length ?o \<le> length (nodes w)"
    using walk_order_ok(2,3) [OF assms(1)] distinct_card [of ?o] card_mono [of "{..<length (nodes w)}" "set ?o"] by simp
  then have place: "unat (nd_nid (nodes w' ! (?o ! k))) = 2 + 2 * k" if "k < length ?o" for k
    using nid [OF that] that assms(2) word_of_place [of k] by simp
  have inj: "inj_on (\<lambda>i. nd_nid (nodes w' ! i)) (set ?o)"
  proof (rule inj_onI)
    fix x y
    assume x: "x \<in> set ?o" and y: "y \<in> set ?o" and eq: "nd_nid (nodes w' ! x) = nd_nid (nodes w' ! y)"
    obtain i j where ij: "i < length ?o" "j < length ?o" "x = ?o ! i" "y = ?o ! j"
      using x y by (metis in_set_conv_nth)
    then have "2 + 2 * i = 2 + 2 * j"
      using place [OF ij(1)] place [OF ij(2)] eq by (simp only: ij(3,4))
    then show "x = y" using ij by simp
  qed
  obtain xs where o: "?o = 0 # xs" using walk_order_ok(5) [OF assms(1)] by blast
  then have "nd_nid (nodes w' ! 0) = 2" using nid [of 0] by simp
  moreover have "0 \<in> set ?o" by (simp add: o)
  ultimately show ?thesis using w' inj walk_order_ok(4) [OF assms(1)] by blast
qed

lemma nids_distinct_witness:
  "\<exists>w'. assign_nids (new_writer blank_dev) = Inr w' \<and> nd_nid (nodes w' ! 0) = 2
    \<and> inj_on (\<lambda>i. nd_nid (nodes w' ! i)) (set (walk_order (nodes (new_writer blank_dev))))
    \<and> 0 \<in> set (walk_order (nodes (new_writer blank_dev)))
    \<and> (\<forall>i \<in> set (walk_order (nodes (new_writer blank_dev))).
         set (kids_in_order (nodes (new_writer blank_dev)) i) \<subseteq> set (walk_order (nodes (new_writer blank_dev))))"
  by (rule nids_distinct [OF new_writer_tree]) (simp add: new_writer_def)

lemma nid_of_place:
  assumes "tree_ok w" "numbered w" "2 * length (nodes w) + 2 < 2 ^ 64" "k < length (walk_order (nodes w))"
  shows "unat (nd_nid (nodes w ! (walk_order (nodes w) ! k))) = 2 + 2 * k"
proof -
  let ?o = "walk_order (nodes w)"
  have "length ?o \<le> length (nodes w)"
    using walk_order_ok(2,3) [OF assms(1)] distinct_card [of ?o] card_mono [of "{..<length (nodes w)}" "set ?o"] by simp
  then show ?thesis using assms(2-4) word_of_place [of k] by (simp add: numbered_def)
qed

lemma slice_kept:
  assumes "dev_keeps d d'" "i + k \<le> dev_pos d" "dev_pos d \<le> length (dev_data d)"
  shows "slice i k (dev_data d') = slice i k (dev_data d)"
  using assms unfolding dev_keeps_def by (meson order_trans)


definition numbered_root :: writer where
  "numbered_root = (new_writer blank_dev)\<lparr>nodes := [(new_dir [] None)\<lparr>nd_nid := 2, nd_ino := 1\<rparr>]\<rparr>"

definition root_table :: "writer \<times> 32 word \<times> nat" where
  "root_table = result_of (write_inodes numbered_root)"

lemma kids_of_root: "kids_in_order (nodes numbered_root) 0 = []"
  by (simp add: numbered_root_def kids_in_order_def new_dir_def)

lemma numbered_root_order: "walk_order (nodes numbered_root) = [0]"
proof -
  have "length (nodes numbered_root) = Suc 0" by (simp add: numbered_root_def)
  then show ?thesis by (simp add: walk_order_def kids_of_root)
qed

lemma numbered_root_tree: "tree_ok numbered_root"
proof -
  have "canonical (nodes numbered_root) 0 = Some 0"
    by (rule canonical_real) (simp add: numbered_root_def new_dir_def)
  then show ?thesis
    by (auto simp: tree_ok_def tree_defs numbered_root_def new_writer_def new_dir_def kid_of_def)
qed

lemma numbered_root_table: "write_inodes numbered_root = Inr root_table"
proof -
  have "length (nodes numbered_root) = Suc 0" by (simp add: numbered_root_def)
  then have "\<exists>r. write_inodes numbered_root = Inr r"
    using kids_of_root
    by (simp add: write_inodes_def walk_all_def write_inode_def pad_to_block_def dev_write_def erofs_consts Let_def
        numbered_root_def new_writer_def blank_dev_def)
  then show ?thesis by (auto simp: root_table_def result_of_def)
qed



definition one_file :: writer where
  "one_file = result_of (stream_data 0 [7, 8, 9] False 3 (new_writer blank_dev))"

lemma one_file_written: "stream_data 0 [7, 8, 9] False 3 (new_writer blank_dev) = Inr one_file"
proof -
  have "\<exists>w. stream_data 0 [7, 8, 9] False 3 (new_writer blank_dev) = Inr w"
    by (simp add: stream_data_def pad_to_block_def dev_write_def erofs_consts Let_def new_writer_def blank_dev_def)
  then show ?thesis by (auto simp: one_file_def result_of_def)
qed


text \<open>the superblock of the image names the root inode's number, the number of inodes, the
  blocks used and the first block of the inode table.\<close>

theorem superblock_fields:
  assumes "write_superblock meta inos w = Inr w'" and "inos < 2 ^ 64" and "unat (nd_nid (nodes w ! 0)) < 65536"
  shows "let sb = slice super_offset 128 (dev_data (wr_out w'))
    in le_val (slice 0 4 sb) = erofs_magic \<and> super_root sb = unat (nd_nid (nodes w ! 0)) \<and> super_inos sb = inos
       \<and> super_blocks sb = unat (next_blk w) \<and> super_meta sb = unat meta"
proof -
  obtain d d' where d: "dev_seek super_offset (wr_out w) = Inr d" "dev_write (super_bytes w meta inos) d = Inr d'"
      and w': "w' = w\<lparr>wr_out := d'\<rparr>"
    using assms(1) by (auto simp: write_superblock_def)
  have "dev_pos d = super_offset" using d(1) by (auto simp: dev_seek_def split: if_splits)
  then have "slice super_offset 128 (dev_data (wr_out w')) = super_bytes w meta inos"
    using dev_write_ok(4) [OF d(2)] w' by simp
  then show ?thesis using super_fields assms(2,3) by (simp add: Let_def)
qed

lemma superblock_fields_witness:
  "let sb = slice super_offset 128 (dev_data (wr_out (result_of (write_superblock 2 1 numbered_root))))
    in le_val (slice 0 4 sb) = erofs_magic \<and> super_root sb = unat (nd_nid (nodes numbered_root ! 0)) \<and> super_inos sb = 1
       \<and> super_blocks sb = unat (next_blk numbered_root) \<and> super_meta sb = unat (2 :: 32 word)"
proof (rule superblock_fields)
  have "\<exists>w. write_superblock 2 1 numbered_root = Inr w"
    by (simp add: write_superblock_def dev_seek_def dev_write_def numbered_root_def new_writer_def blank_dev_def erofs_consts)
  then show "write_superblock 2 1 numbered_root = Inr (result_of (write_superblock 2 1 numbered_root))"
    by (auto simp: result_of_def)
qed (simp_all add: numbered_root_def)

end
