(* ===== verification/Erofs_Returns.thy ===== *)
theory Erofs_Returns imports Erofs_Table begin

text \<open>
  Termination of the image writer: on a stream without an entry linked to itself every loop of
  \<^verbatim>\<open>Convert\<close> ends, so it returns, with the image or with an error.
\<close>

subsection \<open>Results of code that returns\<close>

fun diverges :: "erofs_error \<Rightarrow> bool" where
  "diverges Diverges = True"
| "diverges (Entry _ e) = diverges e"
| "diverges (LinkTarget e) = diverges e"
| "diverges _ = False"

text \<open>The code returns, and when it succeeds \<open>P\<close> holds.\<close>

definition returns :: "('a \<Rightarrow> bool) \<Rightarrow> erofs_error + 'a \<Rightarrow> bool" where
  "returns P r = (case r of Inl e \<Rightarrow> \<not> diverges e | Inr x \<Rightarrow> P x)"

lemma returns_simps [simp]: "returns P (Inl e) = (\<not> diverges e)" "returns P (Inr x) = P x"
  by (simp_all add: returns_def)

lemma returns_mono: "returns P r \<Longrightarrow> (\<And>x. r = Inr x \<Longrightarrow> P x \<Longrightarrow> Q x) \<Longrightarrow> returns Q r"
  by (cases r) auto

lemma returns_then:
  assumes "returns P r" and "\<And>x. r = Inr x \<Longrightarrow> P x \<Longrightarrow> returns Q (f x)"
  shows "returns Q (and_then r f)"
  using assms by (cases r) auto

lemma returns_loop:
  assumes "P s" and "\<And>s x. x \<in> set xs \<Longrightarrow> P s \<Longrightarrow> returns P (f s x)"
  shows "returns P (foldr_err f s xs)"
  using assms
proof (induction xs arbitrary: s)
  case (Cons x xs)
  then have "returns P (f s x)" by simp
  then show ?case using Cons by (auto intro!: returns_then)
qed simp

subsection \<open>The device\<close>

lemma dev_write_returns: "returns (\<lambda>_. True) (dev_write bs d)"
  by (simp add: dev_write_def returns_def split: sum.split)

lemma dev_seek_returns: "returns (\<lambda>_. True) (dev_seek p d)"
  by (simp add: dev_seek_def returns_def split: sum.split)

lemma pad_to_block_returns: "returns (\<lambda>w'. nodes w' = nodes w \<and> by_path w' = by_path w) (pad_to_block sz w)"
  by (auto simp: pad_to_block_def Let_def intro!: returns_then [OF dev_write_returns])

lemma write_blocks_returns: "returns (\<lambda>_. True) (write_blocks bs d)"
  by (induction bs d rule: write_blocks.induct) (auto intro!: returns_then [OF dev_write_returns] dev_write_returns)

lemma pack_blocks_returns: "returns (\<lambda>_. True) (pack_blocks es)"
proof (induction es rule: pack_blocks.induct)
  case (1 es)
  then show ?case by (subst pack_blocks.simps) (auto intro!: returns_then [of "\<lambda>_. True"])
qed

subsection \<open>Tar entries\<close>

lemma lookup_plain: "lookup p create w = Inl e \<Longrightarrow> e = Diverges \<or> \<not> diverges e"
proof (induction p create w rule: lookup.induct)
  case (1 p create w)
  let ?q = "path_clean (trim_prefix p ''/'')"
  show ?case
  proof (cases "?q = ''.'' \<or> ?q = [] \<or> by_path w ?q \<noteq> None \<or> \<not> create")
    case True
    then show ?thesis using 1(2) by (subst (asm) lookup.simps) (auto simp: Let_def split: if_splits option.splits)
  next
    case False
    then have "and_then (lookup (path_dir ?q) True w) (attach ?q) = Inl e"
      using 1(2) by (subst (asm) lookup.simps) (auto simp: Let_def split: if_splits option.splits)
    then consider "lookup (path_dir ?q) True w = Inl e" | r where "attach ?q r = Inl e"
      by (cases "lookup (path_dir ?q) True w") auto
    then show ?thesis
    proof cases
      case 1
      then show ?thesis using "1.IH" [OF refl] False by auto
    next
      case (2 r)
      then show ?thesis by (cases r) (auto simp: attach_def split: option.splits if_splits)
    qed
  qed
qed

lemma lookup_returns:
  assumes "tree_ok w"
  shows "returns (\<lambda>(n, w1). tree_ok w1 \<and> n < length (nodes w1)) (lookup p create w)"
proof (cases "lookup p create w")
  case (Inl e)
  then show ?thesis using lookup_plain [OF Inl] lookup_not_Diverges [OF assms, of p create] by auto
next
  case (Inr r)
  then show ?thesis using lookup_ok [of p create w "fst r" "snd r"] assms by (cases r) auto
qed

lemma stream_data_returns: "returns (\<lambda>_. True) (stream_data n body fails sz w)"
  by (auto simp: stream_data_def Let_def intro!: returns_then [OF dev_write_returns] returns_mono [OF pad_to_block_returns])

lemma replace_dir_returns: "returns (\<lambda>_. True) (replace_dir n w)"
  by (simp add: replace_dir_def split: option.split list.split)

lemma link_entry_returns:
  assumes "tree_ok w"
  shows "returns (\<lambda>_. True) (link_entry n target w)"
proof (cases "lookup target False w")
  case (Inl e)
  then show ?thesis using lookup_plain [OF Inl] lookup_not_Diverges [OF assms, of target False] by (auto simp: link_entry_def)
next
  case (Inr r)
  obtain t0 w1 where r: "r = (t0, w1)" by force
  then have "t0 < length (nodes w1)" "tree_ok w1" using lookup_ok Inr assms by blast+
  then obtain t where "canonical (nodes w1) t0 = Some t" using tree_canonical by blast
  then show ?thesis using Inr r by (simp add: link_entry_def)
qed

lemma fill_entry_returns: "tree_ok w \<Longrightarrow> returns (\<lambda>_. True) (fill_entry n h w)"
  by (cases "hdr_type h") (simp_all add: fill_entry_def stream_data_returns link_entry_returns)

lemma add_entry_returns:
  assumes "tree_ok w" and "\<not> self_link h w"
  shows "returns tree_ok (add_entry h w)"
proof -
  have "returns (\<lambda>_. True) (add_entry h w)"
    unfolding add_entry_def
  proof (rule returns_then [OF lookup_returns [OF assms(1)]], clarify)
    fix n w1
    assume n: "lookup (hdr_name h) True w = Inr (n, w1)" "tree_ok w1" "n < length (nodes w1)"
    show "returns (\<lambda>_. True) (and_then (if is_dir (nodes w1 ! n) \<and> hdr_type h \<noteq> TypeDir then replace_dir n w1 else Inr w1)
        (\<lambda>w2. fill_entry n h (upd n (\<lambda>x. x\<lparr>nd_uid := word_of_int (hdr_uid h), nd_gid := word_of_int (hdr_gid h),
           nd_mtime := hdr_mtime h\<rparr>) w2)))"
    proof (rule returns_then [of tree_ok])
      show "returns tree_ok (if is_dir (nodes w1 ! n) \<and> hdr_type h \<noteq> TypeDir then replace_dir n w1 else Inr w1)"
        using n(2) replace_dir_tree by (auto intro: returns_mono [OF replace_dir_returns])
    next
      fix w2
      assume "tree_ok w2"
      then show "returns (\<lambda>_. True) (fill_entry n h (upd n (\<lambda>x. x\<lparr>nd_uid := word_of_int (hdr_uid h),
          nd_gid := word_of_int (hdr_gid h), nd_mtime := hdr_mtime h\<rparr>) w2))"
        by (intro fill_entry_returns tree_ok_upd) (simp_all add: shape_def)
    qed
  qed
  then show ?thesis by (rule returns_mono) (rule add_entry_tree [OF assms(1) _ assms(2)])
qed

text \<open>No entry of the stream links a path to itself, at the state in which it is met.\<close>

fun no_self_links :: "tar_header list \<Rightarrow> writer \<Rightarrow> bool" where
  "no_self_links [] w = True"
| "no_self_links (h # hs) w \<longleftrightarrow> \<not> self_link h w
     \<and> (case add_entry h w of Inl _ \<Rightarrow> True | Inr w' \<Rightarrow> no_self_links hs w')"

lemma add_entries_returns:
  assumes "tree_ok w" and "no_self_links hs w"
  shows "returns tree_ok (add_entries hs broken w)"
proof -
  have "returns tree_ok (foldr_err (\<lambda>w h. case add_entry h w of Inl e \<Rightarrow> Inl (Entry (hdr_name h) e) | Inr w' \<Rightarrow> Inr w') w hs)"
    using assms
  proof (induction hs arbitrary: w)
    case (Cons h hs)
    then have "returns tree_ok (add_entry h w)" by (intro add_entry_returns) auto
    then show ?case using Cons by (cases "add_entry h w") auto
  qed simp
  then show ?thesis unfolding add_entries_def by (rule returns_then) simp
qed

subsection \<open>The passes over the tree\<close>

lemma child_entries_returns:
  assumes "\<forall>(nm, c) \<in> set kids. canonical ns c \<noteq> None"
  shows "returns (\<lambda>_. True) (child_entries ns kids)"
  using assms by (induction kids) (auto intro!: returns_then)

lemma tree_kids_canonical:
  assumes "tree_ok w" and "n < length (nodes w)" and "nd_kids (nodes w ! n) = Some kids" and "(nm, c) \<in> set kids"
  shows "canonical (nodes w) c \<noteq> None"
proof -
  have "distinct (map fst kids)" using assms(1-3) by (simp add: tree_ok_def keys_ok_def)
  then have "kid_of (nodes w) n nm = Some c" using assms(3,4) by (simp add: kid_of_def)
  then have "c < length (nodes w)" using assms(1,2) by (simp add: tree_ok_def kids_ok_def)
  then show ?thesis using tree_canonical [OF assms(1)] by fastforce
qed

lemma dir_entries_returns:
  assumes "tree_ok w" and "n < length (nodes w)"
  shows "returns (\<lambda>_. True) (dir_entries (nodes w) n)"
proof (cases "nd_kids (nodes w ! n)")
  case None
  then show ?thesis by (simp add: dir_entries_def)
next
  case (Some kids)
  then have "returns (\<lambda>_. True) (child_entries (nodes w) kids)"
    using tree_kids_canonical [OF assms] by (intro child_entries_returns) blast
  then show ?thesis using Some by (auto simp: dir_entries_def Let_def intro: returns_then)
qed

lemma write_one_dir_returns:
  assumes "tree_ok w" and "n < length (nodes w)"
  shows "returns (\<lambda>_. True) (write_one_dir n w)"
  unfolding write_one_dir_def Let_def
  by (intro returns_then [OF dir_entries_returns [OF assms]] returns_then [OF pack_blocks_returns]
      returns_then [OF write_blocks_returns] returns_mono [OF pad_to_block_returns]) simp

lemma write_one_dir_shape:
  assumes "write_one_dir n w = Inr w'"
  shows "same_shape (nodes w) (nodes w') \<and> same_walk (nodes w) (nodes w') \<and> by_path w' = by_path w"
proof -
  obtain d total blk where "pad_to_block total (upd n (\<lambda>x. x\<lparr>nd_size := int total\<rparr>)
      (upd n (\<lambda>x. x\<lparr>nd_blk := blk\<rparr>) w\<lparr>wr_out := d\<rparr>)) = Inr w'"
    using assms by (auto simp: write_one_dir_def Let_def)
  then show ?thesis
    by (auto dest!: pad_to_block_tree simp: same_shape_def shape_def same_walk_def wshape_def nth_update_any)
qed

text \<open>A pass that keeps what the walk reads ends, and with it an invariant of the tree.\<close>

lemma walk_all_returns:
  assumes ok: "tree_ok w" and "P (w, x)"
    and walk: "\<And>n s s'. fn n s = Inr s' \<Longrightarrow> same_walk (nodes (fst s)) (nodes (fst s'))"
    and step: "\<And>n s. n < length (nodes w) \<Longrightarrow> P s \<Longrightarrow> returns P (fn n s)"
  shows "returns P (walk_all fn x w)"
proof -
  have "walk_all fn x w = foldr_err (\<lambda>s n. fn n s) (w, x) (walk_order (nodes w))"
    by (rule walk_all_order [OF ok]) (rule walk)
  moreover have "returns P (foldr_err (\<lambda>s n. fn n s) (w, x) (walk_order (nodes w)))"
    by (rule returns_loop [where P = P]) (use assms(2) step walk_order_ok(3) [OF ok] in auto)
  ultimately show ?thesis by simp
qed

lemma assign_nids_returns:
  assumes "tree_ok w"
  shows "returns tree_ok (assign_nids w)"
proof -
  have "returns (\<lambda>s. tree_ok (fst s)) (walk_all number_node 2 w)"
  proof (rule walk_all_returns [OF assms])
    show "\<And>n s s'. number_node n s = Inr s' \<Longrightarrow> same_walk (nodes (fst s)) (nodes (fst s'))"
      by (rule number_node_walk)
    show "returns (\<lambda>s. tree_ok (fst s)) (number_node n s)" if "tree_ok (fst s)" for n and s :: "writer \<times> 64 word"
      using that by (auto simp: number_node_def Let_def shape_def same_shape_def nth_update_any
          intro: tree_ok_shape split: prod.split)
  qed (use assms in simp)
  then show ?thesis unfolding assign_nids_def by (rule returns_then) auto
qed

lemma write_dir_blocks_returns:
  assumes "tree_ok w"
  shows "returns tree_ok (write_dir_blocks w)"
proof -
  let ?fn = "\<lambda>n (w, u). if is_dir (nodes w ! n) then and_then (write_one_dir n w) (\<lambda>w'. Inr (w', u)) else Inr (w, u)"
  let ?P = "\<lambda>s :: writer \<times> unit. tree_ok (fst s) \<and> length (nodes (fst s)) = length (nodes w)"
  have "returns ?P (walk_all ?fn () w)"
  proof (rule walk_all_returns [OF assms])
    show "same_walk (nodes (fst s)) (nodes (fst s'))" if "?fn n s = Inr s'" for n and s s' :: "writer \<times> unit"
      using that write_one_dir_shape by (cases s) (auto split: if_splits)
    show "returns ?P (?fn n s)" if "n < length (nodes w)" "?P s" for n s
    proof (cases s)
      case (Pair v u)
      then have v: "tree_ok v" "n < length (nodes v)" "length (nodes v) = length (nodes w)" using that by auto
      have "returns (\<lambda>v'. ?P (v', u)) (write_one_dir n v)"
        by (rule returns_mono [OF write_one_dir_returns [OF v(1,2)]])
           (use write_one_dir_shape tree_ok_shape [OF v(1)] v(3) in \<open>force simp: same_shape_def\<close>)
      then have "returns ?P (and_then (write_one_dir n v) (\<lambda>v'. Inr (v', u)))" by (rule returns_then) simp
      then show ?thesis using Pair that by simp
    qed
  qed (use assms in simp)
  then show ?thesis unfolding write_dir_blocks_def by (rule returns_then) auto
qed

lemma write_inodes_returns:
  assumes "tree_ok w"
  shows "returns (\<lambda>_. True) (write_inodes w)"
  unfolding write_inodes_def
proof (rule returns_then [OF dev_write_returns])
  fix d
  have "tree_ok (w\<lparr>wr_out := d\<rparr>)" by (rule tree_ok_shape [OF assms]) simp_all
  then have "returns (\<lambda>_. True) (walk_all write_inode (0, 2 * slot_size) (w\<lparr>wr_out := d\<rparr>))"
    by (rule walk_all_returns)
       (auto intro: write_inode_walk intro!: returns_then [OF dev_write_returns] simp: write_inode_def split: prod.split)
  then show "returns (\<lambda>_. True) (and_then (walk_all write_inode (0, 2 * slot_size) (w\<lparr>wr_out := d\<rparr>))
      (\<lambda>(w1, inos, written). and_then (pad_to_block written w1) (\<lambda>w2. Inr (w2, next_blk w, inos))))"
    by (rule returns_then) (auto intro!: returns_then [OF pad_to_block_returns])
qed

lemma write_superblock_returns: "returns (\<lambda>_. True) (write_superblock meta inos w)"
  by (auto simp: write_superblock_def intro!: returns_then [OF dev_seek_returns] returns_then [OF dev_write_returns])

subsection \<open>Properties\<close>

text \<open>C36: After any stream without such an entry the tree is well-formed: directory keys are distinct, every
  child's parent and name match its place, parents precede their children, chains of hard links end, and the path
  index names existing nodes.\<close>

theorem stream_tree_well_formed:
  assumes "no_self_links hs (new_writer d)" and "add_entries hs broken (new_writer d) = Inr w"
  shows "tree_ok w"
  using add_entries_returns [OF new_writer_tree assms(1), of broken] assms(2) by simp


lemma demo_stream: "no_self_links [fifo_entry] (new_writer d)"
  by (simp add: self_link_def fifo_entry_def tar_entry_def split: sum.split)

lemma stream_tree_well_formed_witness:
  "\<exists>w. add_entries [fifo_entry] False (new_writer blank_dev) = Inr w \<and> tree_ok w"
proof -
  obtain w where "add_entry fifo_entry (new_writer blank_dev) = Inr w" using fifo_added by blast
  then have "add_entries [fifo_entry] False (new_writer blank_dev) = Inr w" by (simp add: add_entries_def)
  then show ?thesis using stream_tree_well_formed [OF demo_stream] by blast
qed


end
