(* ===== verification/Go_Net.thy ===== *)
theory Go_Net imports Go_Bytes Go_Strings begin

text \<open>
  IP addresses as the program uses them: \<^verbatim>\<open>net.ParseIP\<close>, \<^verbatim>\<open>IP.To4\<close>, \<^verbatim>\<open>IP.To16\<close>, \<^verbatim>\<open>IP.String\<close> of
  package \<^verbatim>\<open>net\<close>, and \<^verbatim>\<open>ParseAddr\<close>, \<^verbatim>\<open>ParsePrefix\<close>, \<^verbatim>\<open>Prefix.Contains\<close> of \<^verbatim>\<open>net/netip\<close>.  An address is its
  four or sixteen bytes.  All functions compute, so the witnesses evaluate real addresses.
\<close>

subsection \<open>Hexadecimal\<close>

definition is_hex :: "char \<Rightarrow> bool" where
  "is_hex c = (is_digit c \<or> (CHR ''a'' \<le> c \<and> c \<le> CHR ''f'') \<or> (CHR ''A'' \<le> c \<and> c \<le> CHR ''F''))"

definition hex_digit_val :: "char \<Rightarrow> nat" where
  "hex_digit_val c =
     (if is_digit c then digit_val c
      else if CHR ''a'' \<le> c then of_char c - 87 else of_char c - 55)"

definition hex_val :: "string \<Rightarrow> nat" where
  "hex_val s = foldl (\<lambda>a c. 16 * a + hex_digit_val c) 0 s"

definition hex_char :: "nat \<Rightarrow> char" where
  "hex_char d = (if d < 10 then char_of (48 + d) else char_of (87 + d))"

fun hex_digits :: "nat \<Rightarrow> string" where
  "hex_digits n = (if n < 16 then [hex_char n] else hex_digits (n div 16) @ [hex_char (n mod 16)])"

declare hex_digits.simps [simp del]

text \<open>\<^verbatim>\<open>hex.EncodeToString\<close>: two digits per byte.\<close>

definition hex_byte :: "byte \<Rightarrow> string" where
  "hex_byte b = [hex_char (unat b div 16), hex_char (unat b mod 16)]"

definition hex_encode :: "bytes \<Rightarrow> string" where
  "hex_encode bs = concat (map hex_byte bs)"

lemma length_hex_encode [simp]: "length (hex_encode bs) = 2 * length bs"
  by (induction bs) (simp_all add: hex_encode_def hex_byte_def)

subsection \<open>IPv4\<close>

definition parse_octet :: "string \<Rightarrow> byte option" where
  "parse_octet w =
     (if w \<noteq> [] \<and> list_all is_digit w \<and> (length w = 1 \<or> hd w \<noteq> CHR ''0'') \<and> digits_val w \<le> 255
      then Some (word_of_nat (digits_val w)) else None)"

definition parse_ipv4 :: "string \<Rightarrow> bytes option" where
  "parse_ipv4 s =
     (case map parse_octet (split_on (CHR ''.'') s) of
        [Some a, Some b, Some c, Some d] \<Rightarrow> Some [a, b, c, d]
      | _ \<Rightarrow> None)"

definition show_ipv4 :: "bytes \<Rightarrow> string" where
  "show_ipv4 bs = join_with ''.'' (map (\<lambda>b. nat_digits (unat b)) bs)"

subsection \<open>IPv6\<close>

text \<open>
  The loop of \<^verbatim>\<open>netip.parseIPv6\<close>: at most eight groups of hex digits, one ellipsis, and a
  trailing dotted IPv4.  \<open>ell\<close> is the offset of the ellipsis, \<open>out\<close> the bytes so far.
\<close>

fun v6_groups :: "nat \<Rightarrow> nat option \<Rightarrow> bytes \<Rightarrow> string \<Rightarrow> (nat option \<times> bytes \<times> string) option" where
  "v6_groups 0 ell out s = Some (ell, out, s)"
| "v6_groups (Suc k) ell out s =
     (let h = takeWhile is_hex s; rest = drop (length h) s; out' = out @ be_bytes 2 (hex_val h)
      in if length h > 4 \<or> h = [] then None
         else if rest \<noteq> [] \<and> hd rest = CHR ''.'' then
           (if ell = None \<and> length out \<noteq> 12 then None
            else if length out + 4 > 16 then None
            else case parse_ipv4 s of None \<Rightarrow> None | Some b \<Rightarrow> Some (ell, out @ b, []))
         else if rest = [] then Some (ell, out', [])
         else if hd rest \<noteq> CHR '':'' then None
         else if tl rest = [] then None
         else if hd (tl rest) = CHR '':'' then
           (if ell \<noteq> None then None
            else if tl (tl rest) = [] then Some (Some (length out'), out', [])
            else v6_groups k (Some (length out')) out' (tl (tl rest)))
         else v6_groups k ell out' (tl rest))"

definition v6_finish :: "nat option \<times> bytes \<times> string \<Rightarrow> bytes option" where
  "v6_finish r =
     (case r of (ell, out, s) \<Rightarrow>
        if s \<noteq> [] then None
        else if length out < 16 then
          (case ell of None \<Rightarrow> None
           | Some e \<Rightarrow> Some (take e out @ replicate (16 - length out) 0 @ drop e out))
        else if ell \<noteq> None then None else Some out)"

definition parse_ipv6 :: "string \<Rightarrow> bytes option" where
  "parse_ipv6 s =
     (if has_prefix s ''::'' then
        (if drop 2 s = [] then Some (replicate 16 0)
         else Option.bind (v6_groups 8 (Some 0) [] (drop 2 s)) v6_finish)
      else Option.bind (v6_groups 8 None [] s) v6_finish)"

definition v6_fields :: "bytes \<Rightarrow> nat list" where
  "v6_fields bs = map (\<lambda>i. be_val (slice (2 * i) 2 bs)) [0..<8]"

text \<open>The longest run of at least two zero groups, the first one of that length.\<close>

definition zero_run :: "nat list \<Rightarrow> nat \<Rightarrow> nat" where
  "zero_run gs i = length (takeWhile (\<lambda>g. g = 0) (drop i gs))"

definition best_run :: "nat list \<Rightarrow> (nat \<times> nat) option" where
  "best_run gs =
     foldl (\<lambda>best i. let l = zero_run gs i
              in if l \<ge> 2 \<and> (case best of None \<Rightarrow> True | Some (a, b) \<Rightarrow> l > b - a)
                 then Some (i, i + l) else best) None [0..<length gs]"

definition show_groups :: "nat list \<Rightarrow> string" where
  "show_groups gs = join_with '':'' (map hex_digits gs)"

definition show_ipv6 :: "bytes \<Rightarrow> string" where
  "show_ipv6 bs =
     (let gs = v6_fields bs
      in case best_run gs of
           None \<Rightarrow> show_groups gs
         | Some (a, b) \<Rightarrow> show_groups (take a gs) @ ''::'' @ show_groups (drop b gs))"

subsection \<open>Addresses of package net\<close>

definition v4_mapped :: "bytes \<Rightarrow> bytes" where
  "v4_mapped b = replicate 10 0 @ [255, 255] @ b"

text \<open>A parsed \<^verbatim>\<open>netip.Addr\<close>: IPv4, or IPv6 with its zone.\<close>

datatype addr = Addr4 bytes | Addr6 bytes string

fun parse_addr_from :: "string \<Rightarrow> string \<Rightarrow> addr option" where
  "parse_addr_from s [] = None"
| "parse_addr_from s (c # cs) =
     (if c = CHR ''.'' then map_option Addr4 (parse_ipv4 s)
      else if c = CHR '':'' then
        (let v = takeWhile (\<lambda>x. x \<noteq> CHR ''%'') s; zone = drop (length v) s
         in if zone \<noteq> [] \<and> tl zone = [] then None
            else map_option (\<lambda>b. Addr6 b (drop 1 zone)) (parse_ipv6 v))
      else if c = CHR ''%'' then None
      else parse_addr_from s cs)"

definition parse_addr :: "string \<Rightarrow> addr option" where
  "parse_addr s = parse_addr_from s s"

text \<open>\<^verbatim>\<open>net.ParseIP\<close>: sixteen bytes, IPv4 mapped, zones refused; \<^verbatim>\<open>nil\<close> is \<open>None\<close>.\<close>

definition parse_ip :: "string \<Rightarrow> bytes option" where
  "parse_ip s =
     (case parse_addr s of
        Some (Addr4 b) \<Rightarrow> Some (v4_mapped b)
      | Some (Addr6 b zone) \<Rightarrow> (if zone = [] then Some b else None)
      | None \<Rightarrow> None)"

definition to4 :: "bytes \<Rightarrow> bytes option" where
  "to4 ip =
     (if length ip = 4 then Some ip
      else if length ip = 16 \<and> take 12 ip = replicate 10 0 @ [255, 255] then Some (drop 12 ip)
      else None)"

definition show_ip :: "bytes \<Rightarrow> string" where
  "show_ip ip = (case to4 ip of Some b \<Rightarrow> show_ipv4 b | None \<Rightarrow> show_ipv6 ip)"

subsection \<open>Prefixes of package netip\<close>

type_synonym prefix6 = "addr \<times> nat"

definition addr_bits :: "addr \<Rightarrow> nat" where
  "addr_bits a = (case a of Addr4 _ \<Rightarrow> 32 | Addr6 _ _ \<Rightarrow> 128)"

definition addr_zone :: "addr \<Rightarrow> string" where
  "addr_zone a = (case a of Addr4 _ \<Rightarrow> [] | Addr6 _ z \<Rightarrow> z)"

definition addr_bytes :: "addr \<Rightarrow> bytes" where
  "addr_bytes a = (case a of Addr4 b \<Rightarrow> b | Addr6 b _ \<Rightarrow> b)"

definition addr_is6 :: "addr \<Rightarrow> bool" where
  "addr_is6 a = (case a of Addr4 _ \<Rightarrow> False | Addr6 _ _ \<Rightarrow> True)"

definition parse_prefix :: "string \<Rightarrow> prefix6 option" where
  "parse_prefix s =
     (let parts = split_on (CHR ''/'') s
      in if length parts < 2 then None
         else let bits = last parts; ip = join_with ''/'' (butlast parts)
         in case parse_addr ip of
              None \<Rightarrow> None
            | Some a \<Rightarrow>
                if addr_zone a \<noteq> [] then None
                else if bits = [] \<or> \<not> list_all is_digit bits \<or> (length bits > 1 \<and> hd bits = CHR ''0'') then None
                else if digits_val bits > addr_bits a then None
                else Some (a, digits_val bits))"

definition prefix_contains :: "prefix6 \<Rightarrow> addr \<Rightarrow> bool" where
  "prefix_contains p a =
     (case p of (base, bits) \<Rightarrow>
        addr_zone a = [] \<and> addr_bits base = addr_bits a
        \<and> be_val (addr_bytes base) div 2 ^ (addr_bits a - bits)
            = be_val (addr_bytes a) div 2 ^ (addr_bits a - bits))"

subsection \<open>Lengths\<close>

lemma parse_ipv4_length: "parse_ipv4 s = Some b \<Longrightarrow> length b = 4"
  by (auto simp: parse_ipv4_def split: list.splits option.splits)

lemma v6_groups_ell:
  "v6_groups k ell out s = Some (ell', out', s') \<Longrightarrow> (\<forall>e. ell = Some e \<longrightarrow> e \<le> length out)
   \<Longrightarrow> length out + 2 * k = 16 \<Longrightarrow> length out' \<le> 16 \<and> (\<forall>e. ell' = Some e \<longrightarrow> e \<le> length out')"
proof (induction k arbitrary: ell out s)
  case (Suc k)
  define v where "v = be_bytes 2 (hex_val (takeWhile is_hex s))"
  have v: "length v = 2" by (simp add: v_def)
  from Suc.prems(1) consider
      b where "parse_ipv4 s = Some b" "out' = out @ b" "length out + 4 \<le> 16" "ell' = ell"
    | "out' = out @ v" "ell' = ell \<or> ell' = Some (length (out @ v))"
    | e t where "v6_groups k e (out @ v) t = Some (ell', out', s')" "e = ell \<or> e = Some (length (out @ v))"
    unfolding v6_groups.simps Let_def v_def by (auto split: if_splits option.splits)
  then show ?case
  proof cases
    case (1 b)
    then show ?thesis using Suc.prems(2) parse_ipv4_length [of s b] by auto
  next
    case 2
    then show ?thesis using Suc.prems(2,3) v by auto
  next
    case (3 e t)
    then show ?thesis using Suc.prems(2,3) v by (intro Suc.IH [OF 3(1)]) auto
  qed
qed simp

lemma v6_finish_length:
  "v6_finish (ell, out, s) = Some b \<Longrightarrow> length out \<le> 16 \<Longrightarrow> \<forall>e. ell = Some e \<longrightarrow> e \<le> length out
   \<Longrightarrow> length b = 16"
  by (auto simp: v6_finish_def split: if_splits option.splits)

lemma parse_ipv6_length: "parse_ipv6 s = Some b \<Longrightarrow> length b = 16"
  unfolding parse_ipv6_def
  by (auto split: if_splits simp: bind_eq_Some_conv dest!: v6_groups_ell dest: v6_finish_length)

lemma parse_addr_from_length:
  "parse_addr_from s cs = Some a \<Longrightarrow> length (addr_bytes a) = (if addr_is6 a then 16 else 4)"
  by (induction s cs rule: parse_addr_from.induct)
    (auto simp: Let_def addr_bytes_def addr_is6_def split: if_splits
      dest: parse_ipv4_length parse_ipv6_length)

lemma parse_ip_length: "parse_ip s = Some b \<Longrightarrow> length b = 16"
  using parse_addr_from_length [of s s]
  by (fastforce simp: parse_ip_def parse_addr_def v4_mapped_def addr_bytes_def addr_is6_def
      split: option.splits addr.splits if_splits)

lemma join_two: "join_with sep (x # y # zs) = [] \<Longrightarrow> sep = []"
  by simp

lemma two_of: "2 \<le> length xs \<Longrightarrow> \<exists>x y zs. xs = x # y # zs"
  by (cases xs; cases "tl xs") auto

lemma show_ip_nonempty: "length ip = 16 \<Longrightarrow> show_ip ip \<noteq> []"
proof -
  assume len: "length ip = 16"
  have v6: "show_ipv6 ip \<noteq> []"
  proof (cases "best_run (v6_fields ip)")
    case None
    have "length (v6_fields ip) = 8" by (simp add: v6_fields_def)
    then obtain x y zs where "v6_fields ip = x # y # zs" using two_of [of "v6_fields ip"] by auto
    with None show ?thesis by (auto simp: show_ipv6_def show_groups_def dest: join_two)
  next
    case (Some r)
    then show ?thesis by (cases r) (simp add: show_ipv6_def Let_def)
  qed
  show "show_ip ip \<noteq> []"
  proof (cases "to4 ip")
    case None
    with v6 show ?thesis by (simp add: show_ip_def)
  next
    case (Some b)
    then have "length b = 4" using len by (auto simp: to4_def split: if_splits)
    then obtain x y zs where "b = x # y # zs" using two_of [of b] by auto
    with Some show ?thesis by (auto simp: show_ip_def show_ipv4_def dest: join_two)
  qed
qed

end
