(* ===== verification/Service_LB.thy ===== *)
theory Service_LB imports Go_Net begin

text \<open>
  The guest's lazy ClusterIP load balancer (\<^verbatim>\<open>poc/execd/services.go\<close>): the endpoint cache with
  its round-robin cursor, the mark ids and the nftables map they index, the handler of a queued
  packet, and the static rules.  The state \<open>svc_lb\<close> is \<^verbatim>\<open>svcLB\<close> plus the kernel's \<^verbatim>\<open>eps\<close> map;
  the wall clock, the answer of a query and the outcome of an nftables transaction are
  arguments.  Conntrack flushes are returned as the list of addresses.
\<close>

subsection \<open>Queries and answers\<close>

record svc_query =
  q_vip :: string
  q_port :: int
  q_proto :: string
  q_name :: string
  q_ns :: string

record svc_answer =
  a_endpoints :: "string list"
  a_target :: int
  a_ips :: "string list"
  a_ttl :: int
  a_error :: string

record endpoint =
  ep_addr :: string
  ep_port :: int

record svc_cache_entry =
  ent_eps :: "endpoint list"
  ent_expiry :: int
  ent_rr :: nat

text \<open>The CIDR as sixteen address bytes and sixteen mask bytes.\<close>

record svc_lb =
  lb_cidr :: bytes
  lb_mask :: bytes
  eps_map :: "bytes \<rightharpoonup> bytes"
  ep_id :: "endpoint \<rightharpoonup> 32 word"
  next_id :: "32 word"
  lb_cache :: "string \<rightharpoonup> svc_cache_entry"

definition cache_ttl :: int where
  "cache_ttl = 10 * 1000000000"

definition new_lb :: "bytes \<Rightarrow> bytes \<Rightarrow> svc_lb" where
  "new_lb cidr msk = \<lparr>lb_cidr = cidr, lb_mask = msk, eps_map = Map.empty, ep_id = Map.empty,
     next_id = 1, lb_cache = Map.empty\<rparr>"

subsection \<open>Mark ids\<close>

datatype nft_result = NftOk | NftAddFails string | NftFlushFails string

definition mark_key :: "32 word \<Rightarrow> bytes" where
  "mark_key i = le_bytes 4 (unat i)"

text \<open>The value of a map element; \<^verbatim>\<open>net.ParseIP\<close> of a bad address is nil, and so is its \<^verbatim>\<open>To16\<close>.\<close>

definition eps_value :: "endpoint \<Rightarrow> bytes" where
  "eps_value ep =
     (case parse_ip (ep_addr ep) of None \<Rightarrow> [] | Some b \<Rightarrow> b)
     @ [word_of_int (ep_port ep div 256), word_of_int (ep_port ep), 0, 0]"

definition id_for :: "nft_result \<Rightarrow> endpoint \<Rightarrow> svc_lb \<Rightarrow> (string + 32 word) \<times> svc_lb" where
  "id_for nft ep lb =
     (case ep_id lb ep of
        Some i \<Rightarrow> (Inr i, lb)
      | None \<Rightarrow>
          let i = next_id lb; lb1 = lb\<lparr>next_id := i + 1\<rparr>
          in case nft of
               NftAddFails e \<Rightarrow> (Inl e, lb1)
             | NftFlushFails e \<Rightarrow> (Inl e, lb1)
             | NftOk \<Rightarrow> (Inr i, lb1\<lparr>eps_map := (eps_map lb1)(mark_key i \<mapsto> eps_value ep),
                                  ep_id := (ep_id lb1)(ep \<mapsto> i)\<rparr>))"

subsection \<open>Picking a backend\<close>

definition cache_key :: "string \<Rightarrow> int \<Rightarrow> string \<Rightarrow> string" where
  "cache_key vip port proto = vip @ '':'' @ int_digits port @ '':'' @ proto"

text \<open>\<^verbatim>\<open>reconcileEndpoints\<close>: the addresses it flushes, in order.\<close>

definition reconcile_endpoints :: "svc_cache_entry option \<Rightarrow> endpoint list \<Rightarrow> string list" where
  "reconcile_endpoints old new_eps =
     (case old of None \<Rightarrow> []
      | Some ent \<Rightarrow> map ep_addr (filter (\<lambda>e. e \<notin> set new_eps) (ent_eps ent)))"

definition answer_eps :: "svc_answer \<Rightarrow> endpoint list" where
  "answer_eps ans = map (\<lambda>a. \<lparr>ep_addr = a, ep_port = a_target ans\<rparr>) (a_endpoints ans)"

definition answer_ttl :: "svc_answer \<Rightarrow> int" where
  "answer_ttl ans = (let ttl = a_ttl ans * 1000000000 in if ttl \<le> 0 then cache_ttl else ttl)"

definition fresh_entry :: "int \<Rightarrow> svc_cache_entry option \<Rightarrow> bool" where
  "fresh_entry now ent = (case ent of None \<Rightarrow> False | Some e \<Rightarrow> \<not> ent_expiry e < now)"

text \<open>The entry to pick from: the cached one, or a new one from the query.  The clock is read before
  the query (\<open>now\<close>) and after it (\<open>later\<close>).\<close>

definition refresh :: "int \<Rightarrow> int \<Rightarrow> (svc_query \<Rightarrow> string + svc_answer) \<Rightarrow> string \<Rightarrow> int \<Rightarrow> string \<Rightarrow> svc_lb
    \<Rightarrow> string + (svc_cache_entry \<times> svc_lb \<times> string list)" where
  "refresh now later query vip port proto lb =
     (let key = cache_key vip port proto; ent = lb_cache lb key
      in if fresh_entry now ent then Inr (the ent, lb, [])
         else and_then (query \<lparr>q_vip = vip, q_port = port, q_proto = proto, q_name = [], q_ns = []\<rparr>) (\<lambda>ans.
           if a_error ans \<noteq> [] then Inl (a_error ans)
           else let new_eps = answer_eps ans;
                    new_ent = \<lparr>ent_eps = new_eps, ent_expiry = later + answer_ttl ans,
                       ent_rr = (case ent of None \<Rightarrow> 0 | Some e \<Rightarrow> ent_rr e)\<rparr>
                in Inr (new_ent, lb\<lparr>lb_cache := (lb_cache lb)(key \<mapsto> new_ent)\<rparr>,
                        reconcile_endpoints ent new_eps)))"

definition pick :: "int \<Rightarrow> int \<Rightarrow> (svc_query \<Rightarrow> string + svc_answer) \<Rightarrow> nft_result \<Rightarrow> string \<Rightarrow> int \<Rightarrow> string
    \<Rightarrow> svc_lb \<Rightarrow> (string + 32 word) \<times> svc_lb \<times> string list" where
  "pick now later query nft vip port proto lb =
     (case refresh now later query vip port proto lb of
        Inl e \<Rightarrow> (Inl e, lb, [])
      | Inr (ent, lb1, flushed) \<Rightarrow>
          if ent_eps ent = [] then (Inr 0, lb1, flushed)
          else let ep = ent_eps ent ! (ent_rr ent mod length (ent_eps ent));
                   lb2 = lb1\<lparr>lb_cache := (lb_cache lb1)(cache_key vip port proto \<mapsto> ent\<lparr>ent_rr := Suc (ent_rr ent)\<rparr>)\<rparr>;
                   (r, lb3) = id_for nft ep lb2
               in (r, lb3, flushed))"

subsection \<open>A queued packet\<close>

definition parse_flow :: "bytes \<Rightarrow> (string \<times> int \<times> string) option" where
  "parse_flow pkt =
     (if length pkt < 44 \<or> drop_bit 4 (pkt ! 0) \<noteq> 6 then None
      else if pkt ! 6 = 6 then Some (show_ip (slice 24 16 pkt), int (be_val (slice 42 2 pkt)), ''tcp'')
      else if pkt ! 6 = 17 then Some (show_ip (slice 24 16 pkt), int (be_val (slice 42 2 pkt)), ''udp'')
      else None)"

datatype verdict = NoVerdict | DropPacket | RepeatMarked "32 word"

text \<open>The callback of \<^verbatim>\<open>serve\<close>; a packet without id or payload gets no verdict.\<close>

definition serve_packet :: "int \<Rightarrow> int \<Rightarrow> (svc_query \<Rightarrow> string + svc_answer) \<Rightarrow> nft_result \<Rightarrow> bytes option
    \<Rightarrow> svc_lb \<Rightarrow> verdict \<times> svc_lb \<times> string list" where
  "serve_packet now later query nft payload lb =
     (case payload of
        None \<Rightarrow> (NoVerdict, lb, [])
      | Some pkt \<Rightarrow>
          (case parse_flow pkt of
             None \<Rightarrow> (DropPacket, lb, [])
           | Some (vip, port, proto) \<Rightarrow>
               (case pick now later query nft vip port proto lb of
                  (r, lb', flushed) \<Rightarrow>
                    (case r of
                       Inl e \<Rightarrow> (DropPacket, lb', flushed)
                     | Inr m \<Rightarrow> (if m = 0 then DropPacket else RepeatMarked m, lb', flushed)))))"

subsection \<open>The static rules\<close>

text \<open>The expressions \<^verbatim>\<open>installBase\<close> and \<^verbatim>\<open>matchCIDR\<close> build, with the registers they name: a payload load
  (destination, offset, length), a masking (source, destination, length, mask, xor), comparisons of
  a register, the packet's mark into a register, a look-up in \<^verbatim>\<open>eps\<close> (source, destination), the
  translation (address register, port register) and the queue.\<close>

datatype nft_expr =
    Payload nat nat nat
  | Bitwise nat nat nat bytes bytes
  | CmpEq nat bytes
  | CmpNeq nat bytes
  | MetaMark nat
  | LookupEps nat nat
  | DestNat nat nat
  | QueueTo nat

definition match_cidr :: "svc_lb \<Rightarrow> nft_expr list" where
  "match_cidr lb = [Payload 1 24 16, Bitwise 1 1 16 (lb_mask lb) (replicate 16 0), CmpEq 1 (lb_cidr lb)]"

definition base_rules :: "svc_lb \<Rightarrow> nft_expr list list" where
  "base_rules lb =
     [match_cidr lb @ [MetaMark 1, CmpNeq 1 [0, 0, 0, 0], MetaMark 1, LookupEps 1 1, DestNat 1 2],
      match_cidr lb @ [MetaMark 1, CmpEq 1 [0, 0, 0, 0], QueueTo 0]]"

datatype nat_verdict = Accept | ToQueue nat | DnatTo bytes nat

definition in_cidr :: "svc_lb \<Rightarrow> bytes \<Rightarrow> bool" where
  "in_cidr lb dst = (map2 (and) dst (lb_mask lb) = lb_cidr lb)"

end
