(* ===== verification/LB_Props.thy ===== *)
theory LB_Props imports Service_LB begin

text \<open>
  The load balancer's invariants and contracts: mark ids and map elements correspond, cached
  endpoints are picked in turn, and (the locale \<open>endpoint_source\<close>) whatever the source of
  the answers promises of its endpoints holds of the endpoint a flow is sent to.
\<close>

subsection \<open>Marks\<close>

definition lb_ok :: "svc_lb \<Rightarrow> bool" where
  "lb_ok lb \<longleftrightarrow> 1 \<le> unat (next_id lb)
     \<and> (\<forall>ep i. ep_id lb ep = Some i \<longrightarrow>
          0 < unat i \<and> unat i < unat (next_id lb) \<and> eps_map lb (mark_key i) = Some (eps_value ep))"

lemma mark_key_inj: "mark_key i = mark_key j \<longleftrightarrow> i = j"
proof
  assume "mark_key i = mark_key j"
  then have "word_of_nat (le_val (mark_key i)) = (word_of_nat (le_val (mark_key j)) :: 32 word)" by simp
  then show "i = j" by (simp add: mark_key_def le.word_dec_enc)
qed simp

lemma new_lb_ok: "lb_ok (new_lb c m)"
  by (simp add: lb_ok_def new_lb_def)

lemma lb_ok_cache: "lb_ok lb \<Longrightarrow> lb_ok (lb\<lparr>lb_cache := c\<rparr>)"
  by (simp add: lb_ok_def)

lemma id_for_same: "id_for nft ep lb = (r, lb') \<Longrightarrow>
    lb_cidr lb' = lb_cidr lb \<and> lb_mask lb' = lb_mask lb \<and> lb_cache lb' = lb_cache lb"
  by (auto simp: id_for_def Let_def split: option.splits nft_result.splits)

lemma next_id_Suc: "unat (n :: 32 word) + 1 < 2 ^ 32 \<Longrightarrow> unat (n + 1) = unat n + 1"
  by (simp add: unat_word_ariths)

lemma id_for_ok:
  assumes "lb_ok lb" and "unat (next_id lb) + 1 < 2 ^ 32" and "id_for nft ep lb = (r, lb')"
  shows "lb_ok lb' \<and> (\<forall>m. r = Inr m \<longrightarrow> ep_id lb' ep = Some m \<and> m \<noteq> 0 \<and> eps_map lb' (mark_key m) = Some (eps_value ep))"
proof (cases "ep_id lb ep")
  case (Some i)
  then have "r = Inr i" "lb' = lb" using assms(3) by (auto simp: id_for_def)
  moreover have "0 < unat i \<and> eps_map lb (mark_key i) = Some (eps_value ep)"
    using Some assms(1) by (simp add: lb_ok_def)
  ultimately show ?thesis using Some assms(1) by (auto simp: unat_gt_0)
next
  case None
  note next1 = next_id_Suc [OF assms(2)]
  have keep: "lb_ok (lb\<lparr>next_id := next_id lb + 1\<rparr>)"
    using assms(1) next1 by (fastforce simp: lb_ok_def)
  show ?thesis
  proof (cases nft)
    case NftOk
    then have lb': "lb' = lb\<lparr>next_id := next_id lb + 1, eps_map := (eps_map lb)(mark_key (next_id lb) \<mapsto> eps_value ep),
        ep_id := (ep_id lb)(ep \<mapsto> next_id lb)\<rparr>" and r: "r = Inr (next_id lb)"
      using assms(3) None by (simp_all add: id_for_def Let_def)
    have "unat i \<noteq> unat (next_id lb)" if "ep_id lb e = Some i" for e i
    proof -
      have "unat i < unat (next_id lb)" using assms(1) that unfolding lb_ok_def by blast
      then show ?thesis by simp
    qed
    then have "lb_ok lb'"
      using assms(1) next1 by (auto simp: lb_ok_def lb' mark_key_inj) (metis less_SucI)+
    moreover have "next_id lb \<noteq> 0" using assms(1) by (auto simp: lb_ok_def)
    ultimately show ?thesis using r by (simp add: lb')
  qed (use assms(3) None keep in \<open>auto simp: id_for_def Let_def\<close>)
qed

subsection \<open>Cache entries\<close>

lemma refresh_cases:
  assumes "refresh now later query vip port proto lb = Inr (ent, lb1, flushed)"
  shows "(fresh_entry now (lb_cache lb (cache_key vip port proto)) \<and> lb_cache lb (cache_key vip port proto) = Some ent
            \<and> lb1 = lb \<and> flushed = [])
    \<or> (\<exists>ans. query \<lparr>q_vip = vip, q_port = port, q_proto = proto, q_name = [], q_ns = []\<rparr> = Inr ans
            \<and> a_error ans = [] \<and> ent_eps ent = answer_eps ans \<and> ent_expiry ent = later + answer_ttl ans
            \<and> \<not> fresh_entry now (lb_cache lb (cache_key vip port proto))
            \<and> lb1 = lb\<lparr>lb_cache := (lb_cache lb)(cache_key vip port proto \<mapsto> ent)\<rparr>
            \<and> flushed = reconcile_endpoints (lb_cache lb (cache_key vip port proto)) (answer_eps ans))"
  using assms
  by (auto simp: refresh_def Let_def fresh_entry_def split: if_splits option.splits)

lemma refresh_same:
  "refresh now later query vip port proto lb = Inr (ent, lb1, flushed) \<Longrightarrow>
     ep_id lb1 = ep_id lb \<and> eps_map lb1 = eps_map lb \<and> next_id lb1 = next_id lb
     \<and> lb_cidr lb1 = lb_cidr lb \<and> lb_mask lb1 = lb_mask lb"
  by (auto dest!: refresh_cases)

text \<open>What a successful pick did: the entry, the endpoint of its cursor, and that endpoint's mark.\<close>

lemma pick_Inr:
  assumes "lb_ok lb" and "unat (next_id lb) + 1 < 2 ^ 32"
    and "pick now later query nft vip port proto lb = (Inr m, lb', flushed)" and "m \<noteq> 0"
  obtains ent lb1 where "refresh now later query vip port proto lb = Inr (ent, lb1, flushed)" and "ent_eps ent \<noteq> []"
    and "lb_cache lb' = (lb_cache lb1)(cache_key vip port proto \<mapsto> ent\<lparr>ent_rr := Suc (ent_rr ent)\<rparr>)"
    and "ep_id lb' (ent_eps ent ! (ent_rr ent mod length (ent_eps ent))) = Some m"
    and "eps_map lb' (mark_key m) = Some (eps_value (ent_eps ent ! (ent_rr ent mod length (ent_eps ent))))"
    and "lb_ok lb'" and "lb_cidr lb' = lb_cidr lb" and "lb_mask lb' = lb_mask lb"
proof -
  obtain ent lb1 where rf: "refresh now later query vip port proto lb = Inr (ent, lb1, flushed)"
    using assms(3) by (auto simp: pick_def Let_def split: sum.splits prod.splits if_splits)
  have ne: "ent_eps ent \<noteq> []" using assms(3,4) rf by (auto simp: pick_def)
  let ?ep = "ent_eps ent ! (ent_rr ent mod length (ent_eps ent))"
  let ?lb2 = "lb1\<lparr>lb_cache := (lb_cache lb1)(cache_key vip port proto \<mapsto> ent\<lparr>ent_rr := Suc (ent_rr ent)\<rparr>)\<rparr>"
  have id: "id_for nft ?ep ?lb2 = (Inr m, lb')"
    using assms(3) rf ne by (auto simp: pick_def Let_def split: prod.splits)
  have "lb_ok ?lb2" "unat (next_id ?lb2) + 1 < 2 ^ 32"
    using assms(1,2) refresh_same [OF rf] by (simp_all add: lb_ok_def)
  from id_for_ok [OF this id] id_for_same [OF id] refresh_same [OF rf] rf ne that show thesis by simp
qed

subsection \<open>Round robin\<close>

text \<open>The endpoint of an entry \<open>k\<close> picks from now, and consecutive picks of one service.\<close>

definition turn :: "svc_cache_entry \<Rightarrow> nat \<Rightarrow> endpoint" where
  "turn ent k = ent_eps ent ! ((ent_rr ent + k) mod length (ent_eps ent))"

fun pick_many :: "nat \<Rightarrow> int \<Rightarrow> int \<Rightarrow> (svc_query \<Rightarrow> string + svc_answer) \<Rightarrow> string \<Rightarrow> int \<Rightarrow> string
    \<Rightarrow> svc_lb \<Rightarrow> (string + 32 word) list \<times> svc_lb" where
  "pick_many 0 now later query vip port proto lb = ([], lb)"
| "pick_many (Suc n) now later query vip port proto lb =
     (let (r, lb', _) = pick now later query NftOk vip port proto lb;
          (rs, lb'') = pick_many n now later query vip port proto lb'
      in (r # rs, lb''))"

lemma turn_cycle:
  assumes "ent_eps ent \<noteq> []"
  shows "map (turn ent) [0..<length (ent_eps ent)] = rotate (ent_rr ent) (ent_eps ent)"
  using assms by (intro nth_equalityI) (simp_all add: turn_def nth_rotate)

lemma id_for_grows:
  assumes "id_for NftOk ep lb = (r, lb')"
  shows "ep_id lb \<subseteq>\<^sub>m ep_id lb'" and "unat (next_id lb) + 1 < 2 ^ 32 \<Longrightarrow> unat (next_id lb') \<le> unat (next_id lb) + 1"
    and "\<exists>m. r = Inr m"
  using assms by (auto simp: id_for_def Let_def map_le_def next_id_Suc split: option.splits)

lemma pick_fresh:
  assumes "lb_ok lb" and "unat (next_id lb) + 1 < 2 ^ 32"
    and ent: "lb_cache lb (cache_key vip port proto) = Some ent" "\<not> ent_expiry ent < now" "ent_eps ent \<noteq> []"
  shows "\<exists>m lb'. pick now later query NftOk vip port proto lb = (Inr m, lb', []) \<and> lb_ok lb'
    \<and> ep_id lb' (turn ent 0) = Some m \<and> ep_id lb \<subseteq>\<^sub>m ep_id lb'
    \<and> unat (next_id lb') \<le> unat (next_id lb) + 1
    \<and> lb_cache lb' (cache_key vip port proto) = Some (ent\<lparr>ent_rr := Suc (ent_rr ent)\<rparr>)"
proof -
  let ?lb2 = "lb\<lparr>lb_cache := (lb_cache lb)(cache_key vip port proto \<mapsto> ent\<lparr>ent_rr := Suc (ent_rr ent)\<rparr>)\<rparr>"
  obtain r lb' where id: "id_for NftOk (turn ent 0) ?lb2 = (r, lb')" by force
  then obtain m where r: "r = Inr m" using id_for_grows(3) by blast
  have "refresh now later query vip port proto lb = Inr (ent, lb, [])"
    using ent by (simp add: refresh_def Let_def fresh_entry_def)
  then have "pick now later query NftOk vip port proto lb = (Inr m, lb', [])"
    using ent(3) id r by (simp add: pick_def turn_def Let_def)
  moreover have "lb_ok lb' \<and> (\<forall>m. r = Inr m \<longrightarrow> ep_id lb' (turn ent 0) = Some m \<and> m \<noteq> 0
      \<and> eps_map lb' (mark_key m) = Some (eps_value (turn ent 0)))"
    using id_for_ok [OF _ _ id] assms(1,2) by (simp add: lb_ok_cache)
  moreover have "ep_id lb \<subseteq>\<^sub>m ep_id lb'" "unat (next_id lb') \<le> unat (next_id lb) + 1"
    using id_for_grows(1,2) [OF id] assms(2) by simp_all
  moreover have "lb_cache lb' (cache_key vip port proto) = Some (ent\<lparr>ent_rr := Suc (ent_rr ent)\<rparr>)"
    using id_for_same [OF id] by simp
  ultimately show ?thesis using r by blast
qed

lemma turn_Suc: "turn (ent\<lparr>ent_rr := Suc (ent_rr ent)\<rparr>) k = turn ent (Suc k)"
  by (simp add: turn_def)

lemma pick_many_fresh:
  assumes "lb_ok lb" and "unat (next_id lb) + n < 2 ^ 32"
    and "lb_cache lb (cache_key vip port proto) = Some ent" "\<not> ent_expiry ent < now" "ent_eps ent \<noteq> []"
  shows "\<exists>ms lb'. pick_many n now later query vip port proto lb = (map Inr ms, lb')
    \<and> list_all2 (\<lambda>m ep. ep_id lb' ep = Some m) ms (map (turn ent) [0..<n]) \<and> ep_id lb \<subseteq>\<^sub>m ep_id lb'"
  using assms
proof (induction n arbitrary: lb ent)
  case 0
  then show ?case by simp
next
  case (Suc n)
  obtain m lb1 where p: "pick now later query NftOk vip port proto lb = (Inr m, lb1, [])" and ok: "lb_ok lb1"
    and m: "ep_id lb1 (turn ent 0) = Some m" and le: "ep_id lb \<subseteq>\<^sub>m ep_id lb1"
    and nx: "unat (next_id lb1) \<le> unat (next_id lb) + 1"
    and c: "lb_cache lb1 (cache_key vip port proto) = Some (ent\<lparr>ent_rr := Suc (ent_rr ent)\<rparr>)"
    using pick_fresh [of lb vip port proto ent now later query] Suc.prems by auto
  have nx': "unat (next_id lb1) + n < 2 ^ 32" using nx Suc.prems(2) by linarith
  obtain ms lb' where ih: "pick_many n now later query vip port proto lb1 = (map Inr ms, lb')"
    and l2: "list_all2 (\<lambda>m ep. ep_id lb' ep = Some m) ms (map (turn (ent\<lparr>ent_rr := Suc (ent_rr ent)\<rparr>)) [0..<n])"
    and le': "ep_id lb1 \<subseteq>\<^sub>m ep_id lb'"
    using Suc.IH [OF ok nx' c] Suc.prems by auto
  have "ep_id lb' (turn ent 0) = Some m" using le' m by (auto simp: map_le_def dom_def)
  moreover have "map (turn ent) [0..<Suc n] = turn ent 0 # map (turn (ent\<lparr>ent_rr := Suc (ent_rr ent)\<rparr>)) [0..<n]"
    by (simp add: turn_Suc upt_conv_Cons flip: map_Suc_upt del: upt_Suc)
  ultimately have "list_all2 (\<lambda>m ep. ep_id lb' ep = Some m) (m # ms) (map (turn ent) [0..<Suc n])"
    using l2 by simp
  then show ?case using p ih le le' map_le_trans by (intro exI [of _ "m # ms"] exI [of _ lb']) auto
qed

subsection \<open>The endpoint source\<close>

text \<open>
  The interface to the agent: a query at a time, and what an endpoint it answers means at that
  time.  The laws: an answer without error to the query of a flow names only endpoints that back
  the queried service when it is given, and is not to be kept for longer than \<open>max_age\<close>.
\<close>

definition flow_query :: "string \<Rightarrow> int \<Rightarrow> string \<Rightarrow> svc_query" where
  "flow_query vip port proto = \<lparr>q_vip = vip, q_port = port, q_proto = proto, q_name = [], q_ns = []\<rparr>"

locale endpoint_source =
  fixes query :: "int \<Rightarrow> svc_query \<Rightarrow> string + svc_answer"
    and backs :: "int \<Rightarrow> string \<Rightarrow> int \<Rightarrow> string \<Rightarrow> endpoint \<Rightarrow> bool"
    and max_age :: int
  assumes answers_back: "proto \<in> {''tcp'', ''udp''} \<Longrightarrow> query t (flow_query vip port proto) = Inr ans \<Longrightarrow> a_error ans = []
      \<Longrightarrow> ep \<in> set (answer_eps ans) \<Longrightarrow> backs t vip port proto ep"
    and answers_age: "query t (flow_query vip port proto) = Inr ans \<Longrightarrow> a_error ans = []
      \<Longrightarrow> ep \<in> set (answer_eps ans) \<Longrightarrow> answer_ttl ans \<le> max_age"
begin

text \<open>Every cached endpoint backed the service of its key at one of the \<open>asked\<close> times, and the entry
  expires at most \<open>max_age\<close> after the answer to that query.\<close>

definition cache_backed :: "(int \<times> int) set \<Rightarrow> svc_lb \<Rightarrow> bool" where
  "cache_backed asked lb \<longleftrightarrow> (\<forall>key ent. lb_cache lb key = Some ent \<longrightarrow>
     (\<exists>vip port proto. key = cache_key vip port proto \<and> proto \<in> {''tcp'', ''udp''}
        \<and> (\<forall>ep \<in> set (ent_eps ent). \<exists>(t, u) \<in> asked. backs t vip port proto ep \<and> ent_expiry ent \<le> u + max_age)))"

end

lemma split_last_colon:
  "CHR '':'' \<notin> set w \<Longrightarrow> CHR '':'' \<notin> set w' \<Longrightarrow> s @ '':'' @ w = s' @ '':'' @ w' \<Longrightarrow> s = s' \<and> w = w'"
proof (induction s arbitrary: s')
  case Nil
  then show ?case by (cases s') auto
next
  case (Cons c s)
  then show ?case by (cases s') auto
qed

lemma int_digits_no_colon: "CHR '':'' \<notin> set (int_digits n)"
  by (auto simp: int_digits_def nat_digits_no_colon)

lemma int_digits_inj: "int_digits m = int_digits n \<Longrightarrow> m = n"
proof -
  have minus: "CHR ''-'' \<notin> set (nat_digits k)" for k
    using nat_digits_digits [of "CHR ''-''" k] by (auto simp: is_digit_def)
  assume "int_digits m = int_digits n"
  then show "m = n" using minus by (auto simp: int_digits_def split: if_splits dest: nat_digits_inj)
      (metis list.set_intros(1))+
qed

lemma cache_key_inj:
  assumes "CHR '':'' \<notin> set proto" and "CHR '':'' \<notin> set proto'"
    and "cache_key vip port proto = cache_key vip' port' proto'"
  shows "vip = vip' \<and> port = port' \<and> proto = proto'"
proof -
  have "(vip @ '':'' @ int_digits port) @ '':'' @ proto = (vip' @ '':'' @ int_digits port') @ '':'' @ proto'"
    using assms(3) by (simp add: cache_key_def)
  from split_last_colon [OF assms(1,2) this]
  have "vip @ '':'' @ int_digits port = vip' @ '':'' @ int_digits port'" and p: "proto = proto'" by simp_all
  from split_last_colon [OF int_digits_no_colon int_digits_no_colon this(1)] p
  show ?thesis using int_digits_inj by auto
qed

lemma id_for_next: "unat (next_id lb) + 1 < 2 ^ 32 \<Longrightarrow> id_for nft ep lb = (r, lb')
    \<Longrightarrow> unat (next_id lb') \<le> unat (next_id lb) + 1"
  by (auto simp: id_for_def Let_def next_id_Suc split: option.splits nft_result.splits)

lemma flow_protos: "proto \<in> {''tcp'', ''udp''} \<Longrightarrow> CHR '':'' \<notin> set proto"
  by auto

lemma parse_flow_proto: "parse_flow pkt = Some (vip, port, proto) \<Longrightarrow> proto \<in> {''tcp'', ''udp''}"
  by (auto simp: parse_flow_def split: if_splits)

context endpoint_source
begin

lemma new_lb_backed: "cache_backed asked (new_lb c m)"
  by (simp add: cache_backed_def new_lb_def)

lemma cache_backed_mono: "cache_backed asked lb \<Longrightarrow> asked \<subseteq> asked' \<Longrightarrow> cache_backed asked' lb"
  unfolding cache_backed_def by (meson subsetD)

lemma cache_backed_update:
  assumes "cache_backed asked lb" and "proto \<in> {''tcp'', ''udp''}"
    and "\<forall>ep \<in> set (ent_eps ent). \<exists>(t, u) \<in> asked. backs t vip port proto ep \<and> ent_expiry ent \<le> u + max_age"
    and "lb_cache lb' = (lb_cache lb)(cache_key vip port proto \<mapsto> ent)"
  shows "cache_backed asked lb'"
  unfolding cache_backed_def
proof (intro allI impI)
  fix key e assume e: "lb_cache lb' key = Some e"
  show "\<exists>vip port proto. key = cache_key vip port proto \<and> proto \<in> {''tcp'', ''udp''} \<and>
      (\<forall>ep\<in>set (ent_eps e). \<exists>(t, u)\<in>asked. backs t vip port proto ep \<and> ent_expiry e \<le> u + max_age)"
  proof (cases "key = cache_key vip port proto")
    case True
    then have "e = ent" using e assms(4) by simp
    then show ?thesis using True assms(2,3) by blast
  next
    case False
    then have "lb_cache lb key = Some e" using e assms(4) by simp
    then show ?thesis using assms(1) unfolding cache_backed_def by blast
  qed
qed

lemma refresh_backed:
  assumes "cache_backed asked lb" and "proto \<in> {''tcp'', ''udp''}"
    and "refresh now later (query now) vip port proto lb = Inr (ent, lb1, flushed)"
  shows "cache_backed (insert (now, later) asked) lb1
    \<and> (\<forall>ep \<in> set (ent_eps ent). \<exists>t u. ((t, u) = (now, later) \<or> (t, u) \<in> asked \<and> now \<le> u + max_age)
         \<and> backs t vip port proto ep)
    \<and> (\<forall>ep \<in> set (ent_eps ent). \<exists>(t, u) \<in> insert (now, later) asked. backs t vip port proto ep \<and> ent_expiry ent \<le> u + max_age)"
  using refresh_cases [OF assms(3)]
proof (elim disjE exE conjE)
  assume c: "lb_cache lb (cache_key vip port proto) = Some ent" and "lb1 = lb"
    and "fresh_entry now (lb_cache lb (cache_key vip port proto))"
  then have "now \<le> ent_expiry ent" by (simp add: fresh_entry_def)
  moreover obtain vip' port' proto' where k: "cache_key vip port proto = cache_key vip' port' proto'" "proto' \<in> {''tcp'', ''udp''}"
      and b: "\<forall>ep \<in> set (ent_eps ent). \<exists>(t, u) \<in> asked. backs t vip' port' proto' ep \<and> ent_expiry ent \<le> u + max_age"
    using assms(1) [unfolded cache_backed_def, rule_format, OF c] by auto
  moreover have "vip' = vip \<and> port' = port \<and> proto' = proto"
    using k(1) cache_key_inj [OF flow_protos [OF assms(2)] flow_protos [OF k(2)]] by blast
  ultimately have b: "\<forall>ep \<in> set (ent_eps ent). \<exists>(t, u) \<in> asked. backs t vip port proto ep \<and> ent_expiry ent \<le> u + max_age"
    and now: "now \<le> ent_expiry ent" by simp_all
  have keep: "cache_backed (insert (now, later) asked) lb1" using cache_backed_mono [OF assms(1)] \<open>lb1 = lb\<close> by blast
  show ?thesis
  proof (intro conjI ballI keep)
    fix ep assume "ep \<in> set (ent_eps ent)"
    then obtain t u where tu: "(t, u) \<in> asked" "backs t vip port proto ep" "ent_expiry ent \<le> u + max_age" using b by blast
    then show "\<exists>t u. ((t, u) = (now, later) \<or> (t, u) \<in> asked \<and> now \<le> u + max_age) \<and> backs t vip port proto ep"
      using now by (metis order_trans)
    show "\<exists>(t, u) \<in> insert (now, later) asked. backs t vip port proto ep \<and> ent_expiry ent \<le> u + max_age"
      using tu by blast
  qed
next
  fix ans
  assume a: "query now \<lparr>q_vip = vip, q_port = port, q_proto = proto, q_name = [], q_ns = []\<rparr> = Inr ans"
      "a_error ans = []" "ent_eps ent = answer_eps ans" "ent_expiry ent = later + answer_ttl ans"
      "lb1 = lb\<lparr>lb_cache := (lb_cache lb)(cache_key vip port proto \<mapsto> ent)\<rparr>"
  then have b: "\<forall>ep \<in> set (ent_eps ent). backs now vip port proto ep \<and> ent_expiry ent \<le> later + max_age"
    using answers_back [OF assms(2)] answers_age by (simp add: flow_query_def)
  then have all: "\<forall>ep \<in> set (ent_eps ent). \<exists>(t, u) \<in> insert (now, later) asked. backs t vip port proto ep \<and> ent_expiry ent \<le> u + max_age"
    by blast
  have "cache_backed (insert (now, later) asked) lb" using cache_backed_mono [OF assms(1)] by blast
  from cache_backed_update [OF this assms(2) all] a(5) have "cache_backed (insert (now, later) asked) lb1" by simp
  then show ?thesis using b all by blast
qed

text \<open>What a flow is marked for backs the service it asked for; picks keep the cache backed.\<close>

lemma pick_backed:
  assumes "lb_ok lb" and "unat (next_id lb) + 1 < 2 ^ 32" and "cache_backed asked lb" and "proto \<in> {''tcp'', ''udp''}"
    and "pick now later (query now) nft vip port proto lb = (Inr m, lb', flushed)" and "m \<noteq> 0"
  shows "lb_ok lb' \<and> (\<exists>ep t u. ((t, u) = (now, later) \<or> (t, u) \<in> asked \<and> now \<le> u + max_age)
    \<and> backs t vip port proto ep \<and> ep_id lb' ep = Some m)"
proof -
  obtain ent lb1 where rf: "refresh now later (query now) vip port proto lb = Inr (ent, lb1, flushed)"
    and ne: "ent_eps ent \<noteq> []"
    and m: "ep_id lb' (ent_eps ent ! (ent_rr ent mod length (ent_eps ent))) = Some m" and "lb_ok lb'"
    by (rule pick_Inr [OF assms(1,2,5,6)])
  have "ent_eps ent ! (ent_rr ent mod length (ent_eps ent)) \<in> set (ent_eps ent)" using ne by simp
  then show ?thesis using refresh_backed [OF assms(3,4) rf] m \<open>lb_ok lb'\<close> by metis
qed

text \<open>Every pick, and every queued packet, keeps the marks right and the cache backed.\<close>

lemma pick_keeps:
  assumes "lb_ok lb" and b: "unat (next_id lb) + 1 < 2 ^ 32" and "cache_backed asked lb" and "proto \<in> {''tcp'', ''udp''}"
    and p: "pick now later (query now) nft vip port proto lb = (r, lb', flushed)"
  shows "cache_backed (insert (now, later) asked) lb'"
proof (cases "refresh now later (query now) vip port proto lb")
  case (Inl e)
  then show ?thesis using p cache_backed_mono [OF assms(3)] by (auto simp: pick_def)
next
  case (Inr x)
  obtain ent lb1 fl where x: "x = (ent, lb1, fl)" by (cases x)
  have rf: "refresh now later (query now) vip port proto lb = Inr (ent, lb1, fl)" using Inr x by simp
  note bk = refresh_backed [OF assms(3,4) rf]
  show ?thesis
  proof (cases "ent_eps ent = []")
    case True
    then show ?thesis using p rf bk by (auto simp: pick_def)
  next
    case False
    let ?lb2 = "lb1\<lparr>lb_cache := (lb_cache lb1)(cache_key vip port proto \<mapsto> ent\<lparr>ent_rr := Suc (ent_rr ent)\<rparr>)\<rparr>"
    have "id_for nft (ent_eps ent ! (ent_rr ent mod length (ent_eps ent))) ?lb2 = (r, lb')"
      using p rf False by (auto simp: pick_def Let_def split: prod.splits)
    from id_for_same [OF this] have c: "lb_cache lb' = (lb_cache lb1)(cache_key vip port proto \<mapsto> ent\<lparr>ent_rr := Suc (ent_rr ent)\<rparr>)"
      by simp
    show ?thesis by (rule cache_backed_update [OF _ assms(4) _ c]) (use bk in simp_all)
  qed
qed

lemma serve_backed:
  assumes "lb_ok lb" and "unat (next_id lb) + 1 < 2 ^ 32" and "cache_backed asked lb"
  shows "cache_backed (insert (now, later) asked) (fst (snd (serve_packet now later (query now) nft payload lb)))"
proof (cases "Option.bind payload parse_flow")
  case None
  then show ?thesis using cache_backed_mono [OF assms(3)] by (auto simp: serve_packet_def split: option.splits)
next
  case (Some f)
  obtain vip port proto where f: "f = (vip, port, proto)" by (cases f)
  with Some obtain pkt where pkt: "payload = Some pkt" "parse_flow pkt = Some (vip, port, proto)"
    by (auto simp: bind_eq_Some_conv)
  obtain r lb' fl where p: "pick now later (query now) nft vip port proto lb = (r, lb', fl)" by (metis prod_cases3)
  from pick_keeps [OF assms parse_flow_proto [OF pkt(2)] p] p pkt show ?thesis
    by (auto simp: serve_packet_def split: sum.splits)
qed

end

subsection \<open>Every packet since boot\<close>

lemma pick_lb_ok:
  assumes "lb_ok lb" and b: "unat (next_id lb) + 1 < 2 ^ 32"
    and p: "pick now later query nft vip port proto lb = (r, lb', flushed)"
  shows "lb_ok lb' \<and> unat (next_id lb') \<le> unat (next_id lb) + 1 \<and> lb_cidr lb' = lb_cidr lb \<and> lb_mask lb' = lb_mask lb"
proof (cases "refresh now later query vip port proto lb")
  case (Inl e)
  then show ?thesis using assms by (auto simp: pick_def)
next
  case (Inr x)
  obtain ent lb1 fl where x: "x = (ent, lb1, fl)" by (cases x)
  note same = refresh_same [OF Inr [unfolded x]]
  let ?lb2 = "lb1\<lparr>lb_cache := (lb_cache lb1)(cache_key vip port proto \<mapsto> ent\<lparr>ent_rr := Suc (ent_rr ent)\<rparr>)\<rparr>"
  show ?thesis
  proof (cases "ent_eps ent = []")
    case True
    then show ?thesis using p Inr x assms(1) same by (auto simp: pick_def lb_ok_def)
  next
    case False
    then have id: "id_for nft (ent_eps ent ! (ent_rr ent mod length (ent_eps ent))) ?lb2 = (r, lb')"
      using p Inr x by (auto simp: pick_def Let_def split: prod.splits)
    have b2: "lb_ok ?lb2" "unat (next_id ?lb2) + 1 < 2 ^ 32" using assms(1) b same by (simp_all add: lb_ok_def)
    then show ?thesis using id_for_ok [OF b2 id] id_for_next [OF b2(2) id] id_for_same [OF id] same by simp
  qed
qed

lemma serve_lb_ok:
  assumes "lb_ok lb" and "unat (next_id lb) + 1 < 2 ^ 32"
  shows "lb_ok (fst (snd (serve_packet now later query nft payload lb)))
    \<and> unat (next_id (fst (snd (serve_packet now later query nft payload lb)))) \<le> unat (next_id lb) + 1
    \<and> lb_cidr (fst (snd (serve_packet now later query nft payload lb))) = lb_cidr lb
    \<and> lb_mask (fst (snd (serve_packet now later query nft payload lb))) = lb_mask lb"
  using assms pick_lb_ok [OF assms]
  by (auto simp: serve_packet_def split: option.splits prod.splits sum.splits)

text \<open>The packets queued since boot, in order: for each the clock before and after the query, what the
  query answers, the outcome of the map's transaction, and the packet.\<close>

fun serve_flows :: "(int \<times> int \<times> (svc_query \<Rightarrow> string + svc_answer) \<times> nft_result \<times> bytes option) list \<Rightarrow> svc_lb \<Rightarrow> svc_lb" where
  "serve_flows [] lb = lb"
| "serve_flows ((now, later, query, nft, payload) # evs) lb =
     serve_flows evs (fst (snd (serve_packet now later query nft payload lb)))"

lemma serve_flows_ok:
  "lb_ok lb \<Longrightarrow> unat (next_id lb) + length evs < 2 ^ 32 \<Longrightarrow>
     lb_ok (serve_flows evs lb) \<and> unat (next_id (serve_flows evs lb)) \<le> unat (next_id lb) + length evs
     \<and> lb_cidr (serve_flows evs lb) = lb_cidr lb \<and> lb_mask (serve_flows evs lb) = lb_mask lb"
proof (induction evs lb rule: serve_flows.induct)
  case (2 now later query nft payload evs lb)
  have "unat (next_id lb) + 1 < 2 ^ 32" using "2.prems"(2) by simp
  from serve_lb_ok [OF "2.prems"(1) this, of now later query nft payload] "2.IH" "2.prems"(2) show ?case
    by simp
qed simp

lemma booted_lb_ok:
  assumes "length evs < 2 ^ 32 - 2"
  shows "lb_ok (serve_flows evs (new_lb c m))" "unat (next_id (serve_flows evs (new_lb c m))) + 1 < 2 ^ 32"
    "lb_cidr (serve_flows evs (new_lb c m)) = c" "lb_mask (serve_flows evs (new_lb c m)) = m"
proof -
  have n: "unat (next_id (new_lb c m)) = 1" "lb_cidr (new_lb c m) = c" "lb_mask (new_lb c m) = m"
    by (simp_all add: new_lb_def)
  then have "unat (next_id (new_lb c m)) + length evs < 2 ^ 32" using assms by simp
  note k = serve_flows_ok [OF new_lb_ok this]
  show "lb_ok (serve_flows evs (new_lb c m))" "unat (next_id (serve_flows evs (new_lb c m))) + 1 < 2 ^ 32"
    "lb_cidr (serve_flows evs (new_lb c m)) = c" "lb_mask (serve_flows evs (new_lb c m)) = m"
    using k n assms by simp_all
qed

subsection \<open>The kernel's side\<close>

text \<open>
  The evaluation of rules is the kernel's, not this repository's: \<open>nf_tables\<close> is its interface, with
  the documented behaviour the rules rely on.  Registers are 16 bytes of one file, from register 1
  on; an expression that stores writes as many bytes as it has, into the following registers where
  it needs them; a failed comparison or look-up ends the rule; the mark is loaded in the byte order
  of the machine, low byte first; a translation takes 16 bytes of the address register and 2 bytes
  of the port register; the first rule with a verdict ends the chain.
\<close>

definition store :: "nat \<Rightarrow> bytes \<Rightarrow> (nat \<Rightarrow> byte) \<Rightarrow> nat \<Rightarrow> byte" where
  "store r bs regs i = (if 16 * (r - 1) \<le> i \<and> i < 16 * (r - 1) + length bs then bs ! (i - 16 * (r - 1)) else regs i)"

definition load :: "nat \<Rightarrow> nat \<Rightarrow> (nat \<Rightarrow> byte) \<Rightarrow> bytes" where
  "load r n regs = map regs [16 * (r - 1)..<16 * (r - 1) + n]"

definition native_mark :: "32 word \<Rightarrow> bytes" where
  "native_mark m = map (\<lambda>k. ucast (drop_bit (8 * k) m)) [0..<4]"

locale nf_tables =
  fixes rule_out :: "(bytes \<rightharpoonup> bytes) \<Rightarrow> bytes \<Rightarrow> 32 word \<Rightarrow> nft_expr list \<Rightarrow> (nat \<Rightarrow> byte) \<Rightarrow> nat_verdict option"
    and chain_out :: "(bytes \<rightharpoonup> bytes) \<Rightarrow> bytes \<Rightarrow> 32 word \<Rightarrow> nft_expr list list \<Rightarrow> nat_verdict"
  assumes payload: "rule_out eps pkt m (Payload d off n # es) regs = rule_out eps pkt m es (store d (slice off n pkt) regs)"
    and bitwise: "rule_out eps pkt m (Bitwise s d n msk xr # es) regs
      = rule_out eps pkt m es (store d (map2 xor (map2 and (load s n regs) msk) xr) regs)"
    and cmp_eq: "rule_out eps pkt m (CmpEq s v # es) regs = (if load s (length v) regs = v then rule_out eps pkt m es regs else None)"
    and cmp_neq: "rule_out eps pkt m (CmpNeq s v # es) regs = (if load s (length v) regs \<noteq> v then rule_out eps pkt m es regs else None)"
    and meta_mark: "rule_out eps pkt m (MetaMark d # es) regs = rule_out eps pkt m es (store d (native_mark m) regs)"
    and look_up: "rule_out eps pkt m (LookupEps s d # es) regs
      = (case eps (load s 4 regs) of None \<Rightarrow> None | Some v \<Rightarrow> rule_out eps pkt m es (store d v regs))"
    and dest_nat: "rule_out eps pkt m (DestNat a p # es) regs = Some (DnatTo (load a 16 regs) (be_val (load p 2 regs)))"
    and to_queue: "rule_out eps pkt m (QueueTo n # es) regs = Some (ToQueue n)"
    and chain_end: "chain_out eps pkt m [] = Accept"
    and chain_rule: "chain_out eps pkt m (r # rs)
      = (case rule_out eps pkt m r (\<lambda>_. 0) of Some v \<Rightarrow> v | None \<Rightarrow> chain_out eps pkt m rs)"

lemma length_load [simp]: "length (load r n regs) = n"
  by (simp add: load_def)

lemma load_store: "n \<le> length bs \<Longrightarrow> load r n (store r bs regs) = take n bs"
  by (rule nth_equalityI) (simp_all add: load_def store_def)

lemma load_next: "1 \<le> r \<Longrightarrow> 16 + n \<le> length bs \<Longrightarrow> load (Suc r) n (store r bs regs) = slice 16 n bs"
  by (rule nth_equalityI) (auto simp: load_def store_def slice_def diff_mult_distrib2 add.commute)

lemma xor_zeros: "length xs \<le> n \<Longrightarrow> map2 xor xs (replicate n 0) = (xs :: bytes)"
proof (induction xs arbitrary: n)
  case (Cons x xs)
  then show ?case by (cases n) auto
qed simp

lemma le_bytes_nth: "k < n \<Longrightarrow> le_bytes n v ! k = word_of_nat (v div 256 ^ k)"
  by (induction n arbitrary: v k) (auto simp: nth_Cons div_mult2_eq split: nat.split)

lemma native_mark_key: "mark_key m = native_mark m"
proof (rule nth_equalityI)
  fix k assume "k < length (mark_key m)"
  then have k: "k < 4" by (simp add: mark_key_def)
  have "unat (drop_bit (8 * k) m) = unat m div 256 ^ k"
    by (simp only: unat_drop_bit_eq) (simp add: drop_bit_eq_div power_mult)
  then have "(ucast (drop_bit (8 * k) m) :: byte) = word_of_nat (unat m div 256 ^ k)" by (metis of_nat_unat)
  then show "mark_key m ! k = native_mark m ! k"
    using k by (simp add: mark_key_def native_mark_def le_bytes_nth)
qed (simp add: mark_key_def native_mark_def)

lemma length_mark_key [simp]: "length (mark_key m) = 4"
  by (simp add: mark_key_def)

lemma mark_key_zero: "mark_key m = [0, 0, 0, 0] \<longleftrightarrow> m = 0"
proof -
  have zeros: "le_bytes n 0 = replicate n 0" for n by (induction n) simp_all
  have four: "replicate 4 x = [x, x, x, x]" for x :: byte by (simp add: numeral_eq_Suc)
  have "mark_key 0 = [0, 0, 0, 0]" by (simp add: mark_key_def zeros four)
  then show ?thesis using mark_key_inj by metis
qed

context nf_tables
begin

lemma match_cidr_out:
  assumes "in_cidr lb (slice 24 16 pkt)" and "length (lb_cidr lb) = 16" and "40 \<le> length pkt"
  shows "\<exists>regs'. rule_out eps pkt m (match_cidr lb @ es) regs = rule_out eps pkt m es regs'"
proof -
  have l: "length (slice 24 16 pkt) = 16" using assms(3) by simp
  have m: "map2 and (slice 24 16 pkt) (lb_mask lb) = lb_cidr lb" using assms(1) by (simp add: in_cidr_def)
  then have "map2 xor (map2 and (slice 24 16 pkt) (lb_mask lb)) (replicate 16 0) = lb_cidr lb"
    using xor_zeros assms(2) by (metis order_refl)
  then show ?thesis using l assms(2) by (auto simp: match_cidr_def payload bitwise cmp_eq load_store)
qed

text \<open>A packet into the range goes to the queue while its mark is 0, and is translated to the value of
  its mark in the map otherwise.\<close>

lemma chain_queues:
  assumes "in_cidr lb (slice 24 16 pkt)" and "length (lb_cidr lb) = 16" and "40 \<le> length pkt"
  shows "chain_out (eps_map lb) pkt 0 (base_rules lb) = ToQueue 0"
proof -
  have z: "native_mark 0 = [0, 0, 0, 0]" using mark_key_zero [of 0] by (simp add: native_mark_key)
  note c = match_cidr_out [OF assms, of "eps_map lb" 0]
  obtain r1 r2 where
      "rule_out (eps_map lb) pkt 0 (match_cidr lb @ [MetaMark 1, CmpNeq 1 [0, 0, 0, 0], MetaMark 1, LookupEps 1 1, DestNat 1 2]) (\<lambda>_. 0)
        = rule_out (eps_map lb) pkt 0 [MetaMark 1, CmpNeq 1 [0, 0, 0, 0], MetaMark 1, LookupEps 1 1, DestNat 1 2] r1"
      "rule_out (eps_map lb) pkt 0 (match_cidr lb @ [MetaMark 1, CmpEq 1 [0, 0, 0, 0], QueueTo 0]) (\<lambda>_. 0)
        = rule_out (eps_map lb) pkt 0 [MetaMark 1, CmpEq 1 [0, 0, 0, 0], QueueTo 0] r2"
    using c by blast
  then show ?thesis by (simp add: base_rules_def chain_rule meta_mark cmp_eq cmp_neq to_queue z load_store)
qed

lemma chain_translates:
  assumes "in_cidr lb (slice 24 16 pkt)" and "length (lb_cidr lb) = 16" and "40 \<le> length pkt"
    and "m \<noteq> 0" and "eps_map lb (mark_key m) = Some v" and "18 \<le> length v"
  shows "chain_out (eps_map lb) pkt m (base_rules lb) = DnatTo (take 16 v) (be_val (slice 16 2 v))"
proof -
  have "native_mark m \<noteq> [0, 0, 0, 0]" "length (native_mark m) = 4" "eps_map lb (native_mark m) = Some v"
    using mark_key_zero [of m] length_mark_key [of m] assms(4,5) by (simp_all add: native_mark_key)
  moreover obtain r1 where
      "rule_out (eps_map lb) pkt m (match_cidr lb @ [MetaMark 1, CmpNeq 1 [0, 0, 0, 0], MetaMark 1, LookupEps 1 1, DestNat 1 2]) (\<lambda>_. 0)
        = rule_out (eps_map lb) pkt m [MetaMark 1, CmpNeq 1 [0, 0, 0, 0], MetaMark 1, LookupEps 1 1, DestNat 1 2] r1"
    using match_cidr_out [OF assms(1-3), of "eps_map lb" m] by blast
  ultimately show ?thesis using assms(6) load_next [of 1]
    by (simp add: base_rules_def chain_rule meta_mark cmp_neq look_up dest_nat load_store numeral_2_eq_2)
qed

end

lemma eps_value_fields:
  assumes "parse_ip (ep_addr ep) = Some a"
  shows "take 16 (eps_value ep) = a" and "be_val (slice 16 2 (eps_value ep)) = nat (ep_port ep mod 65536)"
proof -
  have len: "length a = 16" using parse_ip_length [OF assms] .
  then show "take 16 (eps_value ep) = a" using assms by (simp add: eps_value_def)
  let ?h = "word_of_int (ep_port ep div 256) :: byte" and ?l = "word_of_int (ep_port ep) :: byte"
  have "slice 16 2 (eps_value ep) = [?h, ?l]"
    using assms len by (simp add: eps_value_def slice_append_right) (simp add: slice_def)
  then have "int (be_val (slice 16 2 (eps_value ep))) = uint ?l + 256 * uint ?h" by (simp add: be_val_def)
  also have "\<dots> = ep_port ep mod 256 + 256 * (ep_port ep div 256 mod 256)" by (simp add: uint_word_of_int)
  also have "\<dots> = ep_port ep mod 65536" using zmod_zmult2_eq [of 256 "ep_port ep" 256] by simp
  finally show "be_val (slice 16 2 (eps_value ep)) = nat (ep_port ep mod 65536)" by simp
qed

subsection \<open>Properties\<close>

text \<open>C33: the path of a new flow.  For every kernel that evaluates rules as documented (\<open>nf_tables\<close>), and
  after any sequence of fewer than 2^32 - 2 packets queued since boot: an unmarked packet into the service
  range is queued by the rules of \<^verbatim>\<open>installBase\<close>; and when the handler lets it through, the same
  rules translate the marked packet to exactly the address and port of the endpoint at the
  round-robin cursor of the service's cache entry.\<close>

theorem flow_reaches_its_endpoint:
  assumes "nf_tables rule_out chain_out" and "length evs < 2 ^ 32 - 2" and "length cidr = 16"
    and "map2 and (slice 24 16 pkt) msk = cidr" and "parse_flow pkt = Some (vip, port, proto)"
    and "serve_packet now later query nft (Some pkt) (serve_flows evs (new_lb cidr msk)) = (RepeatMarked m, lb', flushed)"
  shows "chain_out (eps_map (serve_flows evs (new_lb cidr msk))) pkt 0 (base_rules (new_lb cidr msk)) = ToQueue 0 \<and>
    (\<exists>ent lb1. refresh now later query vip port proto (serve_flows evs (new_lb cidr msk)) = Inr (ent, lb1, flushed) \<and>
       (\<forall>a. parse_ip (ep_addr (turn ent 0)) = Some a \<longrightarrow>
          chain_out (eps_map lb') pkt m (base_rules (new_lb cidr msk)) = DnatTo a (nat (ep_port (turn ent 0) mod 65536))))"
proof -
  let ?lb = "serve_flows evs (new_lb cidr msk)"
  note b = booted_lb_ok [OF assms(2), of cidr msk]
  have p: "pick now later query nft vip port proto ?lb = (Inr m, lb', flushed)" and m: "m \<noteq> 0"
    using assms(5,6) by (auto simp: serve_packet_def split: sum.splits if_splits prod.splits)
  obtain ent lb1 where rf: "refresh now later query vip port proto ?lb = Inr (ent, lb1, flushed)"
    and v: "eps_map lb' (mark_key m) = Some (eps_value (ent_eps ent ! (ent_rr ent mod length (ent_eps ent))))"
    and same: "lb_cidr lb' = lb_cidr ?lb" "lb_mask lb' = lb_mask ?lb"
    by (rule pick_Inr [OF b(1,2) p m])
  have rules: "base_rules lb' = base_rules (new_lb cidr msk)" "base_rules ?lb = base_rules (new_lb cidr msk)"
    using b(3,4) same by (simp_all add: base_rules_def match_cidr_def new_lb_def)
  have c: "in_cidr ?lb (slice 24 16 pkt)" "in_cidr lb' (slice 24 16 pkt)" "length (lb_cidr ?lb) = 16" "length (lb_cidr lb') = 16"
    using assms(3,4) b(3,4) same by (simp_all add: in_cidr_def)
  have len: "40 \<le> length pkt" using assms(5) by (auto simp: parse_flow_def split: if_splits)
  have "chain_out (eps_map lb') pkt m (base_rules lb') = DnatTo a (nat (ep_port (turn ent 0) mod 65536))"
    if a: "parse_ip (ep_addr (turn ent 0)) = Some a" for a
  proof -
    have "18 \<le> length (eps_value (turn ent 0))" using a parse_ip_length [OF a] by (simp add: eps_value_def)
    then show ?thesis
      using nf_tables.chain_translates [OF assms(1) c(2,4) len m] v eps_value_fields [OF a] by (simp add: turn_def)
  qed
  then show ?thesis using nf_tables.chain_queues [OF assms(1) c(1,3) len] rf rules by auto
qed

text \<open>round robin.  While a service's cache entry is fresh and the map accepts elements, as many
  consecutive picks as it has endpoints all succeed and return the marks of all its endpoints, in
  rotation from the cursor, each endpoint once.\<close>

theorem round_robin_fair:
  assumes "lb_ok lb" and "unat (next_id lb) + length (ent_eps ent) < 2 ^ 32"
    and "lb_cache lb (cache_key vip port proto) = Some ent" and "\<not> ent_expiry ent < now" and "ent_eps ent \<noteq> []"
  shows "\<exists>ms lb'. pick_many (length (ent_eps ent)) now later query vip port proto lb = (map Inr ms, lb')
    \<and> list_all2 (\<lambda>m ep. ep_id lb' ep = Some m) ms (rotate (ent_rr ent) (ent_eps ent))"
proof -
  obtain ms lb' where "pick_many (length (ent_eps ent)) now later query vip port proto lb = (map Inr ms, lb')"
      "list_all2 (\<lambda>m ep. ep_id lb' ep = Some m) ms (map (turn ent) [0..<length (ent_eps ent)])"
    using pick_many_fresh [OF assms(1,2,3,4,5), of later query] by blast
  then show ?thesis using turn_cycle [OF assms(5)] by auto
qed

definition two_backends :: svc_cache_entry where
  "two_backends = \<lparr>ent_eps = [\<lparr>ep_addr = ''fd00::1'', ep_port = 80\<rparr>, \<lparr>ep_addr = ''fd00::2'', ep_port = 80\<rparr>],
     ent_expiry = 100, ent_rr = 1\<rparr>"

definition cached_lb :: svc_lb where
  "cached_lb = (new_lb (replicate 16 0) (replicate 16 0))
     \<lparr>lb_cache := [cache_key ''fd00::a'' 443 ''tcp'' \<mapsto> two_backends]\<rparr>"

lemma round_robin_fair_witness:
  "\<exists>ms lb'. pick_many (length (ent_eps two_backends)) 50 50 (\<lambda>_. Inl []) ''fd00::a'' 443 ''tcp'' cached_lb = (map Inr ms, lb')
    \<and> list_all2 (\<lambda>m ep. ep_id lb' ep = Some m) ms (rotate (ent_rr two_backends) (ent_eps two_backends))"
proof (rule round_robin_fair)
  show "lb_ok cached_lb" unfolding cached_lb_def by (rule lb_ok_cache) (rule new_lb_ok)
  show "unat (next_id cached_lb) + length (ent_eps two_backends) < 2 ^ 32"
    by (simp add: cached_lb_def new_lb_def two_backends_def)
  show "lb_cache cached_lb (cache_key ''fd00::a'' 443 ''tcp'') = Some two_backends" by (simp add: cached_lb_def)
qed (simp_all add: two_backends_def)

definition syn_packet :: bytes where
  "syn_packet = 96 # replicate 5 0 @ [6, 64] @ replicate 16 0 @ (253 # replicate 14 0 @ [10]) @ [0, 80, 1, 187]"

definition one_backend :: "svc_query \<Rightarrow> string + svc_answer" where
  "one_backend q = Inr \<lparr>a_endpoints = [''fd00::1''], a_target = 6443, a_ips = [], a_ttl = 30, a_error = []\<rparr>"

definition open_lb :: svc_lb where
  "open_lb = new_lb (replicate 16 0) (replicate 16 0)"

lemma syn_flow: "\<exists>vip. parse_flow syn_packet = Some (vip, 443, ''tcp'')"
proof -
  have 1: "slice 42 2 syn_packet = [1, 187]" by (simp add: syn_packet_def slice_append_right slice_def)
  have 2: "syn_packet ! 6 = 6" "syn_packet ! 0 = 96" "length syn_packet = 44"
    by (simp_all add: syn_packet_def nth_append)
  have 3: "drop_bit 4 (96 :: byte) = 6" by simp
  show ?thesis unfolding parse_flow_def 1 2 3 by (simp add: be_val_def)
qed

definition syn_vip :: string where
  "syn_vip = fst (the (parse_flow syn_packet))"

lemma syn_served: "\<exists>lb'. serve_packet 0 0 one_backend NftOk (Some syn_packet) open_lb = (RepeatMarked 1, lb', [])"
  using syn_flow
  by (auto simp: serve_packet_def pick_def refresh_def one_backend_def open_lb_def new_lb_def Let_def
      fresh_entry_def answer_eps_def id_for_def reconcile_endpoints_def)

text \<open>An evaluator with the documented behaviour, for concrete inputs.\<close>

fun eval_rule :: "(bytes \<rightharpoonup> bytes) \<Rightarrow> bytes \<Rightarrow> 32 word \<Rightarrow> nft_expr list \<Rightarrow> (nat \<Rightarrow> byte) \<Rightarrow> nat_verdict option" where
  "eval_rule eps pkt m [] regs = None"
| "eval_rule eps pkt m (e # es) regs =
     (case e of
        Payload d off n \<Rightarrow> eval_rule eps pkt m es (store d (slice off n pkt) regs)
      | Bitwise s d n msk xr \<Rightarrow> eval_rule eps pkt m es (store d (map2 xor (map2 and (load s n regs) msk) xr) regs)
      | CmpEq s v \<Rightarrow> if load s (length v) regs = v then eval_rule eps pkt m es regs else None
      | CmpNeq s v \<Rightarrow> if load s (length v) regs \<noteq> v then eval_rule eps pkt m es regs else None
      | MetaMark d \<Rightarrow> eval_rule eps pkt m es (store d (native_mark m) regs)
      | LookupEps s d \<Rightarrow> (case eps (load s 4 regs) of None \<Rightarrow> None | Some v \<Rightarrow> eval_rule eps pkt m es (store d v regs))
      | DestNat a p \<Rightarrow> Some (DnatTo (load a 16 regs) (be_val (load p 2 regs)))
      | QueueTo n \<Rightarrow> Some (ToQueue n))"

fun eval_chain :: "(bytes \<rightharpoonup> bytes) \<Rightarrow> bytes \<Rightarrow> 32 word \<Rightarrow> nft_expr list list \<Rightarrow> nat_verdict" where
  "eval_chain eps pkt m [] = Accept"
| "eval_chain eps pkt m (r # rs) = (case eval_rule eps pkt m r (\<lambda>_. 0) of Some v \<Rightarrow> v | None \<Rightarrow> eval_chain eps pkt m rs)"

interpretation evaluator: nf_tables eval_rule eval_chain
  by unfold_locales simp_all

lemma syn_in_cidr: "map2 and (slice 24 16 syn_packet) (replicate 16 0) = (replicate 16 0 :: bytes)"
proof -
  have "map2 and (xs :: bytes) (replicate (length xs) 0) = replicate (length xs) 0" for xs
    by (induction xs) simp_all
  moreover have "length (slice 24 16 syn_packet) = 16" by (simp add: syn_packet_def)
  ultimately show ?thesis by metis
qed

lemma flow_reaches_its_endpoint_witness:
  "eval_chain (eps_map open_lb) syn_packet 0 (base_rules open_lb) = ToQueue 0
   \<and> (\<exists>ent lb1. refresh 0 0 one_backend syn_vip 443 ''tcp'' open_lb = Inr (ent, lb1, []) \<and>
       (\<forall>a. parse_ip (ep_addr (turn ent 0)) = Some a \<longrightarrow>
          eval_chain (eps_map (fst (snd (serve_packet 0 0 one_backend NftOk (Some syn_packet) open_lb)))) syn_packet 1 (base_rules open_lb)
            = DnatTo a (nat (ep_port (turn ent 0) mod 65536))))"
proof -
  have s: "serve_packet 0 0 one_backend NftOk (Some syn_packet) (serve_flows [] (new_lb (replicate 16 0) (replicate 16 0)))
      = (RepeatMarked 1, fst (snd (serve_packet 0 0 one_backend NftOk (Some syn_packet) open_lb)), [])"
    using syn_served by (auto simp: open_lb_def)
  have f: "parse_flow syn_packet = Some (syn_vip, 443, ''tcp'')" using syn_flow by (auto simp: syn_vip_def)
  show ?thesis
    using flow_reaches_its_endpoint [OF evaluator.nf_tables_axioms _ _ syn_in_cidr f s]
    by (simp add: open_lb_def)
qed

text \<open>two flows share a cache entry only when virtual address, port and protocol all agree (the
  colons of IPv6 addresses do not confuse the key).\<close>

theorem cache_key_separates:
  assumes "proto \<in> {''tcp'', ''udp''}" and "proto' \<in> {''tcp'', ''udp''}"
  shows "cache_key vip port proto = cache_key vip' port' proto' \<longleftrightarrow> vip = vip' \<and> port = port' \<and> proto = proto'"
  using assms cache_key_inj [of proto proto' vip port vip' port'] by auto

lemma cache_key_separates_witness:
  "cache_key ''fd00::1'' 80 ''tcp'' = cache_key ''fd00::1'' 80 ''udp''
   \<longleftrightarrow> ''fd00::1'' = ''fd00::1'' \<and> (80 :: int) = 80 \<and> ''tcp'' = ''udp''"
  by (rule cache_key_separates) simp_all

end
