(* ===== verification/Agent_Services.thy ===== *)
theory Agent_Services imports LB_Props begin

text \<open>
  The agent's half of the service protocol (\<^verbatim>\<open>poc/agent/services.go\<close>): resolving a ClusterIP query
  from the watch caches.  \<open>agent_view\<close> is what \<^verbatim>\<open>resolveService\<close> reads: whether there is an
  apiserver client, whether the caches are synced, the listers' contents (and their error, if
  any), and the bootstrap VIPs with the address and stopping flag of their VM.
\<close>

subsection \<open>The watch caches\<close>

record svc_port =
  sp_name :: string
  sp_port :: int
  sp_proto :: string

record service =
  sv_ns :: string
  sv_name :: string
  sv_ip :: string
  sv_ips :: "string list"
  sv_ports :: "svc_port list"

record slice_port =
  pt_name :: "string option"
  pt_proto :: "string option"
  pt_port :: "int option"

record slice_ep =
  se_ready :: "bool option"
  se_addrs :: "string list"

record ep_slice =
  sl_ns :: string
  sl_svc :: string
  sl_type :: string
  sl_ports :: "slice_port list"
  sl_eps :: "slice_ep list"

record agent_view =
  has_client :: bool
  caches_synced :: bool
  services :: "service list"
  services_err :: "string option"
  slices :: "ep_slice list"
  slices_err :: "string option"
  static_vip :: "string \<Rightarrow> (string \<times> bool) option"

subsection \<open>Resolving\<close>

definition cluster_ip_matches :: "service \<Rightarrow> string \<Rightarrow> bool" where
  "cluster_ip_matches svc vip = (sv_ip svc = vip \<or> list_ex (\<lambda>ip. ip = vip) (sv_ips svc))"

text \<open>The port of one slice: the first port of that name and protocol; 0 when there is none.\<close>

definition port_matches :: "string \<Rightarrow> string \<Rightarrow> slice_port \<Rightarrow> bool" where
  "port_matches port_name proto p =
     ((case pt_name p of None \<Rightarrow> [] | Some n \<Rightarrow> n) = port_name
      \<and> (case pt_proto p of None \<Rightarrow> True | Some pr \<Rightarrow> equal_fold pr proto))"

definition slice_port_of :: "string \<Rightarrow> string \<Rightarrow> ep_slice \<Rightarrow> int" where
  "slice_port_of port_name proto sl =
     (case find (port_matches port_name proto) (sl_ports sl) of
        None \<Rightarrow> 0
      | Some p \<Rightarrow> (case pt_port p of None \<Rightarrow> 0 | Some n \<Rightarrow> n))"

definition ready_addrs :: "ep_slice \<Rightarrow> string list" where
  "ready_addrs sl = map (\<lambda>e. hd (se_addrs e))
     (filter (\<lambda>e. se_ready e \<noteq> Some False \<and> se_addrs e \<noteq> []) (sl_eps sl))"

definition add_slice :: "string \<Rightarrow> string \<Rightarrow> string list \<times> int \<Rightarrow> ep_slice \<Rightarrow> string list \<times> int" where
  "add_slice port_name proto acc sl =
     (if sl_type sl \<noteq> ''IPv6'' then acc
      else let p = slice_port_of port_name proto sl
           in if p = 0 then acc else (fst acc @ ready_addrs sl, p))"

definition svc_slices :: "agent_view \<Rightarrow> service \<Rightarrow> ep_slice list" where
  "svc_slices v svc = filter (\<lambda>sl. sl_ns sl = sv_ns svc \<and> sl_svc sl = sv_name svc) (slices v)"

definition endpoints_for :: "agent_view \<Rightarrow> service \<Rightarrow> string \<Rightarrow> string \<Rightarrow> string + (string list \<times> int)" where
  "endpoints_for v svc port_name proto =
     (case slices_err v of
        Some e \<Rightarrow> Inl e
      | None \<Rightarrow>
          let (eps, target) = foldl (add_slice port_name proto) ([], 0) (svc_slices v svc)
          in if target = 0
             then Inl (''no endpointslice yet for '' @ sv_ns svc @ ''/'' @ sv_name svc)
             else Inr (eps, target))"

definition error_answer :: "string \<Rightarrow> int \<Rightarrow> svc_answer" where
  "error_answer e t = \<lparr>a_endpoints = [], a_target = 0, a_ips = [], a_ttl = t, a_error = e\<rparr>"

definition ips_answer :: "string list \<Rightarrow> svc_answer" where
  "ips_answer ips = \<lparr>a_endpoints = [], a_target = 0, a_ips = ips, a_ttl = 5, a_error = []\<rparr>"

definition eps_answer :: "string list \<Rightarrow> int \<Rightarrow> int \<Rightarrow> svc_answer" where
  "eps_answer eps target t = \<lparr>a_endpoints = eps, a_target = target, a_ips = [], a_ttl = t, a_error = []\<rparr>"

definition resolve_service_name :: "agent_view \<Rightarrow> svc_query \<Rightarrow> svc_answer" where
  "resolve_service_name v q =
     (let ns = (if q_ns q = [] then ''default'' else q_ns q)
      in case find (\<lambda>s. sv_ns s = ns \<and> sv_name s = q_name q) (services v) of
           None \<Rightarrow> error_answer (''service '' @ q_name q @ '' not found'') 5
         | Some svc \<Rightarrow>
             ips_answer (if sv_ips svc = [] \<and> sv_ip svc \<noteq> [] \<and> sv_ip svc \<noteq> ''None''
                         then [sv_ip svc] else sv_ips svc))"

definition svc_port_matches :: "int \<Rightarrow> string \<Rightarrow> svc_port \<Rightarrow> bool" where
  "svc_port_matches port proto p = (sp_port p = port \<and> (sp_proto p = proto \<or> sp_proto p = []))"

definition resolve_on_service :: "agent_view \<Rightarrow> svc_query \<Rightarrow> string \<Rightarrow> service \<Rightarrow> svc_answer" where
  "resolve_on_service v q proto svc =
     (case find (svc_port_matches (q_port q) proto) (sv_ports svc) of
        None \<Rightarrow> error_answer ''no matching service port'' 0
      | Some p \<Rightarrow>
          (case endpoints_for v svc (sp_name p) proto of
             Inl e \<Rightarrow> error_answer e 1
           | Inr (eps, target) \<Rightarrow> eps_answer eps target (if eps = [] then 5 else 30)))"

definition query_proto :: "svc_query \<Rightarrow> string" where
  "query_proto q = (let p = to_upper (q_proto q) in if p = [] then ''TCP'' else p)"

definition resolve_live :: "agent_view \<Rightarrow> svc_query \<Rightarrow> svc_answer" where
  "resolve_live v q =
     (if \<not> has_client v then error_answer ''apiserver not available yet'' 1
      else if \<not> caches_synced v then error_answer ''watch caches not synced yet'' 1
      else if q_name q \<noteq> [] then resolve_service_name v q
      else case services_err v of
             Some e \<Rightarrow> error_answer e 0
           | None \<Rightarrow>
               (case find (\<lambda>s. cluster_ip_matches s (q_vip q)) (services v) of
                  None \<Rightarrow> error_answer (''no service with ClusterIP '' @ q_vip q) 0
                | Some svc \<Rightarrow> resolve_on_service v q (query_proto q) svc))"

definition resolve_service :: "agent_view \<Rightarrow> svc_query \<Rightarrow> svc_answer" where
  "resolve_service v q =
     (case (if q_vip q \<noteq> [] then static_vip v (q_vip q) else None) of
        Some (ip, stopping) \<Rightarrow>
          if ip = [] \<or> stopping then error_answer ''bootstrap VIP backend not ready'' 1
          else eps_answer [ip] (q_port q) 5
      | None \<Rightarrow> resolve_live v q)"

text \<open>\<^verbatim>\<open>serveSvcConn\<close>: one answer per line, in order; a line that is not a query gets an error.\<close>

definition serve_svc_conn :: "(string \<Rightarrow> string + svc_query) \<Rightarrow> (nat \<Rightarrow> agent_view) \<Rightarrow> string list \<Rightarrow> svc_answer list" where
  "serve_svc_conn decode views ls =
     map (\<lambda>(i, l). case decode l of
                     Inl e \<Rightarrow> error_answer (''bad query: '' @ e) 0
                   | Inr q \<Rightarrow> resolve_service (views i) q) (enumerate 0 ls)"

subsection \<open>What an answered endpoint is\<close>

text \<open>
  What the views show, in the terms of the API objects alone.  A slice lists a port for a service
  port when it has a port of that name (none for the unnamed one) and protocol; an endpoint of a
  slice is ready unless its condition says otherwise, and its address is the first one.
\<close>

definition ip_proto :: "string \<Rightarrow> string" where
  "ip_proto proto = (if proto = ''udp'' then ''UDP'' else ''TCP'')"

definition slice_of :: "agent_view \<Rightarrow> service \<Rightarrow> ep_slice \<Rightarrow> bool" where
  "slice_of v svc sl \<longleftrightarrow> sl \<in> set (slices v) \<and> sl_ns sl = sv_ns svc \<and> sl_svc sl = sv_name svc \<and> sl_type sl = ''IPv6''"

definition lists_port :: "ep_slice \<Rightarrow> string \<Rightarrow> string \<Rightarrow> int \<Rightarrow> bool" where
  "lists_port sl name proto n \<longleftrightarrow> n \<noteq> 0 \<and> (\<exists>pt \<in> set (sl_ports sl). pt_port pt = Some n
     \<and> (pt_name pt = Some name \<or> pt_name pt = None \<and> name = [])
     \<and> (\<forall>pr. pt_proto pt = Some pr \<longrightarrow> to_lower pr = proto))"

definition lists_ready :: "ep_slice \<Rightarrow> string \<Rightarrow> bool" where
  "lists_ready sl a \<longleftrightarrow> (\<exists>e rest. e \<in> set (sl_eps sl) \<and> se_addrs e = a # rest \<and> (se_ready e = None \<or> se_ready e = Some True))"

text \<open>
  An endpoint is ready for a flow: it is the running VM behind a bootstrap VIP, at the port of the
  flow; or the flow's address and port belong to a service, one of whose IPv6 slices lists the
  address as ready and a port for that service port, and the endpoint's port is such a port of that
  slice or of another slice of the same service.
\<close>

definition ready_in :: "agent_view \<Rightarrow> string \<Rightarrow> int \<Rightarrow> string \<Rightarrow> endpoint \<Rightarrow> bool" where
  "ready_in v vip port proto ep \<longleftrightarrow>
     (static_vip v vip = Some (ep_addr ep, False) \<and> ep_addr ep \<noteq> [] \<and> ep_port ep = port)
     \<or> (\<exists>svc p sl n sl'. svc \<in> set (services v) \<and> (sv_ip svc = vip \<or> vip \<in> set (sv_ips svc))
          \<and> p \<in> set (sv_ports svc) \<and> sp_port p = port \<and> (sp_proto p = ip_proto proto \<or> sp_proto p = [])
          \<and> slice_of v svc sl \<and> lists_ready sl (ep_addr ep) \<and> lists_port sl (sp_name p) proto n
          \<and> slice_of v svc sl' \<and> lists_port sl' (sp_name p) proto (ep_port ep))"

lemma slice_port_lists:
  assumes "slice_port_of pn P sl \<noteq> 0" and "to_lower P = proto"
  shows "lists_port sl pn proto (slice_port_of pn P sl)"
proof -
  obtain p where p: "find (port_matches pn P) (sl_ports sl) = Some p" "pt_port p = Some (slice_port_of pn P sl)"
    using assms(1) by (auto simp: slice_port_of_def split: option.splits)
  then have "p \<in> set (sl_ports sl) \<and> port_matches pn P p" by (simp add: find_some)
  then show ?thesis using p(2) assms unfolding lists_port_def port_matches_def
    by (auto simp: equal_fold_def split: option.splits intro!: bexI [of _ p])
qed

lemma ready_addrs_lists: "a \<in> set (ready_addrs sl) \<Longrightarrow> lists_ready sl a"
  unfolding ready_addrs_def lists_ready_def by (auto simp: neq_Nil_conv) (metis (full_types) not_None_eq)+

lemma foldl_add_slice:
  "foldl (add_slice pn proto) (eps0, t0) sls = (eps, t) \<Longrightarrow>
     set eps = set eps0 \<union> (\<Union>sl \<in> {sl \<in> set sls. sl_type sl = ''IPv6'' \<and> slice_port_of pn proto sl \<noteq> 0}. set (ready_addrs sl))
     \<and> (t = t0 \<or> (\<exists>sl \<in> set sls. sl_type sl = ''IPv6'' \<and> t = slice_port_of pn proto sl \<and> t \<noteq> 0))"
proof (induction sls arbitrary: eps0 t0)
  case (Cons sl sls)
  obtain e1 t1 where a: "add_slice pn proto (eps0, t0) sl = (e1, t1)" by force
  with Cons.prems have "foldl (add_slice pn proto) (e1, t1) sls = (eps, t)" by simp
  from Cons.IH [OF this] a show ?case
    by (auto simp: add_slice_def Let_def split: if_splits)
qed simp

lemma query_proto_flow:
  assumes "proto \<in> {''tcp'', ''udp''}"
  shows "query_proto (flow_query vip port proto) = ip_proto proto" "to_lower (ip_proto proto) = proto"
proof -
  have "to_upper ''tcp'' = ''TCP''" "to_upper ''udp'' = ''UDP''" "to_lower ''TCP'' = ''tcp''" "to_lower ''UDP'' = ''udp''"
    by code_simp+
  then show "query_proto (flow_query vip port proto) = ip_proto proto" "to_lower (ip_proto proto) = proto"
    using assms by (auto simp: query_proto_def flow_query_def ip_proto_def)
qed

text \<open>What answers a query of a flow with endpoints: the bootstrap VIP's VM, or a service's slices.\<close>

lemma resolve_flow_cases:
  assumes "a_error (resolve_service v (flow_query vip port proto)) = []"
    and "ep \<in> set (answer_eps (resolve_service v (flow_query vip port proto)))"
  obtains (Static) ip where "static_vip v vip = Some (ip, False)" "ip \<noteq> []"
      "resolve_service v (flow_query vip port proto) = eps_answer [ip] port 5"
  | (Live) svc p eps target where "svc \<in> set (services v)" "cluster_ip_matches svc vip"
      "p \<in> set (sv_ports svc)" "svc_port_matches port (query_proto (flow_query vip port proto)) p"
      "endpoints_for v svc (sp_name p) (query_proto (flow_query vip port proto)) = Inr (eps, target)"
      "resolve_service v (flow_query vip port proto) = eps_answer eps target (if eps = [] then 5 else 30)"
proof -
  let ?q = "flow_query vip port proto"
  have q: "q_vip ?q = vip" "q_port ?q = port" "q_name ?q = []" by (simp_all add: flow_query_def)
  show ?thesis
  proof (cases "if vip \<noteq> [] then static_vip v vip else None")
    case (Some r)
    obtain ip st where r: "r = (ip, st)" by force
    with Some have sv: "static_vip v vip = Some (ip, st)" by (simp split: if_splits)
    have "ip \<noteq> [] \<and> \<not> st \<and> resolve_service v ?q = eps_answer [ip] port 5"
      using Some r assms(1) by (auto simp: resolve_service_def error_answer_def q split: if_splits)
    then show ?thesis using that(1) sv by auto
  next
    case None
    then have live: "resolve_service v ?q = resolve_live v ?q" by (auto simp: resolve_service_def q split: if_splits)
    have ne: "resolve_live v ?q \<noteq> error_answer e t" for e t
      using assms(2) live by (auto simp: error_answer_def answer_eps_def)
    have "(\<exists>e t. resolve_live v ?q = error_answer e t) \<or> (\<exists>svc. find (\<lambda>s. cluster_ip_matches s vip) (services v) = Some svc
        \<and> resolve_live v ?q = resolve_on_service v ?q (query_proto ?q) svc)"
      unfolding resolve_live_def q by (simp split: option.split) blast
    then obtain svc where svc: "find (\<lambda>s. cluster_ip_matches s vip) (services v) = Some svc"
        and r: "resolve_live v ?q = resolve_on_service v ?q (query_proto ?q) svc" using ne by blast
    have "(\<exists>e t. resolve_on_service v ?q (query_proto ?q) svc = error_answer e t)
        \<or> (\<exists>p eps target. find (svc_port_matches port (query_proto ?q)) (sv_ports svc) = Some p
          \<and> endpoints_for v svc (sp_name p) (query_proto ?q) = Inr (eps, target)
          \<and> resolve_on_service v ?q (query_proto ?q) svc = eps_answer eps target (if eps = [] then 5 else 30))"
      unfolding resolve_on_service_def q by (simp split: option.split sum.split) blast
    then obtain p eps target where p: "find (svc_port_matches port (query_proto ?q)) (sv_ports svc) = Some p"
        and ef: "endpoints_for v svc (sp_name p) (query_proto ?q) = Inr (eps, target)"
        and a: "resolve_live v ?q = eps_answer eps target (if eps = [] then 5 else 30)" using ne r by metis
    from find_some [OF svc] find_some [OF p] show ?thesis
      using that(2) [OF _ _ _ _ ef] a live by simp
  qed
qed

lemma resolve_service_ready:
  assumes "proto \<in> {''tcp'', ''udp''}" and "a_error (resolve_service v (flow_query vip port proto)) = []"
    and "ep \<in> set (answer_eps (resolve_service v (flow_query vip port proto)))"
  shows "ready_in v vip port proto ep"
  using assms(2,3)
proof (cases rule: resolve_flow_cases)
  case (Static ip)
  then show ?thesis using assms(3) by (auto simp: ready_in_def answer_eps_def eps_answer_def)
next
  case (Live svc p eps target)
  note P = query_proto_flow(1) [OF assms(1), of vip port] query_proto_flow(2) [OF assms(1)]
  let ?P = "ip_proto proto"
  have fold: "foldl (add_slice (sp_name p) ?P) ([], 0) (svc_slices v svc) = (eps, target)" and t: "target \<noteq> 0"
    using Live(5) P by (auto simp: endpoints_for_def Let_def split: option.splits prod.splits if_splits)
  have ep: "ep_addr ep \<in> set eps" "ep_port ep = target"
    using assms(3) Live(6) by (auto simp: answer_eps_def eps_answer_def)
  note f = foldl_add_slice [OF fold]
  obtain sl where sl: "sl \<in> set (svc_slices v svc)" "sl_type sl = ''IPv6''" "ep_addr ep \<in> set (ready_addrs sl)"
      "slice_port_of (sp_name p) ?P sl \<noteq> 0" using f ep(1) by auto
  obtain sl' where sl': "sl' \<in> set (svc_slices v svc)" "sl_type sl' = ''IPv6''" "target = slice_port_of (sp_name p) ?P sl'"
    using f t by blast
  have "slice_of v svc sl" "slice_of v svc sl'" using sl sl' by (auto simp: slice_of_def svc_slices_def)
  moreover have "lists_port sl (sp_name p) proto (slice_port_of (sp_name p) ?P sl)" "lists_port sl' (sp_name p) proto (ep_port ep)"
    using slice_port_lists [OF sl(4) P(2)] slice_port_lists [OF _ P(2), of "sp_name p" sl'] sl'(3) t ep(2) by simp_all
  moreover have "sv_ip svc = vip \<or> vip \<in> set (sv_ips svc)" using Live(2) by (auto simp: cluster_ip_matches_def list_ex_iff)
  moreover have "sp_port p = port \<and> (sp_proto p = ?P \<or> sp_proto p = [])" using Live(4) P by (simp add: svc_port_matches_def)
  ultimately show ?thesis using Live(1,3) ready_addrs_lists [OF sl(3)] unfolding ready_in_def by blast
qed

text \<open>The agent is the endpoint source of its guests, over a history of views; what it answers is kept
  for at most thirty seconds.\<close>

definition ask :: "(int \<Rightarrow> agent_view) \<Rightarrow> int \<Rightarrow> svc_query \<Rightarrow> string + svc_answer" where
  "ask views now q = Inr (resolve_service (views now) q)"

definition max_answer_age :: int where
  "max_answer_age = 30 * 1000000000"

lemma resolve_service_age:
  assumes "a_error (resolve_service v (flow_query vip port proto)) = []"
    and "ep \<in> set (answer_eps (resolve_service v (flow_query vip port proto)))"
  shows "answer_ttl (resolve_service v (flow_query vip port proto)) \<le> max_answer_age"
  using assms by (cases rule: resolve_flow_cases) (simp_all add: answer_ttl_def eps_answer_def max_answer_age_def Let_def)

interpretation agent_source: endpoint_source "ask views" "\<lambda>t. ready_in (views t)" max_answer_age for views
  by unfold_locales (auto simp: ask_def simp del: insert_iff intro: resolve_service_ready resolve_service_age)

subsection \<open>Properties\<close>

text \<open>Every packet queued since boot, in order, with the clock before and after its query and the map's
  outcome: the agent answers from its views at that time.\<close>

definition asked_views :: "(int \<Rightarrow> agent_view) \<Rightarrow> (int \<times> int \<times> nft_result \<times> bytes option) list
    \<Rightarrow> (int \<times> int \<times> (svc_query \<Rightarrow> string + svc_answer) \<times> nft_result \<times> bytes option) list" where
  "asked_views views evs = map (\<lambda>(now, later, nft, payload). (now, later, ask views now, nft, payload)) evs"

definition query_times :: "(int \<times> int \<times> nft_result \<times> bytes option) list \<Rightarrow> (int \<times> int) set" where
  "query_times evs = (\<lambda>(now, later, _). (now, later)) ` set evs"

lemma asked_views_backed:
  "lb_ok lb \<Longrightarrow> agent_source.cache_backed views asked lb \<Longrightarrow> unat (next_id lb) + length evs < 2 ^ 32 \<Longrightarrow> query_times evs \<subseteq> asked
   \<Longrightarrow> agent_source.cache_backed views asked (serve_flows (asked_views views evs) lb)"
proof (induction evs arbitrary: lb)
  case (Cons ev evs)
  obtain now later nft payload where ev: "ev = (now, later, nft, payload)" by (cases ev)
  let ?lb = "fst (snd (serve_packet now later (ask views now) nft payload lb))"
  have b: "unat (next_id lb) + 1 < 2 ^ 32" using Cons.prems(3) by simp
  have "insert (now, later) asked = asked" using Cons.prems(4) ev by (auto simp: query_times_def)
  then have "agent_source.cache_backed views asked ?lb"
    using agent_source.serve_backed [OF Cons.prems(1) b Cons.prems(2), of now later nft payload] by simp
  moreover have "query_times evs \<subseteq> asked" using Cons.prems(4) by (simp add: query_times_def)
  ultimately have "agent_source.cache_backed views asked (serve_flows (asked_views views evs) ?lb)"
    using Cons.IH [of ?lb] serve_lb_ok [OF Cons.prems(1) b, of now later "ask views now" nft payload] Cons.prems(3) by simp
  then show ?case by (simp add: ev asked_views_def)
qed (simp add: asked_views_def)


definition snapshot :: agent_view where
  "snapshot = \<lparr>has_client = False, caches_synced = False, services = [], services_err = None, slices = [],
     slices_err = None, static_vip = (\<lambda>vip. if vip = syn_vip then Some (''fd00::7'', False) else None)\<rparr>"

lemma syn_parsed: "parse_flow syn_packet = Some (syn_vip, 443, ''tcp'')"
  using syn_flow by (auto simp: syn_vip_def)

definition after_syn :: svc_lb where
  "after_syn = fst (snd (serve_packet 0 0 (ask (\<lambda>_. snapshot) 0) NftOk (Some syn_packet) open_lb))"

lemma syn_answered: "serve_packet 0 0 (ask (\<lambda>_. snapshot) 0) NftOk (Some syn_packet)
    (serve_flows (asked_views (\<lambda>_. snapshot) []) (new_lb (replicate 16 0) (replicate 16 0))) = (RepeatMarked 1, after_syn, [])"
proof -
  have vip: "syn_vip \<noteq> []"
  proof -
    have "length (slice 24 16 syn_packet) = 16" by (simp add: syn_packet_def)
    then have "show_ip (slice 24 16 syn_packet) \<noteq> []" by (rule show_ip_nonempty)
    then show ?thesis using syn_parsed by (auto simp: parse_flow_def split: if_splits)
  qed
  have r: "resolve_service snapshot \<lparr>q_vip = syn_vip, q_port = 443, q_proto = ''tcp'', q_name = [], q_ns = []\<rparr>
      = eps_answer [''fd00::7''] 443 5"
    using vip by (simp add: resolve_service_def snapshot_def)
  have "fst (serve_packet 0 0 (ask (\<lambda>_. snapshot) 0) NftOk (Some syn_packet) open_lb) = RepeatMarked 1
      \<and> snd (snd (serve_packet 0 0 (ask (\<lambda>_. snapshot) 0) NftOk (Some syn_packet) open_lb)) = []"
    by (simp add: serve_packet_def syn_parsed pick_def refresh_def ask_def r open_lb_def new_lb_def Let_def
      fresh_entry_def answer_eps_def eps_answer_def id_for_def reconcile_endpoints_def)
  then show ?thesis
    unfolding after_syn_def open_lb_def asked_views_def by simp (metis prod.collapse)
qed


definition resolving_slices :: "agent_view \<Rightarrow> service \<Rightarrow> string \<Rightarrow> string \<Rightarrow> ep_slice list" where
  "resolving_slices v svc pn proto =
     filter (\<lambda>sl. sl_type sl = ''IPv6'' \<and> slice_port_of pn proto sl \<noteq> 0) (svc_slices v svc)"

lemma foldl_add_slice_eq:
  "foldl (add_slice pn proto) (eps, t) sls =
     (let rs = filter (\<lambda>sl. sl_type sl = ''IPv6'' \<and> slice_port_of pn proto sl \<noteq> 0) sls
      in (eps @ concat (map ready_addrs rs), if rs = [] then t else slice_port_of pn proto (last rs)))"
  by (induction sls arbitrary: eps t) (auto simp: add_slice_def Let_def)

text \<open>\<^verbatim>\<open>endpointsFor\<close> in full: the ready addresses of all IPv6 slices that resolve the port, in
  order, together with the port of the last of them only; an error when no slice resolves it.  So
  with slices of different resolved ports, addresses of the earlier ones are paired with the port
  of the last.\<close>

theorem endpoints_for_spec:
  assumes "slices_err v = None"
  shows "endpoints_for v svc pn proto =
    (let rs = resolving_slices v svc pn proto
     in if rs = [] then Inl (''no endpointslice yet for '' @ sv_ns svc @ ''/'' @ sv_name svc)
        else Inr (concat (map ready_addrs rs), slice_port_of pn proto (last rs)))"
proof -
  have "slice_port_of pn proto (last rs) \<noteq> 0"
    if "rs \<noteq> []" "rs = resolving_slices v svc pn proto" for rs
    using that last_in_set [of rs] by (auto simp: resolving_slices_def)
  then show ?thesis
    using assms by (auto simp: endpoints_for_def foldl_add_slice_eq resolving_slices_def Let_def)
qed

definition web :: service where
  "web = \<lparr>sv_ns = ''default'', sv_name = ''web'', sv_ip = ''fd00::80'', sv_ips = [], sv_ports = []\<rparr>"

definition web_slice :: "int \<Rightarrow> string \<Rightarrow> ep_slice" where
  "web_slice p a = \<lparr>sl_ns = ''default'', sl_svc = ''web'', sl_type = ''IPv6'',
     sl_ports = [\<lparr>pt_name = None, pt_proto = None, pt_port = Some p\<rparr>],
     sl_eps = [\<lparr>se_ready = Some True, se_addrs = [a]\<rparr>]\<rparr>"

definition mixed_view :: agent_view where
  "mixed_view = snapshot\<lparr>slices := [web_slice 8080 ''fd00::1'', web_slice 9090 ''fd00::2'']\<rparr>"

lemma endpoints_for_spec_witness:
  "endpoints_for mixed_view web [] ''TCP'' = Inr ([''fd00::1'', ''fd00::2''], 9090)"
proof -
  have "slices_err mixed_view = None" by (simp add: mixed_view_def snapshot_def)
  moreover have "slice_port_of [] ''TCP'' (web_slice 8080 ''fd00::1'') = 8080"
      "slice_port_of [] ''TCP'' (web_slice 9090 ''fd00::2'') = 9090"
    by (simp_all add: slice_port_of_def web_slice_def port_matches_def)
  then have "resolving_slices mixed_view web [] ''TCP'' = [web_slice 8080 ''fd00::1'', web_slice 9090 ''fd00::2'']"
    by (simp add: resolving_slices_def svc_slices_def mixed_view_def web_def) (simp add: web_slice_def)
  moreover have "ready_addrs (web_slice p a) = [a]" for p a by (simp add: ready_addrs_def web_slice_def)
  ultimately show ?thesis
    using endpoints_for_spec [of mixed_view web "[]" "''TCP''"]
      \<open>slice_port_of [] ''TCP'' (web_slice 9090 ''fd00::2'') = 9090\<close> by simp
qed

end
