(* ===== verification/Kube_Types.thy ===== *)
theory Kube_Types imports Go_Strings begin

text \<open>
  The parts of the Kubernetes API objects the agent reads and writes (\<^verbatim>\<open>k8s.io/api/core/v1\<close>): pods
  with their containers, probes and volumes, and the container statuses and phases it reports.
  Only fields the program uses are kept; resource quantities are the integers \<^verbatim>\<open>Value()\<close> gives.
\<close>

datatype probe_handler =
    ExecProbe "string list"
  | HttpGet int string string
  | TcpSocket int
  | NoHandler

record probe =
  pr_handler :: probe_handler
  pr_delay :: int
  pr_period :: int
  pr_timeout :: int
  pr_success :: int
  pr_failure :: int

record vol_mount =
  vm_name :: string
  vm_path :: string
  vm_ro :: bool
  vm_subpath :: bool

record env_var =
  ev_name :: string
  ev_value :: string
  ev_from :: bool

record kport =
  cp_name :: string
  cp_port :: int
  cp_host :: int
  cp_proto :: string

record kcontainer =
  kc_name :: string
  kc_image :: string
  kc_command :: "string list"
  kc_args :: "string list"
  kc_workdir :: string
  kc_env :: "env_var list"
  kc_tty :: bool
  kc_mounts :: "vol_mount list"
  kc_mem :: "int option"
  kc_cpu :: "int option"
  kc_ports :: "kport list"
  kc_startup :: "probe option"
  kc_readiness :: "probe option"
  kc_liveness :: "probe option"

datatype vol_source =
    HostPath string string
  | EmptyDir
  | ConfigMapVol
  | SecretVol
  | ProjectedVol
  | OtherVol

record kvolume =
  kv_name :: string
  kv_source :: vol_source

datatype phase = PodPending | PodRunning | PodSucceeded | PodFailed

record kpod =
  kp_uid :: string
  kp_ns :: string
  kp_name :: string
  kp_annot :: "string \<rightharpoonup> string"
  kp_policy :: string
  kp_inits :: "kcontainer list"
  kp_mains :: "kcontainer list"
  kp_volumes :: "kvolume list"
  kp_deleting :: bool
  kp_del_grace :: "int option"
  kp_term_grace :: "int option"
  kp_phase :: "phase option"

datatype c_state =
    CWaiting string string
  | CRunning int
  | CTerminated int string string int int

record c_status =
  k_name :: string
  k_image :: string
  k_state :: c_state
  k_ready :: bool
  k_restarts :: nat

text \<open>\<^verbatim>\<open>allContainers\<close> and \<^verbatim>\<open>podGracePeriod\<close> of the agent, and the policy it falls back to.\<close>

definition all_containers :: "kpod \<Rightarrow> kcontainer list" where
  "all_containers p = kp_inits p @ kp_mains p"

definition pod_grace_period :: "kpod \<Rightarrow> int" where
  "pod_grace_period p =
     (case kp_del_grace p of
        Some g \<Rightarrow> g
      | None \<Rightarrow> (case kp_term_grace p of Some g \<Rightarrow> g | None \<Rightarrow> 30))"

definition policy_of :: "kpod \<Rightarrow> string" where
  "policy_of p = (if kp_policy p = [] then ''Always'' else kp_policy p)"

definition a_container :: "string \<Rightarrow> kcontainer" where
  "a_container name =
     \<lparr>kc_name = name, kc_image = ''img'', kc_command = [''/bin/true''], kc_args = [], kc_workdir = [], kc_env = [],
      kc_tty = False, kc_mounts = [], kc_mem = None, kc_cpu = None, kc_ports = [], kc_startup = None,
      kc_readiness = None, kc_liveness = None\<rparr>"

definition a_pod :: "kcontainer list \<Rightarrow> kcontainer list \<Rightarrow> kpod" where
  "a_pod is ms =
     \<lparr>kp_uid = ''11111111-2222-3333-4444-555555555555'', kp_ns = ''default'', kp_name = ''web'', kp_annot = Map.empty,
      kp_policy = [], kp_inits = is, kp_mains = ms, kp_volumes = [], kp_deleting = False, kp_del_grace = None,
      kp_term_grace = None, kp_phase = None\<rparr>"

end
