(* ===== verification/Agent_Status.thy ===== *)
theory Agent_Status imports Supervision Kube_Types begin

text \<open>
  What the agent reports of a pod (\<^verbatim>\<open>poc/agent/status.go\<close>, and the readiness half of \<^verbatim>\<open>setPhase\<close> in
  \<^verbatim>\<open>poc/agent/main.go\<close>): guest statuses become API container statuses and a phase.  The guest's
  report is the \<open>container_status\<close> list of the supervisor; its JSON round trip is not modelled.
\<close>

subsection \<open>Container readiness of a VM\<close>

definition init_ready :: "kpod \<Rightarrow> string \<rightharpoonup> bool" where
  "init_ready pod =
     foldl (\<lambda>m c. m(kc_name c \<mapsto> kc_readiness c = None \<and> kc_startup c = None)) Map.empty (kp_mains pod)"

definition container_ready :: "(string \<rightharpoonup> bool) \<Rightarrow> string \<Rightarrow> bool" where
  "container_ready m name = (m name = Some True)"

text \<open>The new map, and whether the value changed (a missing entry reads as false).\<close>

definition set_container_ready :: "string \<Rightarrow> bool \<Rightarrow> (string \<rightharpoonup> bool) \<Rightarrow> bool \<times> (string \<rightharpoonup> bool)" where
  "set_container_ready name r m = (container_ready m name \<noteq> r, m(name \<mapsto> r))"

subsection \<open>Translating statuses\<close>

definition by_status_name :: "container_status list \<Rightarrow> string \<rightharpoonup> container_status" where
  "by_status_name sts = foldl (\<lambda>m st. m(st_name st \<mapsto> st)) Map.empty sts"

definition crash_prefix :: string where
  "crash_prefix = ''CrashLoopBackOff''"

definition conv_status :: "(string \<rightharpoonup> container_status) \<Rightarrow> (string \<rightharpoonup> bool) \<Rightarrow> kcontainer \<Rightarrow> bool \<Rightarrow> c_status" where
  "conv_status by ready c init =
     (case by (kc_name c) of
        None \<Rightarrow> \<lparr>k_name = kc_name c, k_image = kc_image c, k_state = CWaiting ''ContainerCreating'' [],
                 k_ready = False, k_restarts = 0\<rparr>
      | Some st \<Rightarrow>
          \<lparr>k_name = kc_name c, k_image = kc_image c,
           k_state =
             (case st_state st of
                Running \<Rightarrow> CRunning (st_started st)
              | Terminated \<Rightarrow> CTerminated (st_exit st) (if st_exit st \<noteq> 0 then ''Error'' else ''Completed'')
                                (st_reason st) (st_started st) (st_finished st)
              | Waiting \<Rightarrow> CWaiting (if has_prefix (st_reason st) crash_prefix then crash_prefix
                                     else ''ContainerCreating'') (st_reason st)),
           k_ready =
             (case st_state st of
                Running \<Rightarrow> \<not> init \<and> container_ready ready (kc_name c)
              | Terminated \<Rightarrow> init \<and> st_exit st = 0
              | Waiting \<Rightarrow> False),
           k_restarts = st_restarts st\<rparr>)"

text \<open>Terminated with exit code 0.\<close>

definition completed :: "c_status \<Rightarrow> bool" where
  "completed cs = (case k_state cs of CTerminated code _ _ _ _ \<Rightarrow> code = 0 | _ \<Rightarrow> False)"

definition translate_statuses :: "kpod \<Rightarrow> container_status list \<Rightarrow> (string \<rightharpoonup> bool)
    \<Rightarrow> c_status list \<times> c_status list \<times> phase" where
  "translate_statuses pod sts ready =
     (let by = by_status_name sts;
          ics = map (\<lambda>c. conv_status by ready c True) (kp_inits pod);
          css = map (\<lambda>c. conv_status by ready c False) (kp_mains pod)
      in (ics, css, if list_all completed ics then PodRunning else PodPending))"

definition final_phase :: "c_status list \<Rightarrow> c_status list \<Rightarrow> phase" where
  "final_phase ics css = (if list_all completed (ics @ css) then PodSucceeded else PodFailed)"

definition waiting_statuses :: "kcontainer list \<Rightarrow> string \<Rightarrow> string \<Rightarrow> c_status list" where
  "waiting_statuses cs why msg =
     map (\<lambda>c. \<lparr>k_name = kc_name c, k_image = kc_image c, k_state = CWaiting why msg, k_ready = False, k_restarts = 0\<rparr>) cs"

text \<open>The Ready condition \<^verbatim>\<open>setPhase\<close> writes.\<close>

definition pod_ready :: "phase \<Rightarrow> c_status list \<Rightarrow> bool" where
  "pod_ready ph css = (ph = PodRunning \<and> css \<noteq> [] \<and> list_all k_ready css)"

text \<open>
  \<^verbatim>\<open>pushStatus\<close>: nothing when the guest does not answer; otherwise the digest (here the reported
  value itself) is remembered, and a status is sent only when it differs from the last one.
\<close>

type_synonym pushed = "c_status list \<times> c_status list \<times> phase"

definition push_status :: "kpod \<Rightarrow> container_status list option \<Rightarrow> (string \<rightharpoonup> bool) \<Rightarrow> pushed option
    \<Rightarrow> pushed list \<times> pushed option" where
  "push_status pod answer ready prev =
     (case answer of
        None \<Rightarrow> ([], prev)
      | Some sts \<Rightarrow>
          let now = translate_statuses pod sts ready
          in (if prev = Some now then [] else [now], Some now))"

fun push_many :: "kpod \<Rightarrow> (container_status list option \<times> (string \<rightharpoonup> bool)) list \<Rightarrow> pushed option \<Rightarrow> pushed list" where
  "push_many pod [] prev = []"
| "push_many pod ((answer, ready) # polls) prev =
     (case push_status pod answer ready prev of (out, prev') \<Rightarrow> out @ push_many pod polls prev')"

subsection \<open>Lookup by name\<close>

lemma foldl_by_name: "foldl (\<lambda>m st. m(st_name st \<mapsto> st)) m0 sts = m0 ++ map_of (rev (map (\<lambda>st. (st_name st, st)) sts))"
  by (induction sts arbitrary: m0) (simp_all add: map_add_assoc)

lemma by_status_name_at:
  assumes "distinct (map st_name sts)" and "st \<in> set sts"
  shows "by_status_name sts (st_name st) = Some st"
proof -
  have "distinct (map fst (rev (map (\<lambda>st. (st_name st, st)) sts)))"
    using assms(1) by (simp add: comp_def flip: rev_map)
  then show ?thesis
    using assms(2) by (auto simp: by_status_name_def foldl_by_name)
qed

subsection \<open>The final phase and the guest's exit code\<close>

definition names_match :: "kcontainer list \<Rightarrow> container list \<Rightarrow> bool" where
  "names_match ks cs \<longleftrightarrow> map kc_name ks = map (\<lambda>c. cs_name (spec c)) cs"

lemma completed_conv:
  assumes "by_status_name sts (kc_name k) = Some (status c b)"
  shows "completed (conv_status (by_status_name sts) ready k init) \<longleftrightarrow> state c = Terminated \<and> exit_code c = 0"
  using assms by (cases "state c") (simp_all add: completed_def conv_status_def status_def)

lemma completed_list:
  assumes "names_match ks cs" and "\<And>c. c \<in> set cs \<Longrightarrow> by_status_name sts (cs_name (spec c)) = Some (status c b)"
  shows "list_all completed (map (\<lambda>k. conv_status (by_status_name sts) ready k init) ks)
    \<longleftrightarrow> (\<forall>c \<in> set cs. state c = Terminated \<and> exit_code c = 0)"
proof -
  have len: "length ks = length cs" using assms(1) map_eq_imp_length_eq by (auto simp: names_match_def)
  have name: "kc_name (ks ! i) = cs_name (spec (cs ! i))" if "i < length cs" for i
    using assms(1) that len unfolding names_match_def by (metis nth_map)
  have "completed (conv_status (by_status_name sts) ready (ks ! i) init)
      \<longleftrightarrow> state (cs ! i) = Terminated \<and> exit_code (cs ! i) = 0" if "i < length cs" for i
    using completed_conv [of sts "ks ! i" "cs ! i" b ready init] assms(2) [of "cs ! i"] name [OF that] that by simp
  then show ?thesis using len by (auto simp: list_all_length all_set_conv_all_nth)
qed

lemma final_phase_exit:
  assumes "reachable (new_pod pol is ms) p" and "stage p = PodExit code"
    and "names_match (kp_inits pod) (inits p)" and "names_match (kp_mains pod) (mains p)"
    and "distinct (map kc_name (all_containers pod))"
  shows "(case translate_statuses pod (statuses p) ready of (ics, css, _) \<Rightarrow> final_phase ics css) = PodSucceeded
    \<longleftrightarrow> code = 0"
proof -
  let ?sts = "statuses p"
  have "map st_name ?sts = map kc_name (all_containers pod)"
    using assms(3,4) by (simp add: statuses_def names_match_def all_containers_def status_def comp_def)
  then have d: "distinct (map st_name ?sts)" using assms(5) by simp
  have i: "by_status_name ?sts (cs_name (spec c)) = Some (status c True)" if "c \<in> set (inits p)" for c
    using by_status_name_at [OF d, of "status c True"] that by (simp add: statuses_def status_def)
  have m: "by_status_name ?sts (cs_name (spec c)) = Some (status c False)" if "c \<in> set (mains p)" for c
    using by_status_name_at [OF d, of "status c False"] that by (simp add: statuses_def status_def)
  have "(case translate_statuses pod ?sts ready of (ics, css, _) \<Rightarrow> final_phase ics css) = PodSucceeded
      \<longleftrightarrow> (\<forall>c \<in> set (inits p @ mains p). state c = Terminated \<and> exit_code c = 0)"
    using completed_list [OF assms(3) i, where init = True and ready = ready] completed_list [OF assms(4) m, where init = False and ready = ready]
    by (simp add: translate_statuses_def final_phase_def Let_def ball_Un)
  then show ?thesis using exit_zero_iff [OF assms(1,2)] by simp
qed

subsection \<open>Deduplicated pushes\<close>

fun differ_from :: "'a option \<Rightarrow> 'a list \<Rightarrow> bool" where
  "differ_from prev [] = True"
| "differ_from prev (x # xs) \<longleftrightarrow> prev \<noteq> Some x \<and> differ_from (Some x) xs"

lemma push_many_differ: "differ_from prev (push_many pod polls prev)"
proof (induction polls arbitrary: prev)
  case (Cons poll polls)
  obtain answer ready where "poll = (answer, ready)" by force
  with Cons show ?case by (cases answer) (auto simp: push_status_def Let_def)
qed simp

lemma push_many_last:
  "push_many pod (polls @ [(Some sts, ready)]) prev = out
   \<Longrightarrow> (if out = [] then prev else Some (last out)) = Some (translate_statuses pod sts ready)"
proof (induction polls arbitrary: prev out)
  case Nil
  then show ?case by (auto simp: push_status_def Let_def split: if_splits)
next
  case (Cons poll polls)
  obtain answer r where poll: "poll = (answer, r)" by force
  obtain o1 prev' where p: "push_status pod answer r prev = (o1, prev')" by force
  define rest where "rest = push_many pod (polls @ [(Some sts, ready)]) prev'"
  have out: "out = o1 @ rest" using Cons.prems poll p by (simp add: rest_def)
  have ih: "(if rest = [] then prev' else Some (last rest)) = Some (translate_statuses pod sts ready)"
    by (rule Cons.IH) (simp add: rest_def)
  have "prev' = (if o1 = [] then prev else Some (last o1))"
    using p by (auto simp: push_status_def Let_def split: option.splits if_splits)
  then show ?case using ih out by (auto split: if_splits)
qed

subsection \<open>Properties\<close>

text \<open>C34: the phase the agent finally reports of a pod agrees with the exit code of the guest's
  supervisor: from the report of an exited pod it is Succeeded exactly when the supervisor's exit
  code is 0 (container names distinct, as the API requires).\<close>

theorem final_phase_matches_exit:
  assumes "reachable (new_pod pol is ms) p" and "stage p = PodExit code"
    and "names_match (kp_inits pod) (inits p)" and "names_match (kp_mains pod) (mains p)"
    and "distinct (map kc_name (all_containers pod))"
  shows "(case translate_statuses pod (statuses p) ready of (ics, css, _) \<Rightarrow> final_phase ics css) = PodSucceeded
    \<longleftrightarrow> code = 0"
  using assms by (rule final_phase_exit)

definition ended_pod :: pod where
  "ended_pod = after (init_passes @ [GoMains] @ web_exits 3 @ [MainsDone]) (small_pod ''Never'')"

lemma final_phase_matches_exit_witness:
  "(case translate_statuses (a_pod [a_container ''setup''] [a_container ''web'']) (statuses ended_pod) Map.empty of
      (ics, css, _) \<Rightarrow> final_phase ics css) = PodSucceeded \<longleftrightarrow> (3 :: int) = 0"
proof (rule final_phase_matches_exit)
  have "schedule (init_passes @ [GoMains] @ web_exits 3 @ [MainsDone]) (small_pod ''Never'') \<noteq> None" by code_simp
  then show "reachable (new_pod ''Never'' [(task ''setup'', [])] [(task ''web'', [])]) ended_pod"
    unfolding ended_pod_def small_pod_def by (rule after_reachable)
  show "stage ended_pod = PodExit 3" by code_simp
  show "names_match (kp_inits (a_pod [a_container ''setup''] [a_container ''web''])) (inits ended_pod)" by code_simp
  show "names_match (kp_mains (a_pod [a_container ''setup''] [a_container ''web''])) (mains ended_pod)" by code_simp
  show "distinct (map kc_name (all_containers (a_pod [a_container ''setup''] [a_container ''web''])))" by code_simp
qed

text \<open>status pushes are deduplicated and complete: no two consecutive pushes are equal, and
  after the guest has answered a poll the last value pushed is that answer's translation.\<close>

theorem pushes_deduplicated:
  "differ_from prev (push_many pod polls prev)
   \<and> (let out = push_many pod (polls @ [(Some sts, ready)]) prev
      in (if out = [] then prev else Some (last out)) = Some (translate_statuses pod sts ready))"
  using push_many_differ push_many_last by (simp add: Let_def)

text \<open>a pod is reported Ready only when it runs: every init container has completed, and every
  main container is running with its readiness recorded.\<close>

theorem ready_means_running:
  assumes "translate_statuses pod sts ready = (ics, css, ph)" and "pod_ready ph css"
  shows "list_all completed ics
    \<and> (\<forall>c \<in> set (kp_mains pod). container_ready ready (kc_name c)
         \<and> (\<exists>st. by_status_name sts (kc_name c) = Some st \<and> st_state st = Running))"
proof -
  have ics: "list_all completed ics" and css: "css = map (\<lambda>c. conv_status (by_status_name sts) ready c False) (kp_mains pod)"
    using assms by (auto simp: translate_statuses_def Let_def pod_ready_def split: if_splits)
  have r: "k_ready (conv_status (by_status_name sts) ready c False)" if "c \<in> set (kp_mains pod)" for c
    using assms(2) css that by (simp add: pod_ready_def list_all_iff)
  have "container_ready ready (kc_name c) \<and> (\<exists>st. by_status_name sts (kc_name c) = Some st \<and> st_state st = Running)"
    if "c \<in> set (kp_mains pod)" for c
    using r [OF that] by (auto simp: conv_status_def split: option.splits cstate.splits)
  then show ?thesis using ics by blast
qed

definition running_report :: "container_status list" where
  "running_report = [\<lparr>st_name = ''web'', st_state = Running, st_exit = 0, st_restarts = 0, st_started = 5,
     st_finished = 0, st_reason = [], st_init = False\<rparr>]"

lemma ready_means_running_witness:
  "list_all completed (fst (translate_statuses (a_pod [] [a_container ''web'']) running_report [''web'' \<mapsto> True]))
    \<and> container_ready [''web'' \<mapsto> True] ''web''
    \<and> (\<exists>st. by_status_name running_report ''web'' = Some st \<and> st_state st = Running)"
proof -
  let ?t = "translate_statuses (a_pod [] [a_container ''web'']) running_report [''web'' \<mapsto> True]"
  have t: "?t = (fst ?t, fst (snd ?t), snd (snd ?t))" by simp
  have "pod_ready (snd (snd ?t)) (fst (snd ?t))" by code_simp
  from ready_means_running [OF t this] show ?thesis by (simp add: a_pod_def a_container_def)
qed

end
