(* ===== verification/Agent_Probes.thy ===== *)
theory Agent_Probes imports Agent_Status begin

text \<open>
  Startup, readiness and liveness probes (\<^verbatim>\<open>poc/agent/probes.go\<close>).  A \<^verbatim>\<open>probeLoop\<close> is its two counters
  and one step per result; \<^verbatim>\<open>runContainerProbes\<close> is the three loops of a container with the
  startup gate they share, stepped by whichever loop gets its next result.
\<close>

subsection \<open>One loop\<close>

definition or_default :: "int \<Rightarrow> int \<Rightarrow> int" where
  "or_default d n = (if n \<le> 0 then d else n)"

definition probe_period :: "probe \<Rightarrow> int" where "probe_period p = or_default 10 (pr_period p)"
definition failure_threshold :: "probe \<Rightarrow> nat" where "failure_threshold p = nat (or_default 3 (pr_failure p))"
definition success_threshold :: "probe \<Rightarrow> nat" where "success_threshold p = nat (or_default 1 (pr_success p))"
definition probe_timeout :: "probe \<Rightarrow> int" where "probe_timeout p = or_default 1 (pr_timeout p)"

datatype probe_kind = Startup | Readiness | Liveness

text \<open>The counters (successes, failures); the report, if this result makes one.\<close>

definition probe_tick :: "probe_kind \<Rightarrow> probe \<Rightarrow> bool \<Rightarrow> nat \<times> nat \<Rightarrow> (nat \<times> nat) \<times> bool option" where
  "probe_tick kind p ok ct =
     (case ct of (successes, failures) \<Rightarrow>
        if ok then ((Suc successes, 0), if Suc successes = success_threshold p then Some True else None)
        else if Suc failures = failure_threshold p
             then (if kind \<noteq> Readiness then (0, 0) else (0, Suc failures), Some False)
             else ((0, Suc failures), None))"

fun probe_run :: "probe_kind \<Rightarrow> probe \<Rightarrow> bool list \<Rightarrow> nat \<times> nat \<Rightarrow> (nat \<times> nat) \<times> bool option list" where
  "probe_run kind p [] ct = (ct, [])"
| "probe_run kind p (ok # oks) ct =
     (let (ct1, r) = probe_tick kind p ok ct; (ct2, rs) = probe_run kind p oks ct1 in (ct2, r # rs))"

text \<open>What \<^verbatim>\<open>doProbe\<close> asks of the guest.\<close>

datatype probe_call =
    CallExec "string list"
  | CallHttp int string string int
  | CallTcp int int
  | CallError string

definition do_probe :: "probe \<Rightarrow> probe_call" where
  "do_probe p =
     (case pr_handler p of
        ExecProbe av \<Rightarrow> CallExec av
      | HttpGet port path scheme \<Rightarrow>
          if port = 0 then CallError ''named probe ports not supported''
          else CallHttp port path (to_lower scheme) (probe_timeout p)
      | TcpSocket port \<Rightarrow>
          if port = 0 then CallError ''named probe ports not supported'' else CallTcp port (probe_timeout p)
      | NoHandler \<Rightarrow> CallError ''no probe handler specified'')"

subsection \<open>The loops of a container\<close>

record cprobes =
  started :: bool
  startup_ct :: "nat \<times> nat"
  ready_ct :: "nat \<times> nat"
  live_ct :: "nat \<times> nat"
  readiness :: "string \<rightharpoonup> bool"

datatype probe_event = StartupTick bool | ReadinessTick bool | LivenessTick bool
datatype probe_action = KillContainer string string | PushStatus

definition begin_probes :: "kpod \<Rightarrow> kcontainer \<Rightarrow> cprobes" where
  "begin_probes pod c =
     \<lparr>started = (kc_startup c = None), startup_ct = (0, 0), ready_ct = (0, 0), live_ct = (0, 0),
      readiness = init_ready pod\<rparr>"

definition report_ready :: "kcontainer \<Rightarrow> bool \<Rightarrow> cprobes \<Rightarrow> cprobes \<times> probe_action list" where
  "report_ready c h s =
     (case set_container_ready (kc_name c) h (readiness s) of
        (changed, m) \<Rightarrow> (s\<lparr>readiness := m\<rparr>, if changed then [PushStatus] else []))"

definition report_startup :: "kcontainer \<Rightarrow> bool \<Rightarrow> cprobes \<Rightarrow> cprobes \<times> probe_action list" where
  "report_startup c h s =
     (if h then
        (if started s then (s, [])
         else if kc_readiness c = None then report_ready c True (s\<lparr>started := True\<rparr>)
         else (s\<lparr>started := True\<rparr>, []))
      else (s, [KillContainer (kc_name c) ''startup probe failed'']))"

definition report_liveness :: "kcontainer \<Rightarrow> bool \<Rightarrow> cprobes \<Rightarrow> cprobes \<times> probe_action list" where
  "report_liveness c h s = (s, if h then [] else [KillContainer (kc_name c) ''liveness probe failed''])"

text \<open>\<open>None\<close>: that loop is not running (no such probe, or still waiting for the gate).\<close>

definition probe_step :: "kcontainer \<Rightarrow> probe_event \<Rightarrow> cprobes \<Rightarrow> (cprobes \<times> probe_action list) option" where
  "probe_step c ev s =
     (case ev of
        StartupTick ok \<Rightarrow>
          (case kc_startup c of
             None \<Rightarrow> None
           | Some p \<Rightarrow> (case probe_tick Startup p ok (startup_ct s) of
               (ct, None) \<Rightarrow> Some (s\<lparr>startup_ct := ct\<rparr>, [])
             | (ct, Some h) \<Rightarrow> Some (report_startup c h (s\<lparr>startup_ct := ct\<rparr>))))
      | ReadinessTick ok \<Rightarrow>
          (case kc_readiness c of
             None \<Rightarrow> None
           | Some p \<Rightarrow> if \<not> started s then None else (case probe_tick Readiness p ok (ready_ct s) of
               (ct, None) \<Rightarrow> Some (s\<lparr>ready_ct := ct\<rparr>, [])
             | (ct, Some h) \<Rightarrow> Some (report_ready c h (s\<lparr>ready_ct := ct\<rparr>))))
      | LivenessTick ok \<Rightarrow>
          (case kc_liveness c of
             None \<Rightarrow> None
           | Some p \<Rightarrow> if \<not> started s then None else (case probe_tick Liveness p ok (live_ct s) of
               (ct, None) \<Rightarrow> Some (s\<lparr>live_ct := ct\<rparr>, [])
             | (ct, Some h) \<Rightarrow> Some (report_liveness c h (s\<lparr>live_ct := ct\<rparr>)))))"

fun probe_events :: "kcontainer \<Rightarrow> probe_event list \<Rightarrow> cprobes \<Rightarrow> (cprobes \<times> probe_action list) option" where
  "probe_events c [] s = Some (s, [])"
| "probe_events c (ev # evs) s =
     (case probe_step c ev s of
        None \<Rightarrow> None
      | Some (s1, as) \<Rightarrow> (case probe_events c evs s1 of None \<Rightarrow> None | Some (s2, bs) \<Rightarrow> Some (s2, as @ bs)))"

subsection \<open>Thresholds\<close>

definition trailing :: "bool \<Rightarrow> bool list \<Rightarrow> nat" where
  "trailing b rs = length (takeWhile (\<lambda>x. x = b) (rev rs))"

lemma trailing_snoc: "trailing b (rs @ [x]) = (if x = b then Suc (trailing b rs) else 0)"
  by (simp add: trailing_def)

lemma trailing_Nil [simp]: "trailing b [] = 0"
  by (simp add: trailing_def)

lemma thresholds_pos: "0 < failure_threshold p" "0 < success_threshold p"
  by (simp_all add: failure_threshold_def success_threshold_def or_default_def)

lemma probe_run_snoc:
  "probe_run kind p (oks @ [ok]) ct =
     (let (ct1, rs) = probe_run kind p oks ct; (ct2, r) = probe_tick kind p ok ct1 in (ct2, rs @ [r]))"
  by (induction oks arbitrary: ct) (auto simp: Let_def split: prod.splits)

lemma readiness_counters: "fst (probe_run Readiness p oks (0, 0)) = (trailing True oks, trailing False oks)"
proof (induction oks rule: rev_induct)
  case (snoc ok oks)
  then show ?case
    by (cases "probe_run Readiness p oks (0, 0)") (auto simp: probe_run_snoc probe_tick_def trailing_snoc Let_def)
qed simp

lemma other_counters:
  "kind \<noteq> Readiness \<Longrightarrow> fst (probe_run kind p oks (0, 0)) = (trailing True oks, trailing False oks mod failure_threshold p)"
proof (induction oks rule: rev_induct)
  case (snoc ok oks)
  then show ?case
    using thresholds_pos(1) [of p]
    by (cases "probe_run kind p oks (0, 0)")
      (auto simp: probe_run_snoc probe_tick_def trailing_snoc Let_def mod_Suc)
qed simp

text \<open>The report the last result of a sequence makes.\<close>

definition last_report :: "probe_kind \<Rightarrow> probe \<Rightarrow> bool list \<Rightarrow> bool option" where
  "last_report kind p oks = last (snd (probe_run kind p oks (0, 0)))"

lemma last_report_snoc:
  "last_report kind p (oks @ [ok]) = snd (probe_tick kind p ok (fst (probe_run kind p oks (0, 0))))"
  by (simp add: last_report_def probe_run_snoc Let_def split: prod.splits)

subsection \<open>The startup gate\<close>

definition gate_ok :: "kcontainer \<Rightarrow> cprobes \<Rightarrow> bool" where
  "gate_ok c s \<longleftrightarrow> started s \<or> (ready_ct s = (0, 0) \<and> live_ct s = (0, 0) \<and> \<not> container_ready (readiness s) (kc_name c))"

lemma probe_step_gate:
  assumes "probe_step c ev s = Some (s', as)" and "gate_ok c s"
  shows "gate_ok c s' \<and> (started s \<longrightarrow> started s')"
  using assms
  by (cases ev)
    (auto simp: probe_step_def gate_ok_def report_startup_def report_ready_def report_liveness_def
      set_container_ready_def split: option.splits prod.splits if_splits)

lemma probe_events_gate:
  "probe_events c evs s = Some (s', as) \<Longrightarrow> gate_ok c s \<Longrightarrow> gate_ok c s'"
proof (induction evs arbitrary: s as)
  case (Cons ev evs)
  then show ?case by (auto split: option.splits prod.splits dest: probe_step_gate)
qed simp

lemma foldl_init_ready:
  "foldl (\<lambda>m c. m(kc_name c \<mapsto> P c)) m0 cs = m0 ++ map_of (rev (map (\<lambda>c. (kc_name c, P c)) cs))"
  by (induction cs arbitrary: m0) (simp_all add: map_add_assoc)

lemma init_ready_at:
  assumes "distinct (map kc_name (kp_mains pod))" and "c \<in> set (kp_mains pod)"
  shows "init_ready pod (kc_name c) = Some (kc_readiness c = None \<and> kc_startup c = None)"
proof -
  have "distinct (map fst (rev (map (\<lambda>c. (kc_name c, kc_readiness c = None \<and> kc_startup c = None)) (kp_mains pod))))"
    using assms(1) by (simp add: comp_def flip: rev_map)
  then show ?thesis using assms(2) by (auto simp: init_ready_def foldl_init_ready)
qed

lemma begin_probes_gate:
  "distinct (map kc_name (kp_mains pod)) \<Longrightarrow> c \<in> set (kp_mains pod) \<Longrightarrow> gate_ok c (begin_probes pod c)"
  by (cases "kc_startup c") (simp_all add: gate_ok_def begin_probes_def container_ready_def init_ready_at)

subsection \<open>Properties\<close>

text \<open>thresholds.  A loop reports a container healthy exactly when the trailing run of successes
  reaches the success threshold, and unhealthy exactly when the trailing run of failures reaches
  the failure threshold (readiness), or every time its length is a multiple of it (startup and
  liveness, which kill each time).\<close>

theorem probe_reports:
  "(last_report kind p (oks @ [ok]) = Some True
      \<longleftrightarrow> ok \<and> trailing True (oks @ [ok]) = success_threshold p)
   \<and> (last_report kind p (oks @ [ok]) = Some False
      \<longleftrightarrow> \<not> ok \<and> (if kind = Readiness then trailing False (oks @ [ok]) = failure_threshold p
                  else trailing False (oks @ [ok]) mod failure_threshold p = 0))"
proof (cases "kind = Readiness")
  case True
  then show ?thesis
    by (auto simp: last_report_snoc readiness_counters probe_tick_def trailing_snoc)
next
  case False
  then show ?thesis
    using thresholds_pos(1) [of p]
    by (auto simp: last_report_snoc other_counters probe_tick_def trailing_snoc mod_Suc split: if_splits)
qed

text \<open>until the startup probe of a container has succeeded, the container is not ready and
  neither its readiness nor its liveness probe has counted a result.\<close>

theorem startup_gates_probes:
  assumes "distinct (map kc_name (kp_mains pod))" and "c \<in> set (kp_mains pod)"
    and "probe_events c evs (begin_probes pod c) = Some (s, actions)" and "\<not> started s"
  shows "\<not> container_ready (readiness s) (kc_name c) \<and> ready_ct s = (0, 0) \<and> live_ct s = (0, 0)"
  using probe_events_gate [OF assms(3) begin_probes_gate [OF assms(1,2)]] assms(4) by (auto simp: gate_ok_def)

definition slow_start :: kcontainer where
  "slow_start = (a_container ''web'')\<lparr>kc_startup := Some \<lparr>pr_handler = TcpSocket 80, pr_delay = 0, pr_period = 0,
     pr_timeout = 0, pr_success = 0, pr_failure = 0\<rparr>\<rparr>"

definition one_failure :: "cprobes \<times> probe_action list" where
  "one_failure = the (probe_events slow_start [StartupTick False] (begin_probes (a_pod [] [slow_start]) slow_start))"

lemma startup_gates_probes_witness:
  "\<not> container_ready (readiness (fst one_failure)) (kc_name slow_start) \<and> ready_ct (fst one_failure) = (0, 0)
    \<and> live_ct (fst one_failure) = (0, 0)"
proof (rule startup_gates_probes)
  show "distinct (map kc_name (kp_mains (a_pod [] [slow_start])))" by code_simp
  show "slow_start \<in> set (kp_mains (a_pod [] [slow_start]))" by (simp add: a_pod_def)
  have "probe_events slow_start [StartupTick False] (begin_probes (a_pod [] [slow_start]) slow_start) \<noteq> None"
    by code_simp
  then show "probe_events slow_start [StartupTick False] (begin_probes (a_pod [] [slow_start]) slow_start)
      = Some (fst one_failure, snd one_failure)"
    by (auto simp: one_failure_def)
  show "\<not> started (fst one_failure)" by code_simp
qed

text \<open>the startup probe is not retired when it has succeeded: its loop goes on, and once it has
  failed as often in a row as its threshold the container is killed although it had started.\<close>

theorem startup_probe_still_kills:
  assumes "kc_startup c = Some p" and "started s" and "snd (startup_ct s) < failure_threshold p"
  shows "\<exists>s' actions. probe_events c (replicate (failure_threshold p - snd (startup_ct s)) (StartupTick False)) s
      = Some (s', actions) \<and> KillContainer (kc_name c) ''startup probe failed'' \<in> set actions"
  using assms
proof (induction "failure_threshold p - snd (startup_ct s)" arbitrary: s)
  case 0
  then show ?case by simp
next
  case (Suc n)
  obtain su f where ct: "startup_ct s = (su, f)" by force
  show ?case
  proof (cases "Suc f = failure_threshold p")
    case True
    then have "failure_threshold p - snd (startup_ct s) = Suc 0" using ct by simp
    then have "replicate (failure_threshold p - snd (startup_ct s)) (StartupTick False) = [StartupTick False]"
      by (simp only:) simp
    then show ?thesis
      using True Suc.prems ct by (simp add: probe_step_def probe_tick_def report_startup_def)
  next
    case False
    let ?s = "s\<lparr>startup_ct := (0, Suc f)\<rparr>"
    have n: "n = failure_threshold p - snd (startup_ct ?s)" using Suc.hyps(2) ct by simp
    then obtain s' as where ih: "probe_events c (replicate n (StartupTick False)) ?s = Some (s', as)"
        "KillContainer (kc_name c) ''startup probe failed'' \<in> set as"
      using Suc.hyps(1) [of ?s] Suc.prems False ct by auto
    have "replicate (failure_threshold p - snd (startup_ct s)) (StartupTick False)
        = StartupTick False # replicate n (StartupTick False)"
      using Suc.hyps(2) by (metis replicate_Suc)
    moreover have "probe_step c (StartupTick False) s = Some (?s, [])"
      using Suc.prems False ct by (simp add: probe_step_def probe_tick_def)
    ultimately show ?thesis using ih by simp
  qed
qed

definition started_up :: cprobes where
  "started_up = fst (the (probe_events slow_start [StartupTick True] (begin_probes (a_pod [] [slow_start]) slow_start)))"

lemma startup_probe_still_kills_witness:
  "\<exists>s' actions. probe_events slow_start
       (replicate (failure_threshold (the (kc_startup slow_start)) - snd (startup_ct started_up)) (StartupTick False)) started_up
      = Some (s', actions) \<and> KillContainer (kc_name slow_start) ''startup probe failed'' \<in> set actions"
proof (rule startup_probe_still_kills)
  show "kc_startup slow_start = Some (the (kc_startup slow_start))" by (simp add: slow_start_def)
  show "started started_up" by code_simp
  show "snd (startup_ct started_up) < failure_threshold (the (kc_startup slow_start))" by code_simp
qed

end
