(* ===== verification/Guest_Dns.thy ===== *)
theory Guest_Dns imports Agent_Services begin

text \<open>
  The guest's DNS proxy (\<^verbatim>\<open>poc/execd/dns.go\<close>).  Names under \<^verbatim>\<open>svc.cluster.local\<close> are answered from the
  agent over the service channel, with a short cache; everything else goes to the upstream
  resolver as it came.  The wire format is the package \<^verbatim>\<open>dnsmessage\<close>, which is not part of the
  repository: \<open>unpack\<close> and \<open>pack\<close> are parameters, as is the exchange with the upstream.  The clock
  is read before the query (\<open>now\<close>) and when its answer arrives (\<open>later\<close>).
\<close>

subsection \<open>Messages\<close>

record dns_question =
  dq_name :: string
  dq_type :: nat
  dq_class :: nat

datatype dns_body = ARecord bytes | AAAARecord bytes

record dns_resource =
  rr_name :: string
  rr_type :: nat
  rr_class :: nat
  rr_ttl :: nat
  rr_body :: dns_body

record dns_message =
  dm_id :: nat
  dm_response :: bool
  dm_auth :: bool
  dm_rcode :: nat
  dm_questions :: "dns_question list"
  dm_answers :: "dns_resource list"

abbreviation type_a :: nat where "type_a \<equiv> 1"
abbreviation type_aaaa :: nat where "type_aaaa \<equiv> 28"
abbreviation class_inet :: nat where "class_inet \<equiv> 1"
abbreviation rcode_success :: nat where "rcode_success \<equiv> 0"
abbreviation rcode_name_error :: nat where "rcode_name_error \<equiv> 3"

subsection \<open>The cache\<close>

record dns_entry =
  de_ips :: "bytes list"
  de_found :: bool
  de_expiry :: int

definition dns_cache_ttl :: int where
  "dns_cache_ttl = 5 * 1000000000"

text \<open>What an answer of the agent makes of the entry; addresses that do not parse are skipped.\<close>

definition dns_entry_of :: "int \<Rightarrow> int \<Rightarrow> svc_answer \<Rightarrow> dns_entry" where
  "dns_entry_of now later ans =
     (if a_error ans = []
      then \<lparr>de_ips = List.map_filter parse_ip (a_ips ans), de_found = True,
            de_expiry = (if a_ttl ans > 0 then later + a_ttl ans * 1000000000 else now + dns_cache_ttl)\<rparr>
      else \<lparr>de_ips = [], de_found = False, de_expiry = now + dns_cache_ttl\<rparr>)"

definition dns_query :: "string \<Rightarrow> string \<Rightarrow> svc_query" where
  "dns_query svc ns = \<lparr>q_vip = [], q_port = 0, q_proto = [], q_name = svc, q_ns = ns\<rparr>"

definition dns_key :: "string \<Rightarrow> string \<Rightarrow> string" where
  "dns_key svc ns = svc @ ''.'' @ ns"

definition dns_lookup :: "int \<Rightarrow> int \<Rightarrow> (svc_query \<Rightarrow> string + svc_answer) \<Rightarrow> string \<Rightarrow> string
    \<Rightarrow> (string \<rightharpoonup> dns_entry) \<Rightarrow> dns_entry \<times> (string \<rightharpoonup> dns_entry)" where
  "dns_lookup now later query svc ns cache =
     (let key = dns_key svc ns;
          asked = (case query (dns_query svc ns) of
              Inl e \<Rightarrow> (\<lparr>de_ips = [], de_found = False, de_expiry = now + dns_cache_ttl\<rparr>, cache)
            | Inr ans \<Rightarrow> let e = dns_entry_of now later ans in (e, cache(key \<mapsto> e)))
      in case cache key of
           Some e \<Rightarrow> if now < de_expiry e then (e, cache) else asked
         | None \<Rightarrow> asked)"

subsection \<open>Replies\<close>

definition dns_answer :: "dns_question \<Rightarrow> bytes \<Rightarrow> dns_resource list" where
  "dns_answer q ip =
     (case to4 ip of
        Some ip4 \<Rightarrow>
          if dq_type q = type_a
          then [\<lparr>rr_name = dq_name q, rr_type = type_a, rr_class = class_inet, rr_ttl = 5, rr_body = ARecord ip4\<rparr>]
          else []
      | None \<Rightarrow>
          if dq_type q = type_aaaa
          then [\<lparr>rr_name = dq_name q, rr_type = type_aaaa, rr_class = class_inet, rr_ttl = 5, rr_body = AAAARecord ip\<rparr>]
          else [])"

definition dns_reply :: "dns_message \<Rightarrow> dns_question \<Rightarrow> bytes list \<Rightarrow> nat \<Rightarrow> dns_message" where
  "dns_reply req q ips rcode =
     \<lparr>dm_id = dm_id req, dm_response = True, dm_auth = True, dm_rcode = rcode, dm_questions = [q],
      dm_answers = concat (map (dns_answer q) ips)\<rparr>"

text \<open>\<^verbatim>\<open>forward\<close>: nothing without an upstream; a failed exchange and a lost reply are \<open>None\<close>.\<close>

definition dns_forward :: "string \<Rightarrow> (string \<Rightarrow> bytes \<Rightarrow> bytes option) \<Rightarrow> bytes \<Rightarrow> bytes option" where
  "dns_forward upstream exchange query =
     (if upstream = [] then None else map_option (take 4096) (exchange upstream query))"

datatype dns_route =
    ToUpstream
  | NameError
  | AskAgent string string

definition dns_labels :: "string \<Rightarrow> string list" where
  "dns_labels name = split_on (CHR ''.'') (trim_suffix name ''.'')"

text \<open>The branches of \<^verbatim>\<open>handle\<close> on the lower-case name.\<close>

definition dns_route :: "string \<Rightarrow> dns_route" where
  "dns_route name =
     (let labels = dns_labels name
      in if length labels < 3 \<or> join_with ''.'' (drop (length labels - 3) labels) \<noteq> ''svc.cluster.local''
         then (if has_suffix name ''.cluster.local.'' then NameError else ToUpstream)
         else if length labels \<noteq> 5 then NameError
         else AskAgent (labels ! 0) (labels ! 1))"

definition dns_family :: "dns_question \<Rightarrow> bytes list \<Rightarrow> bytes list" where
  "dns_family q = filter (\<lambda>ip. (dq_type q = type_aaaa) = (to4 ip = None))"

datatype dns_out = Forwarded "bytes option" | Replied dns_message

definition dns_handle :: "(bytes \<rightharpoonup> dns_message) \<Rightarrow> (bytes \<Rightarrow> bytes option) \<Rightarrow> int \<Rightarrow> int
    \<Rightarrow> (svc_query \<Rightarrow> string + svc_answer) \<Rightarrow> bytes \<Rightarrow> (string \<rightharpoonup> dns_entry) \<Rightarrow> dns_out \<times> (string \<rightharpoonup> dns_entry)" where
  "dns_handle unpack forward now later query raw cache =
     (case unpack raw of
        None \<Rightarrow> (Forwarded (forward raw), cache)
      | Some msg \<Rightarrow>
          (case dm_questions msg of
             [q] \<Rightarrow>
               (case dns_route (to_lower (dq_name q)) of
                  ToUpstream \<Rightarrow> (Forwarded (forward raw), cache)
                | NameError \<Rightarrow> (Replied (dns_reply msg q [] rcode_name_error), cache)
                | AskAgent svc ns \<Rightarrow>
                    (let (e, cache') = dns_lookup now later query svc ns cache
                     in (Replied (if de_found e then dns_reply msg q (dns_family q (de_ips e)) rcode_success
                                  else dns_reply msg q [] rcode_name_error), cache')))
           | _ \<Rightarrow> (Forwarded (forward raw), cache)))"

text \<open>One datagram of \<^verbatim>\<open>serve\<close>: what is written back, if anything, and the cache after it.\<close>

definition dns_serve :: "(bytes \<rightharpoonup> dns_message) \<Rightarrow> (dns_message \<Rightarrow> bytes option) \<Rightarrow> (bytes \<Rightarrow> bytes option)
    \<Rightarrow> int \<Rightarrow> int \<Rightarrow> (svc_query \<Rightarrow> string + svc_answer) \<Rightarrow> bytes \<Rightarrow> (string \<rightharpoonup> dns_entry)
    \<Rightarrow> bytes option \<times> (string \<rightharpoonup> dns_entry)" where
  "dns_serve unpack pack forward now later query datagram cache =
     (case dns_handle unpack forward now later query (take 4096 datagram) cache of
        (Forwarded r, cache') \<Rightarrow> (r, cache')
      | (Replied m, cache') \<Rightarrow> (pack m, cache'))"

subsection \<open>Routing by name\<close>

lemma dns_labels_join:
  "ws \<noteq> [] \<Longrightarrow> \<forall>w \<in> set ws. CHR ''.'' \<notin> set w \<Longrightarrow> dns_labels (join_with ''.'' ws @ ''.'') = ws"
  by (simp add: dns_labels_def split_join)

lemma dns_labels_service:
  assumes "CHR ''.'' \<notin> set svc" and "CHR ''.'' \<notin> set ns"
  shows "dns_labels (svc @ ''.'' @ ns @ ''.svc.cluster.local.'') = [svc, ns, ''svc'', ''cluster'', ''local'']"
  using dns_labels_join [of "[svc, ns, ''svc'', ''cluster'', ''local'']"] assms by simp

lemma dns_route_service:
  assumes "CHR ''.'' \<notin> set svc" and "CHR ''.'' \<notin> set ns"
  shows "dns_route (svc @ ''.'' @ ns @ ''.svc.cluster.local.'') = AskAgent svc ns"
  unfolding dns_route_def dns_labels_service [OF assms] by simp

lemma dns_key_inj:
  assumes "dns_key svc ns = dns_key svc' ns'"
    and "CHR ''.'' \<notin> set svc" "CHR ''.'' \<notin> set ns" "CHR ''.'' \<notin> set svc'" "CHR ''.'' \<notin> set ns'"
  shows "svc = svc' \<and> ns = ns'"
  using assms append_Cons_eq_iff [of "CHR ''.''" svc ns svc' ns'] by (simp add: dns_key_def)

lemma dns_route_AskAgent:
  assumes "dns_route name = AskAgent svc ns"
  shows "CHR ''.'' \<notin> set svc" "CHR ''.'' \<notin> set ns"
proof -
  have five: "length (dns_labels name) = 5" and "svc = dns_labels name ! 0" "ns = dns_labels name ! 1"
    using assms by (auto simp: dns_route_def Let_def split: if_splits)
  then have "svc \<in> set (dns_labels name)" "ns \<in> set (dns_labels name)" by simp_all
  then show "CHR ''.'' \<notin> set svc" "CHR ''.'' \<notin> set ns"
    unfolding dns_labels_def by (auto dest: split_on_no_sep)
qed

lemma take_two: "2 \<le> length xs \<Longrightarrow> take 2 xs = [xs ! 0, xs ! 1]"
  by (cases xs; cases "tl xs") auto

lemma dns_route_AskAgent_name:
  assumes "dns_route name = AskAgent svc ns"
  shows "dns_labels name = [svc, ns, ''svc'', ''cluster'', ''local'']"
proof -
  let ?ls = "dns_labels name"
  have five: "length ?ls = 5" and three: "join_with ''.'' (drop 2 ?ls) = ''svc.cluster.local''"
    and sn: "svc = ?ls ! 0" "ns = ?ls ! 1"
    using assms by (auto simp: dns_route_def Let_def split: if_splits)
  have "\<forall>w \<in> set (drop 2 ?ls). CHR ''.'' \<notin> set w"
    unfolding dns_labels_def by (auto dest!: in_set_dropD split_on_no_sep)
  moreover have "drop 2 ?ls \<noteq> []" using five by auto
  ultimately have "split_on (CHR ''.'') (join_with ''.'' (drop 2 ?ls)) = drop 2 ?ls" by (intro split_join)
  then have "drop 2 ?ls = split_on (CHR ''.'') ''svc.cluster.local''" by (simp only: three)
  also have "\<dots> = [''svc'', ''cluster'', ''local'']" by code_simp
  finally have d: "drop 2 ?ls = [''svc'', ''cluster'', ''local'']" .
  have "?ls = take 2 ?ls @ drop 2 ?ls" by simp
  moreover have "take 2 ?ls = [?ls ! 0, ?ls ! 1]"
    by (rule take_two) (simp add: five)
  ultimately show ?thesis using d sn by simp
qed

subsection \<open>What the cache holds\<close>

text \<open>
  Entries are answers of the agent, asked at \<open>t\<close> and answered at \<open>u\<close>, for the name they are filed
  under.  \<open>evs\<close> lists the datagrams served so far with the two clock readings of each.
\<close>

definition dns_backed :: "(int \<Rightarrow> svc_query \<Rightarrow> string + svc_answer) \<Rightarrow> (int \<times> int) set
    \<Rightarrow> (string \<rightharpoonup> dns_entry) \<Rightarrow> bool" where
  "dns_backed reach asked cache =
     (\<forall>key e. cache key = Some e \<longrightarrow>
        (\<exists>t u svc ns ans. (t, u) \<in> asked \<and> key = dns_key svc ns \<and> CHR ''.'' \<notin> set svc \<and> CHR ''.'' \<notin> set ns
           \<and> reach t (dns_query svc ns) = Inr ans \<and> e = dns_entry_of t u ans))"

lemma dns_backed_empty [simp]: "dns_backed reach asked Map.empty"
  by (simp add: dns_backed_def)

lemma dns_backed_mono: "dns_backed reach asked cache \<Longrightarrow> asked \<subseteq> asked' \<Longrightarrow> dns_backed reach asked' cache"
  unfolding dns_backed_def by blast

lemma dns_backed_insert:
  assumes "dns_backed reach asked cache"
    and "(t, u) \<in> asked" "CHR ''.'' \<notin> set svc" "CHR ''.'' \<notin> set ns" "reach t (dns_query svc ns) = Inr ans"
  shows "dns_backed reach asked (cache(dns_key svc ns \<mapsto> dns_entry_of t u ans))"
  using assms unfolding dns_backed_def fun_upd_apply by (metis option.inject)

lemma dns_lookup_backed:
  assumes "dns_backed reach asked cache" and "(now, later) \<in> asked"
    and "CHR ''.'' \<notin> set svc" "CHR ''.'' \<notin> set ns"
  shows "dns_backed reach asked (snd (dns_lookup now later (reach now) svc ns cache))"
  using assms dns_backed_insert
  by (simp add: dns_lookup_def Let_def split: option.splits sum.splits)

text \<open>What a lookup returns: a live cached entry, a new answer, or the failure entry.\<close>

lemma dns_lookup_found:
  assumes "dns_backed reach asked cache" and "(now, later) \<in> asked"
    and "CHR ''.'' \<notin> set svc" "CHR ''.'' \<notin> set ns"
    and "fst (dns_lookup now later (reach now) svc ns cache) = e" "de_found e"
  shows "\<exists>t u ans. (t, u) \<in> asked \<and> (t = now \<or> now < de_expiry e)
           \<and> reach t (dns_query svc ns) = Inr ans \<and> e = dns_entry_of t u ans"
proof (cases "\<exists>e'. cache (dns_key svc ns) = Some e' \<and> now < de_expiry e'")
  case True
  then obtain e' where c: "cache (dns_key svc ns) = Some e'" "now < de_expiry e'" by blast
  with assms(5) have "e = e'" by (simp add: dns_lookup_def Let_def)
  moreover obtain t u svc' ns' ans where "(t, u) \<in> asked" "dns_key svc ns = dns_key svc' ns'"
    "CHR ''.'' \<notin> set svc'" "CHR ''.'' \<notin> set ns'" "reach t (dns_query svc' ns') = Inr ans" "e' = dns_entry_of t u ans"
    using assms(1) c(1) unfolding dns_backed_def by blast
  ultimately show ?thesis using c(2) dns_key_inj [of svc ns svc' ns'] assms(3,4) by blast
next
  case False
  then have "fst (dns_lookup now later (reach now) svc ns cache)
      = (case reach now (dns_query svc ns) of
           Inl _ \<Rightarrow> \<lparr>de_ips = [], de_found = False, de_expiry = now + dns_cache_ttl\<rparr>
         | Inr ans \<Rightarrow> dns_entry_of now later ans)"
    by (auto simp: dns_lookup_def Let_def split: option.splits sum.splits)
  with assms(2,5,6) show ?thesis by (cases "reach now (dns_query svc ns)") auto
qed

fun dns_serve_all :: "(bytes \<rightharpoonup> dns_message) \<Rightarrow> (dns_message \<Rightarrow> bytes option) \<Rightarrow> (bytes \<Rightarrow> bytes option)
    \<Rightarrow> (int \<Rightarrow> svc_query \<Rightarrow> string + svc_answer) \<Rightarrow> (int \<times> int \<times> bytes) list
    \<Rightarrow> (string \<rightharpoonup> dns_entry) \<Rightarrow> (string \<rightharpoonup> dns_entry)" where
  "dns_serve_all unpack pack fwd reach [] cache = cache"
| "dns_serve_all unpack pack fwd reach ((now, later, d) # evs) cache =
     dns_serve_all unpack pack fwd reach evs (snd (dns_serve unpack pack fwd now later (reach now) d cache))"

definition asked_at :: "(int \<times> int \<times> bytes) list \<Rightarrow> (int \<times> int) set" where
  "asked_at evs = (\<lambda>(t, u, d). (t, u)) ` set evs"

lemma dns_handle_backed:
  assumes "dns_backed reach asked cache" and "(now, later) \<in> asked"
  shows "dns_backed reach asked (snd (dns_handle unpack fwd now later (reach now) raw cache))"
  using assms dns_lookup_backed [OF assms] dns_route_AskAgent
  unfolding dns_handle_def Let_def
  by (auto split: option.split list.split dns_route.split prod.split) (metis snd_conv)

lemma dns_serve_backed:
  assumes "dns_backed reach asked cache" and "(now, later) \<in> asked"
  shows "dns_backed reach asked (snd (dns_serve unpack pack fwd now later (reach now) d cache))"
  using dns_handle_backed [OF assms, of unpack fwd "take 4096 d"]
  unfolding dns_serve_def by (auto split: prod.split dns_out.split)

lemma dns_serve_all_backed:
  "dns_backed reach asked cache \<Longrightarrow> asked_at evs \<subseteq> asked
   \<Longrightarrow> dns_backed reach asked (dns_serve_all unpack pack fwd reach evs cache)"
  by (induction unpack pack fwd reach evs cache rule: dns_serve_all.induct)
    (auto simp: asked_at_def intro!: dns_serve_backed)

subsection \<open>Services by name\<close>

definition cluster_ips :: "service \<Rightarrow> string list" where
  "cluster_ips s =
     (if sv_ips s = [] \<and> sv_ip s \<noteq> [] \<and> sv_ip s \<noteq> ''None'' then [sv_ip s] else sv_ips s)"

definition service_named :: "agent_view \<Rightarrow> string \<Rightarrow> string \<Rightarrow> service option" where
  "service_named v svc ns = find (\<lambda>s. sv_ns s = ns \<and> sv_name s = svc) (services v)"

lemma resolve_name_found:
  assumes "has_client v" "caches_synced v" "svc \<noteq> []" "ns \<noteq> []" "service_named v svc ns = Some s"
  shows "resolve_service v (dns_query svc ns) = ips_answer (cluster_ips s)"
  using assms by (simp add: resolve_service_def resolve_live_def resolve_service_name_def dns_query_def
      service_named_def cluster_ips_def)

lemma resolve_name_ok:
  assumes "a_error (resolve_service v (dns_query svc ns)) = []" "svc \<noteq> []" "ns \<noteq> []"
  shows "\<exists>s. service_named v svc ns = Some s \<and> resolve_service v (dns_query svc ns) = ips_answer (cluster_ips s)"
  using assms
  by (auto simp: resolve_service_def resolve_live_def resolve_service_name_def dns_query_def error_answer_def
      service_named_def cluster_ips_def Let_def split: if_splits option.splits)

lemma service_named_in: "service_named v svc ns = Some s \<Longrightarrow> s \<in> set (services v) \<and> sv_ns s = ns \<and> sv_name s = svc"
  by (auto simp: service_named_def find_Some_iff)

lemma dns_entry_of_ips [simp]:
  "dns_entry_of now later (ips_answer ips)
   = \<lparr>de_ips = List.map_filter parse_ip ips, de_found = True, de_expiry = later + dns_cache_ttl\<rparr>"
  by (simp add: dns_entry_of_def ips_answer_def dns_cache_ttl_def)

text \<open>The records of a reply, by the family that was asked for.\<close>

lemma dns_family_bodies:
  "map rr_body (concat (map (dns_answer q) (dns_family q ips)))
   = (if dq_type q = type_a then map ARecord (List.map_filter to4 ips)
      else if dq_type q = type_aaaa then map AAAARecord (filter (\<lambda>ip. to4 ip = None) ips)
      else [])"
  by (induction ips) (auto simp: dns_family_def dns_answer_def map_filter_simps split: option.splits)

lemma dns_answer_body:
  "r \<in> set (dns_answer q ip) \<Longrightarrow> rr_name r = dq_name q \<and>
     (rr_type r = type_a \<and> (\<exists>a. to4 ip = Some a \<and> rr_body r = ARecord a)
      \<or> rr_type r = type_aaaa \<and> to4 ip = None \<and> rr_body r = AAAARecord ip) \<and> rr_type r = dq_type q"
  by (auto simp: dns_answer_def split: option.splits if_splits)

lemma set_map_filter_parse: "b \<in> set (List.map_filter f xs) \<longleftrightarrow> (\<exists>x \<in> set xs. f x = Some b)"
  by (induction xs) (auto simp: map_filter_simps split: option.splits)

lemma dns_handle_service:
  assumes "unpack raw = Some msg" "dm_questions msg = [q]"
    and "to_lower (dq_name q) = svc @ ''.'' @ ns @ ''.svc.cluster.local.''"
    and "CHR ''.'' \<notin> set svc" "CHR ''.'' \<notin> set ns"
  shows "dns_handle unpack fwd now later reach raw cache =
     (let (e, cache') = dns_lookup now later reach svc ns cache
      in (Replied (if de_found e then dns_reply msg q (dns_family q (de_ips e)) rcode_success
                   else dns_reply msg q [] rcode_name_error), cache'))"
  using dns_route_service [OF assms(4,5)] by (simp add: dns_handle_def assms(1-3))

subsection \<open>A service, a query\<close>

definition web_svc :: service where
  "web_svc = \<lparr>sv_ns = ''shop'', sv_name = ''web'', sv_ip = ''10.1.2.3'', sv_ips = [''10.1.2.3''], sv_ports = []\<rparr>"

definition shop_view :: agent_view where
  "shop_view = snapshot\<lparr>has_client := True, caches_synced := True, services := [web_svc]\<rparr>"

definition web_question :: dns_question where
  "web_question = \<lparr>dq_name = ''Web.shop.svc.cluster.local.'', dq_type = type_a, dq_class = class_inet\<rparr>"

definition web_message :: dns_message where
  "web_message = \<lparr>dm_id = 7, dm_response = False, dm_auth = False, dm_rcode = 0, dm_questions = [web_question],
     dm_answers = []\<rparr>"

definition unpack_web :: "bytes \<Rightarrow> dns_message option" where
  "unpack_web raw = (if raw = [1, 2, 3] then Some web_message else None)"

lemma web_name: "to_lower (dq_name web_question) = ''web'' @ ''.'' @ ''shop'' @ ''.svc.cluster.local.''"
  by code_simp

lemma web_ip: "parse_ip ''10.1.2.3'' = Some [0, 0, 0, 0, 0, 0, 0, 0, 0, 0, 255, 255, 10, 1, 2, 3]"
  by code_simp

lemma web_ip4: "to4 [0, 0, 0, 0, 0, 0, 0, 0, 0, 0, 255, 255, 10, 1, 2, 3] = Some [10, 1, 2, 3]"
  by code_simp

lemma web_found:
  "has_client shop_view" "caches_synced shop_view" "service_named shop_view ''web'' ''shop'' = Some web_svc"
  by (simp_all add: shop_view_def service_named_def web_svc_def)

lemma web_unpacked: "unpack_web [1, 2, 3] = Some web_message" "dm_questions web_message = [web_question]"
  by (simp_all add: unpack_web_def web_message_def)

lemma web_lookup: "dns_lookup 9 10 (ask (\<lambda>_. shop_view) 9) ''web'' ''shop'' Map.empty =
   (let e = dns_entry_of 9 10 (ips_answer (cluster_ips web_svc)) in (e, [dns_key ''web'' ''shop'' \<mapsto> e]))"
  using resolve_name_found [OF web_found(1,2) _ _ web_found(3)]
  by (simp add: dns_lookup_def ask_def Let_def del: dns_entry_of_ips)

definition web_reply :: dns_message where
  "web_reply = dns_reply web_message web_question [[0, 0, 0, 0, 0, 0, 0, 0, 0, 0, 255, 255, 10, 1, 2, 3]] rcode_success"

lemma web_handled:
  "fst (dns_handle unpack_web (\<lambda>_. None) 9 10 (ask (\<lambda>_. shop_view) 9) [1, 2, 3] Map.empty) = Replied web_reply"
proof -
  have "de_ips (dns_entry_of 9 10 (ips_answer (cluster_ips web_svc)))
      = [[0, 0, 0, 0, 0, 0, 0, 0, 0, 0, 255, 255, 10, 1, 2, 3]]"
    by (simp add: cluster_ips_def web_svc_def web_ip map_filter_simps)
  moreover have "dns_family web_question [[0, 0, 0, 0, 0, 0, 0, 0, 0, 0, 255, 255, 10, 1, 2, 3]]
      = [[0, 0, 0, 0, 0, 0, 0, 0, 0, 0, 255, 255, 10, 1, 2, 3]]"
    by (simp add: dns_family_def web_question_def web_ip4)
  moreover have "de_found (dns_entry_of 9 10 (ips_answer (cluster_ips web_svc)))" by simp
  moreover have "CHR ''.'' \<notin> set ''web''" "CHR ''.'' \<notin> set ''shop''" by code_simp+
  ultimately show ?thesis
    unfolding dns_handle_service [where unpack = unpack_web and raw = "[1, 2, 3]" and svc = "''web''" and ns = "''shop''",
        OF web_unpacked web_name \<open>CHR ''.'' \<notin> set ''web''\<close> \<open>CHR ''.'' \<notin> set ''shop''\<close>]
    by (simp add: web_lookup web_reply_def Let_def del: dns_entry_of_ips)
qed

lemma web_record: "map rr_body (dm_answers web_reply) = [ARecord [10, 1, 2, 3]]"
  by (simp add: web_reply_def dns_reply_def dns_answer_def web_ip4 web_question_def)

subsection \<open>Properties\<close>

text \<open>Asking the proxy for \<^verbatim>\<open><service>.<namespace>.svc.cluster.local\<close> with nothing cached answers, under
  the id of the query, exactly the ClusterIPs the agent's watch caches hold for that service, in
  their order: the IPv4 ones for an A question, the IPv6 ones for an AAAA question, none for other
  types.\<close>

theorem dns_service_answered:
  assumes "unpack raw = Some msg" "dm_questions msg = [q]"
    and "to_lower (dq_name q) = svc @ ''.'' @ ns @ ''.svc.cluster.local.''"
    and "CHR ''.'' \<notin> set svc" "CHR ''.'' \<notin> set ns" "svc \<noteq> []" "ns \<noteq> []"
    and "cache (dns_key svc ns) = None"
    and "has_client (views now)" "caches_synced (views now)" "service_named (views now) svc ns = Some s"
  shows "\<exists>m cache'. dns_handle unpack fwd now later (ask views now) raw cache = (Replied m, cache')
     \<and> dm_id m = dm_id msg \<and> dm_response m \<and> dm_rcode m = rcode_success \<and> dm_questions m = [q]
     \<and> map rr_body (dm_answers m) =
         (let ips = List.map_filter parse_ip (cluster_ips s)
          in if dq_type q = type_a then map ARecord (List.map_filter to4 ips)
             else if dq_type q = type_aaaa then map AAAARecord (filter (\<lambda>ip. to4 ip = None) ips)
             else [])"
proof -
  have "dns_lookup now later (ask views now) svc ns cache =
      (let e = dns_entry_of now later (ips_answer (cluster_ips s)) in (e, cache(dns_key svc ns \<mapsto> e)))"
    using assms(8) resolve_name_found [OF assms(9,10,6,7,11)]
    by (simp add: dns_lookup_def ask_def Let_def del: dns_entry_of_ips)
  then show ?thesis
    by (simp add: dns_handle_service [where unpack = unpack and raw = raw and svc = svc and ns = ns, OF assms(1-5)] dns_reply_def dns_family_bodies Let_def)
qed

theorem dns_service_answered_witness:
  "\<exists>m cache'. dns_handle unpack_web (\<lambda>_. None) 9 10 (ask (\<lambda>_. shop_view) 9) [1, 2, 3] Map.empty = (Replied m, cache')
     \<and> dm_id m = 7 \<and> map rr_body (dm_answers m) = [ARecord [10, 1, 2, 3]]"
proof -
  have d: "CHR ''.'' \<notin> set ''web''" "CHR ''.'' \<notin> set ''shop''" by code_simp+
  have v: "List.map_filter to4 (List.map_filter parse_ip (cluster_ips web_svc)) = [[10, 1, 2, 3]]"
    by (simp add: cluster_ips_def web_svc_def web_ip web_ip4 map_filter_simps)
  show ?thesis
    using dns_service_answered [where unpack = unpack_web and raw = "[1, 2, 3]" and msg = web_message
        and q = web_question and svc = "''web''" and ns = "''shop''" and cache = Map.empty and now = 9
        and later = 10 and views = "\<lambda>_. shop_view" and s = web_svc and fwd = "\<lambda>_. None",
        OF web_unpacked web_name d _ _ _ web_found]
    by (auto simp: v web_question_def web_message_def Let_def)
qed

text \<open>C28: Whatever the proxy served before, starting from an empty cache, a record it hands out for
  a service name is a ClusterIP, of the family asked for, that the agent's watch caches held for the
  service at the time \<open>t\<close> of a query to the agent, and that query is this one's own or was answered
  less than five seconds ago.\<close>

theorem dns_records_current:
  assumes "unpack raw = Some msg" "dm_questions msg = [q]"
    and "to_lower (dq_name q) = svc @ ''.'' @ ns @ ''.svc.cluster.local.''"
    and "CHR ''.'' \<notin> set svc" "CHR ''.'' \<notin> set ns" "svc \<noteq> []" "ns \<noteq> []"
    and "dns_handle unpack fwd now later (ask views now) raw
           (dns_serve_all unpack pack fwd (ask views) evs Map.empty) = (Replied m, cache')"
    and "r \<in> set (dm_answers m)"
  shows "\<exists>t u s ip b. (t = now \<or> (t, u) \<in> asked_at evs \<and> now < u + dns_cache_ttl)
     \<and> s \<in> set (services (views t)) \<and> sv_ns s = ns \<and> sv_name s = svc
     \<and> ip \<in> set (cluster_ips s) \<and> parse_ip ip = Some b
     \<and> (dq_type q = type_a \<and> (\<exists>a. to4 b = Some a \<and> rr_body r = ARecord a)
        \<or> dq_type q = type_aaaa \<and> to4 b = None \<and> rr_body r = AAAARecord b)"
proof -
  let ?cache = "dns_serve_all unpack pack fwd (ask views) evs Map.empty"
  let ?asked = "insert (now, later) (asked_at evs)"
  have b: "dns_backed (ask views) ?asked ?cache" by (rule dns_serve_all_backed) auto
  obtain e where e: "e = fst (dns_lookup now later (ask views now) svc ns ?cache)" by blast
  have m: "m = (if de_found e then dns_reply msg q (dns_family q (de_ips e)) rcode_success
                else dns_reply msg q [] rcode_name_error)"
    using assms(8) unfolding dns_handle_service [where unpack = unpack and raw = raw and svc = svc and ns = ns, OF assms(1-5)] e by (auto simp: Let_def split: prod.splits)
  with assms(9) have found: "de_found e" and "r \<in> set (concat (map (dns_answer q) (dns_family q (de_ips e))))"
    by (auto simp: dns_reply_def split: if_splits)
  then obtain ipb where ipb: "ipb \<in> set (de_ips e)" "r \<in> set (dns_answer q ipb)"
    by (auto simp: dns_family_def)
  obtain t u ans where t: "(t, u) \<in> ?asked" "t = now \<or> now < de_expiry e"
      "ask views t (dns_query svc ns) = Inr ans" "e = dns_entry_of t u ans"
    using dns_lookup_found [OF b _ assms(4,5) e [symmetric] found] by blast
  then have "a_error (resolve_service (views t) (dns_query svc ns)) = []"
    using found by (auto simp: ask_def dns_entry_of_def split: if_splits)
  then obtain s where s: "service_named (views t) svc ns = Some s"
      "resolve_service (views t) (dns_query svc ns) = ips_answer (cluster_ips s)"
    using resolve_name_ok [OF _ assms(6,7)] by blast
  with t(3,4) have "de_ips e = List.map_filter parse_ip (cluster_ips s)" "de_expiry e = u + dns_cache_ttl"
    by (auto simp: ask_def)
  with ipb(1) t(1,2) obtain ip where "ip \<in> set (cluster_ips s)" "parse_ip ip = Some ipb"
      "t = now \<or> (t, u) \<in> asked_at evs \<and> now < u + dns_cache_ttl"
    by (auto simp: set_map_filter_parse)
  with service_named_in [OF s(1)] dns_answer_body [OF ipb(2)] show ?thesis by metis
qed

theorem dns_records_current_witness:
  "\<exists>t u s ip b. (t = 9 \<or> (t, u) \<in> asked_at [] \<and> 9 < u + dns_cache_ttl)
     \<and> s \<in> set (services shop_view) \<and> ip \<in> set (cluster_ips s) \<and> parse_ip ip = Some b
     \<and> (\<exists>a. to4 b = Some a \<and> rr_body (hd (dm_answers web_reply)) = ARecord a)"
proof -
  let ?h = "dns_handle unpack_web (\<lambda>_. None) 9 10 (ask (\<lambda>_. shop_view) 9) [1, 2, 3] Map.empty"
  have d: "CHR ''.'' \<notin> set ''web''" "CHR ''.'' \<notin> set ''shop''" by code_simp+
  have h: "?h = (Replied web_reply, snd ?h)" using web_handled by (metis prod.collapse)
  have r: "hd (dm_answers web_reply) \<in> set (dm_answers web_reply)" using web_record by (cases "dm_answers web_reply") auto
  have "dq_type web_question = type_a" by (simp add: web_question_def)
  then show ?thesis
    using dns_records_current [where unpack = unpack_web and raw = "[1, 2, 3]" and msg = web_message
        and q = web_question and svc = "''web''" and ns = "''shop''" and evs = "[]" and now = 9
        and later = 10 and views = "\<lambda>_. shop_view" and fwd = "\<lambda>_. None" and m = web_reply
        and pack = "\<lambda>_. None" and cache' = "snd ?h" and r = "hd (dm_answers web_reply)",
        OF web_unpacked web_name d _ _ _ r] h
    by auto
qed

text \<open>A suffix of the labels is a suffix of the name.\<close>

lemma join_with_drop: "\<exists>pre. join_with sep ws = pre @ join_with sep (drop k ws)"
proof (induction ws arbitrary: k)
  case (Cons w ws)
  show ?case
  proof (cases k)
    case (Suc j)
    then show ?thesis
    proof (cases "ws = []")
      case False
      with Cons.IH [of j] Suc show ?thesis by (auto simp: join_with_Cons)
    qed simp
  qed simp
qed simp

lemma dns_route_ToUpstream:
  assumes "has_suffix name ''.''"
  shows "dns_route name = ToUpstream \<longleftrightarrow> \<not> has_suffix name ''.cluster.local.''"
proof (cases "has_suffix name ''.cluster.local.''")
  case False
  obtain x where x: "name = x @ ''.''" using assms by (auto simp: has_suffix_iff)
  have "join_with ''.'' (drop (length (dns_labels name) - 3) (dns_labels name)) \<noteq> ''svc.cluster.local''"
  proof
    assume eq: "join_with ''.'' (drop (length (dns_labels name) - 3) (dns_labels name)) = ''svc.cluster.local''"
    have "join_with ''.'' (dns_labels name) = x" by (simp add: dns_labels_def x join_split)
    with join_with_drop [of "''.''" "dns_labels name" "length (dns_labels name) - 3"] eq
    obtain pre where "x = pre @ ''svc.cluster.local''" by metis
    with x False show False unfolding has_suffix_iff
      by (metis append.assoc append_Cons append_Nil)
  qed
  with False show ?thesis by (simp add: dns_route_def)
qed (simp add: dns_route_def Let_def)

text \<open>A well-formed question leaves the pod, verbatim and without a cache change, exactly when its
  name is not under \<^verbatim>\<open>cluster.local\<close>; names under it are answered by the proxy itself, and only the
  five-label service names can succeed.\<close>

theorem dns_cluster_names_stay:
  assumes "unpack raw = Some msg" "dm_questions msg = [q]" and "has_suffix (dq_name q) ''.''"
  shows "if has_suffix (to_lower (dq_name q)) ''.cluster.local.''
         then \<exists>m cache'. dns_handle unpack fwd now later reach raw cache = (Replied m, cache')
                \<and> dm_id m = dm_id msg \<and> dm_questions m = [q]
                \<and> (dm_rcode m = rcode_success \<longrightarrow>
                     (\<exists>svc ns. dns_labels (to_lower (dq_name q)) = [svc, ns, ''svc'', ''cluster'', ''local'']))
         else dns_handle unpack fwd now later reach raw cache = (Forwarded (fwd raw), cache)"
proof -
  have "to_lower ''.'' = ''.''" by code_simp
  then have dot: "has_suffix (to_lower (dq_name q)) ''.''"
    using assms(3) by (auto simp: has_suffix_iff to_lower_def)
  show ?thesis
  proof (cases "dns_route (to_lower (dq_name q))")
    case ToUpstream
    then show ?thesis using dns_route_ToUpstream [OF dot] assms by (simp add: dns_handle_def)
  next
    case NameError
    then show ?thesis using dns_route_ToUpstream [OF dot] assms by (simp add: dns_handle_def dns_reply_def)
  next
    case (AskAgent svc ns)
    then show ?thesis
      using dns_route_ToUpstream [OF dot] assms dns_route_AskAgent_name [OF AskAgent]
      by (auto simp: dns_handle_def dns_reply_def split: prod.split)
  qed
qed

theorem dns_cluster_names_stay_witness:
  "\<exists>m cache'. dns_handle unpack_web (\<lambda>_. None) 9 10 (ask (\<lambda>_. shop_view) 9) [1, 2, 3] Map.empty = (Replied m, cache')
     \<and> dm_id m = 7"
proof -
  have "has_suffix (dq_name web_question) ''.''" "has_suffix (to_lower (dq_name web_question)) ''.cluster.local.''"
    by code_simp+
  then show ?thesis
    using dns_cluster_names_stay [where unpack = unpack_web and raw = "[1, 2, 3]" and fwd = "\<lambda>_. None"
        and now = 9 and later = 10 and reach = "ask (\<lambda>_. shop_view) 9" and cache = Map.empty, OF web_unpacked]
    by (auto simp: web_message_def)
qed

end
