(* ===== verification/Guest_Root.thy ===== *)
theory Guest_Root imports Go_Strings begin

text \<open>
  Container roots in the guest (\<^verbatim>\<open>poc/execd/blockroot.go\<close>): mounting image devices once, assembling
  a writable root per container, and resolving commands inside a root without ever following a
  symlink out of it.  The kernel decides whether a call succeeds: \<open>ok\<close> maps the calls made so far
  and the next call to its outcome, and the calls with their outcomes are logged in the state.
\<close>

subsection \<open>Building roots\<close>

datatype kcall =
    MkdirAll string
  | Mount string string string "string list" string
  | StatDir string
  | Chmod string

type_synonym kernel = "(kcall \<times> bool) list \<Rightarrow> kcall \<Rightarrow> bool"

record guest_roots =
  mounted_lowers :: "(string \<times> string) list"
  built_roots :: "string list"
  shm_ready :: bool
  calls :: "(kcall \<times> bool) list"

definition no_roots :: guest_roots where
  "no_roots = \<lparr>mounted_lowers = [], built_roots = [], shm_ready = False, calls = []\<rparr>"

definition call :: "kernel \<Rightarrow> kcall \<Rightarrow> guest_roots \<Rightarrow> bool \<times> guest_roots" where
  "call ok c st = (let r = ok (calls st) c in (r, st\<lparr>calls := calls st @ [(c, r)]\<rparr>))"

text \<open>Calls whose failure is logged, or not even looked at.\<close>

definition call_ignored :: "kernel \<Rightarrow> kcall \<Rightarrow> guest_roots \<Rightarrow> guest_roots" where
  "call_ignored ok c st = snd (call ok c st)"

text \<open>Calls that must all succeed, in order; the first failure ends the build.\<close>

fun call_all :: "kernel \<Rightarrow> kcall list \<Rightarrow> guest_roots \<Rightarrow> bool \<times> guest_roots" where
  "call_all ok [] st = (True, st)"
| "call_all ok (c # cs) st =
     (case call ok c st of (r, st') \<Rightarrow> if r then call_all ok cs st' else (False, st'))"

definition lower_dir :: "string \<Rightarrow> string" where
  "lower_dir dev = ''/lower-'' @ path_base dev"

definition image_mount :: "string \<Rightarrow> string \<Rightarrow> kcall" where
  "image_mount dev fstype = Mount dev (lower_dir dev) fstype [''MS_RDONLY''] []"

definition ensure_dev_mounted :: "kernel \<Rightarrow> string \<Rightarrow> guest_roots \<Rightarrow> string option \<times> guest_roots" where
  "ensure_dev_mounted ok dev st =
     (case map_of (mounted_lowers st) dev of
        Some p \<Rightarrow> (Some p, st)
      | None \<Rightarrow>
          let st1 = (if mounted_lowers st = []
                     then call_ignored ok (Mount ''devtmpfs'' ''/dev'' ''devtmpfs'' [] []) st else st)
          in case call ok (MkdirAll (lower_dir dev)) st1 of (made, st2) \<Rightarrow>
             if \<not> made then (None, st2)
             else case call ok (image_mount dev ''erofs'') st2 of (erofs, st3) \<Rightarrow>
               if erofs then (Some (lower_dir dev), st3\<lparr>mounted_lowers := (dev, lower_dir dev) # mounted_lowers st3\<rparr>)
               else case call ok (image_mount dev ''ext4'') st3 of (ext4, st4) \<Rightarrow>
                 if ext4 then (Some (lower_dir dev), st4\<lparr>mounted_lowers := (dev, lower_dir dev) # mounted_lowers st4\<rparr>)
                 else (None, st4))"

definition overlay_opts :: "string \<Rightarrow> string \<Rightarrow> string" where
  "overlay_opts lower rw =
     ''lowerdir='' @ lower @ '',upperdir='' @ rw @ ''/upper,workdir='' @ rw @ ''/work''"

definition root_dir :: "string \<Rightarrow> string" where
  "root_dir name = ''/roots/'' @ name"

definition rw_dir :: "string \<Rightarrow> string" where
  "rw_dir name = ''/rw-'' @ name"

text \<open>The calls that must succeed, and the ones that only warn.\<close>

definition root_calls :: "string \<Rightarrow> string \<Rightarrow> kcall list" where
  "root_calls name lower =
     (let rw = rw_dir name; r = root_dir name
      in [MkdirAll rw, MkdirAll r, Mount ''tmpfs'' rw ''tmpfs'' [] [],
          MkdirAll (rw @ ''/upper''), MkdirAll (rw @ ''/work''),
          Mount ''overlay'' r ''overlay'' [] (overlay_opts lower rw)])"

definition kernel_mounts :: "string \<Rightarrow> (string \<times> string \<times> string \<times> string) list" where
  "kernel_mounts r =
     [(''proc'', r @ ''/proc'', ''proc'', []), (''sysfs'', r @ ''/sys'', ''sysfs'', []),
      (''devtmpfs'', r @ ''/dev'', ''devtmpfs'', []),
      (''devpts'', r @ ''/dev/pts'', ''devpts'', ''mode=620,ptmxmode=666'')]"

definition mount_kernel_fs :: "kernel \<Rightarrow> string \<Rightarrow> guest_roots \<Rightarrow> guest_roots" where
  "mount_kernel_fs ok r st =
     foldl (\<lambda>st (src, dst, fstype, opts).
              call_ignored ok (Mount src dst fstype [] opts) (call_ignored ok (MkdirAll dst) st)) st (kernel_mounts r)"

definition ensure_shm :: "kernel \<Rightarrow> guest_roots \<Rightarrow> guest_roots" where
  "ensure_shm ok st =
     (if shm_ready st then st
      else case call ok (Mount ''tmpfs'' ''/podshm'' ''tmpfs'' [] ''mode=1777'') (call_ignored ok (MkdirAll ''/podshm'') st) of
             (r, st') \<Rightarrow> if r then st'\<lparr>shm_ready := True\<rparr> else st')"

definition bind_shm :: "kernel \<Rightarrow> string \<Rightarrow> guest_roots \<Rightarrow> guest_roots" where
  "bind_shm ok r st =
     (if shm_ready st
      then call_ignored ok (Mount ''/podshm'' (r @ ''/dev/shm'') [] [''MS_BIND''] [])
             (call_ignored ok (MkdirAll (r @ ''/dev/shm'')) st)
      else st)"

definition fix_tmp :: "kernel \<Rightarrow> string \<Rightarrow> guest_roots \<Rightarrow> guest_roots" where
  "fix_tmp ok r st =
     (let (isdir, st1) = call ok (StatDir (r @ ''/tmp'')) st;
          st2 = (if isdir then st1 else call_ignored ok (MkdirAll (r @ ''/tmp'')) st1)
      in call_ignored ok (MkdirAll (r @ ''/etc'')) (call_ignored ok (Chmod (r @ ''/tmp'')) st2))"

definition build_container_root :: "kernel \<Rightarrow> string \<Rightarrow> string \<Rightarrow> guest_roots \<Rightarrow> string option \<times> guest_roots" where
  "build_container_root ok name dev st =
     (case ensure_dev_mounted ok dev st of
        (None, st1) \<Rightarrow> (None, st1)
      | (Some lower, st1) \<Rightarrow>
          (case call_all ok (root_calls name lower) st1 of (done_all, st2) \<Rightarrow>
             if \<not> done_all then (None, st2)
             else let r = root_dir name;
                      st3 = fix_tmp ok r (bind_shm ok r (ensure_shm ok (mount_kernel_fs ok r st2)))
                  in (Some r, st3\<lparr>built_roots := built_roots st3 @ [r]\<rparr>)))"

text \<open>\<^verbatim>\<open>writeEtc\<close>: the files it writes.\<close>

definition write_etc :: "string \<Rightarrow> guest_roots \<Rightarrow> string list" where
  "write_etc name st = (''/etc/'' @ name) # map (\<lambda>r. r @ ''/etc/'' @ name) (built_roots st)"

subsection \<open>Resolving inside a root\<close>

text \<open>
  \<open>lstat\<close> says whether a path of the boot file system exists and is a symlink, \<open>readlink\<close> gives its
  target.  One walk over the components either ends or meets the first symlink.
\<close>

datatype resolve_error = LookupFails string | TooManySymlinks string

datatype walk =
    WalkFails string
  | WalkDone string
  | WalkLink string

fun walk_root :: "(string \<Rightarrow> bool option) \<Rightarrow> (string \<Rightarrow> string option) \<Rightarrow> string \<Rightarrow> string \<Rightarrow> string list \<Rightarrow> walk" where
  "walk_root lstat readlink r cur [] = WalkDone cur"
| "walk_root lstat readlink r cur (c # cs) =
     (let cur' = path_join [cur, c]
      in case lstat (path_join [r, cur']) of
           None \<Rightarrow> WalkFails cur'
         | Some False \<Rightarrow> walk_root lstat readlink r cur' cs
         | Some True \<Rightarrow>
             (case readlink (path_join [r, cur']) of
                None \<Rightarrow> WalkFails cur'
              | Some t \<Rightarrow>
                  let target = (if is_rooted t then t else path_join [path_dir cur', t])
                  in WalkLink (path_join (target # cs))))"

definition root_comps :: "string \<Rightarrow> string list" where
  "root_comps p = split_on (CHR ''/'') (trim_char (CHR ''/'') (path_clean (CHR ''/'' # p)))"

function resolve_in_root :: "(string \<Rightarrow> bool option) \<Rightarrow> (string \<Rightarrow> string option) \<Rightarrow> string \<Rightarrow> string \<Rightarrow> nat
    \<Rightarrow> resolve_error + string" where
  "resolve_in_root lstat readlink r p depth =
     (if depth > 32 then Inl (TooManySymlinks p)
      else case walk_root lstat readlink r ''/'' (root_comps p) of
             WalkFails q \<Rightarrow> Inl (LookupFails q)
           | WalkDone q \<Rightarrow> Inr q
           | WalkLink rest \<Rightarrow> resolve_in_root lstat readlink r rest (Suc depth))"
  by pat_completeness auto
termination by (relation "measure (\<lambda>(_, _, _, _, depth). 33 - depth)") auto

declare resolve_in_root.simps [simp del]

text \<open>\<open>stat_exec\<close>: \<^verbatim>\<open>os.Stat\<close> succeeds on a non-directory with an execute bit.\<close>

definition default_path :: string where
  "default_path = ''/usr/local/sbin:/usr/local/bin:/usr/sbin:/usr/bin:/sbin:/bin''"

definition path_of_env :: "string list \<Rightarrow> string" where
  "path_of_env env = foldl (\<lambda>p kv. if has_prefix kv ''PATH='' then drop 5 kv else p) default_path env"

definition runnable_in :: "(string \<Rightarrow> bool option) \<Rightarrow> (string \<Rightarrow> string option) \<Rightarrow> (string \<Rightarrow> bool) \<Rightarrow> string
    \<Rightarrow> string \<Rightarrow> bool" where
  "runnable_in lstat readlink stat_exec r candidate =
     (case resolve_in_root lstat readlink r candidate 0 of
        Inl _ \<Rightarrow> False
      | Inr q \<Rightarrow> stat_exec (path_join [r, q]))"

definition look_path_in_root :: "(string \<Rightarrow> bool option) \<Rightarrow> (string \<Rightarrow> string option) \<Rightarrow> (string \<Rightarrow> bool) \<Rightarrow> string
    \<Rightarrow> string list \<Rightarrow> string \<Rightarrow> string option" where
  "look_path_in_root lstat readlink stat_exec r env name =
     (if CHR ''/'' \<in> set name then Some name
      else find (runnable_in lstat readlink stat_exec r)
             (map (\<lambda>d. path_join [d, name])
                (filter (\<lambda>d. d \<noteq> []) (split_on (CHR '':'') (path_of_env env)))))"

subsection \<open>Components of a path in the root\<close>

lemma last_join: "\<forall>c \<in> set (cs @ [c]). good_comp c \<Longrightarrow> last (join_with ''/'' (cs @ [c])) = last c"
  by (cases "cs = []") (auto simp: join_with_snoc good_comp_def)

lemma trim_abs_path:
  assumes "\<forall>c \<in> set cs. plain_comp c"
  shows "trim_char (CHR ''/'') (abs_path cs) = join_with ''/'' cs"
proof (cases cs rule: rev_cases)
  case Nil
  then show ?thesis by (simp add: abs_path_def trim_char_def)
next
  case (snoc ds d)
  have g: "\<forall>c \<in> set (ds @ [d]). good_comp c" using assms snoc by (simp add: plain_comp_def)
  let ?j = "join_with ''/'' cs"
  have ne: "?j \<noteq> []" using join_comps_Nil [of cs] g snoc by simp
  have "d \<noteq> []" "CHR ''/'' \<notin> set d" using g by (simp_all add: good_comp_def)
  then have "last d \<noteq> CHR ''/''" using last_in_set [of d] by metis
  then have l: "last ?j \<noteq> CHR ''/''" using last_join [OF g] snoc by simp
  have "\<not> is_rooted ?j" by (rule not_rooted_join) (use g snoc in \<open>cases ds; simp\<close>)+
  with ne have "hd ?j \<noteq> CHR ''/''" by (cases ?j) (auto simp: is_rooted_def has_prefix_def)
  with ne have "dropWhile (\<lambda>x. x = CHR ''/'') (abs_path cs) = ?j"
    by (cases ?j) (simp_all add: abs_path_def)
  moreover have "dropWhile (\<lambda>x. x = CHR ''/'') (rev ?j) = rev ?j"
    using ne l by (cases ?j rule: rev_cases) simp_all
  ultimately show ?thesis by (simp add: trim_char_def)
qed

lemma root_comps_plain:
  shows "root_comps p = (let cs = path_comps (CHR ''/'' # p) in if cs = [] then [[]] else cs)"
  and "\<forall>c \<in> set (path_comps (CHR ''/'' # p)). plain_comp c"
proof -
  let ?cs = "path_comps (CHR ''/'' # p)"
  have r: "is_rooted (CHR ''/'' # p)" by (simp add: is_rooted_def has_prefix_def)
  then show pl: "\<forall>c \<in> set ?cs. plain_comp c" by (auto intro: path_comps_rooted)
  then have g: "\<forall>c \<in> set ?cs. good_comp c" by (simp add: plain_comp_def)
  have "root_comps p = split_on (CHR ''/'') (join_with ''/'' ?cs)"
    by (simp add: root_comps_def path_clean_rooted [OF r] trim_abs_path [OF pl])
  then show "root_comps p = (let cs = ?cs in if cs = [] then [[]] else cs)"
    using g by (simp add: split_join_comps Let_def)
qed

subsection \<open>Walks\<close>

text \<open>\<open>real_path\<close>: below the root, every directory on the way and the end exist and are not symlinks.\<close>

definition real_path :: "(string \<Rightarrow> bool option) \<Rightarrow> string \<Rightarrow> string list \<Rightarrow> bool" where
  "real_path lstat r cs \<longleftrightarrow>
     (\<forall>c \<in> set cs. plain_comp c)
     \<and> (\<forall>k. 0 < k \<and> k \<le> length cs \<longrightarrow> lstat (path_join [r, abs_path (take k cs)]) = Some False)"

lemma real_path_Nil [simp]: "real_path lstat r []"
  by (simp add: real_path_def)

lemma real_path_snoc:
  "real_path lstat r (cs @ [c]) \<longleftrightarrow>
     real_path lstat r cs \<and> plain_comp c \<and> lstat (path_join [r, abs_path (cs @ [c])]) = Some False"
  by (auto simp: real_path_def le_Suc_eq)

lemma walk_root_done:
  assumes "walk_root lstat readlink r (abs_path ds) cs = WalkDone q"
    and "real_path lstat r ds" and "\<forall>c \<in> set cs. plain_comp c"
  shows "q = abs_path (ds @ cs) \<and> real_path lstat r (ds @ cs)"
  using assms
proof (induction cs arbitrary: ds)
  case (Cons c cs)
  have "path_join [abs_path ds, c] = abs_path (ds @ [c])"
    using path_join_abs [of ds c] Cons.prems by (auto simp: real_path_def plain_comp_def good_comp_def)
  then have "walk_root lstat readlink r (abs_path (ds @ [c])) cs = WalkDone q"
      "lstat (path_join [r, abs_path (ds @ [c])]) = Some False"
    using Cons.prems(1) by (auto simp: Let_def split: option.splits bool.splits)
  with Cons.IH [of "ds @ [c]"] Cons.prems show ?case by (simp add: real_path_snoc)
qed simp

lemma walk_root_real:
  assumes "real_path lstat r (ds @ cs)"
  shows "walk_root lstat readlink r (abs_path ds) cs = WalkDone (abs_path (ds @ cs))"
  using assms
proof (induction cs arbitrary: ds)
  case (Cons c cs)
  have p: "\<forall>x \<in> set (ds @ c # cs). plain_comp x"
    and l: "\<forall>k. 0 < k \<and> k \<le> length (ds @ c # cs) \<longrightarrow> lstat (path_join [r, abs_path (take k (ds @ c # cs))]) = Some False"
    using Cons.prems unfolding real_path_def by blast+
  have "path_join [abs_path ds, c] = abs_path (ds @ [c])"
    using path_join_abs [of ds c] p by (auto simp: plain_comp_def good_comp_def)
  moreover have "lstat (path_join [r, abs_path (ds @ [c])]) = Some False"
    using l [THEN spec, of "Suc (length ds)"] by simp
  moreover have "walk_root lstat readlink r (abs_path (ds @ [c])) cs = WalkDone (abs_path (ds @ c # cs))"
    using Cons.IH [of "ds @ [c]"] Cons.prems by simp
  ultimately show ?case by (simp add: Let_def)
qed simp

lemma walk_empty:
  "walk_root lstat readlink r ''/'' [[]] = WalkDone q \<Longrightarrow> q = ''/''"
  by (auto simp: Let_def path_join_def path_clean_def path_comps_def is_rooted_def has_prefix_def
      split: option.splits bool.splits)

lemma resolve_in_root_real:
  "resolve_in_root lstat readlink r p depth = Inr q \<Longrightarrow> \<exists>cs. q = abs_path cs \<and> real_path lstat r cs"
proof (induction lstat readlink r p depth rule: resolve_in_root.induct)
  case (1 lstat readlink r p depth)
  then have d: "\<not> depth > 32" by (auto simp: resolve_in_root.simps [of _ _ _ _ depth] split: if_splits)
  show ?case
  proof (cases "walk_root lstat readlink r ''/'' (root_comps p)")
    case (WalkDone q')
    with 1(2) d have q: "q' = q" by (simp add: resolve_in_root.simps [of _ _ _ _ depth])
    let ?cs = "path_comps (CHR ''/'' # p)"
    show ?thesis
    proof (cases "?cs = []")
      case True
      with WalkDone q walk_empty have "q = abs_path []"
        by (fastforce simp: root_comps_plain(1) abs_path_def Let_def)
      then show ?thesis by (metis real_path_Nil)
    next
      case False
      with WalkDone q have "walk_root lstat readlink r (abs_path []) ?cs = WalkDone q"
        by (simp add: root_comps_plain(1) Let_def abs_path_def)
      from walk_root_done [OF this real_path_Nil root_comps_plain(2)] show ?thesis by blast
    qed
  qed (use 1 d in \<open>simp_all add: resolve_in_root.simps [of _ _ _ _ depth]\<close>)
qed

lemma resolve_walk:
  "\<not> depth > 32 \<Longrightarrow> resolve_in_root lstat readlink r p depth =
     (case walk_root lstat readlink r ''/'' (root_comps p) of
        WalkFails q \<Rightarrow> Inl (LookupFails q)
      | WalkDone q \<Rightarrow> Inr q
      | WalkLink rest \<Rightarrow> resolve_in_root lstat readlink r rest (Suc depth))"
  by (simp add: resolve_in_root.simps [of _ _ _ _ depth])

text \<open>C29: A path that resolves inside a container root resolves to an absolute, clean path without
  \<^verbatim>\<open>..\<close> all of whose components exist under the root and are not symlinks, so opening it below the
  root never leaves the root; a path that is already like that resolves to itself; and resolution
  always ends, with an error when 33 symlinks have been followed.\<close>

theorem resolve_stays_in_root:
  assumes "resolve_in_root lstat readlink r p depth = Inr q"
  shows "\<exists>cs. q = abs_path cs \<and> path_clean q = q \<and> (\<forall>c \<in> set cs. plain_comp c)
           \<and> (\<forall>k. 0 < k \<and> k \<le> length cs \<longrightarrow> lstat (path_join [r, abs_path (take k cs)]) = Some False)
           \<and> depth \<le> 32"
proof -
  have "depth \<le> 32" using assms by (auto simp: resolve_in_root.simps [of _ _ _ _ depth] split: if_splits)
  with resolve_in_root_real [OF assms] show ?thesis by (auto simp: real_path_def abs_path_clean)
qed

lemma resolve_real_path:
  assumes "real_path lstat r cs" "cs \<noteq> []" "path_comps (CHR ''/'' # p) = cs"
  shows "resolve_in_root lstat readlink r p 0 = Inr (abs_path cs)"
proof -
  have "walk_root lstat readlink r ''/'' (root_comps p) = WalkDone (abs_path cs)"
    using walk_root_real [of lstat r "[]" cs] assms by (simp add: root_comps_plain(1) abs_path_def)
  then show ?thesis by (simp add: resolve_walk)
qed

subsection \<open>Commands\<close>

text \<open>The last \<^verbatim>\<open>PATH=\<close> of the environment is the search path.\<close>

lemma path_of_env_last:
  "path_of_env (env @ kv # rest) = drop 5 kv"
  if "has_prefix kv ''PATH=''" "\<forall>x \<in> set rest. \<not> has_prefix x ''PATH=''"
proof -
  have "foldl (\<lambda>p kv. if has_prefix kv ''PATH='' then drop 5 kv else p) z rest = z" for z
    using that(2) by (induction rest) auto
  with that(1) show ?thesis by (simp add: path_of_env_def)
qed

lemma path_of_env_default: "\<forall>x \<in> set env. \<not> has_prefix x ''PATH='' \<Longrightarrow> path_of_env env = default_path"
proof -
  assume a: "\<forall>x \<in> set env. \<not> has_prefix x ''PATH=''"
  have "foldl (\<lambda>p kv. if has_prefix kv ''PATH='' then drop 5 kv else p) z env = z" for z
    using a by (induction env) auto
  then show ?thesis by (simp add: path_of_env_def)
qed

text \<open>A bare command name resolves to the first directory of the container's own \<^verbatim>\<open>PATH\<close> (its last
  definition wins) in which it is an executable file once every symlink is followed inside the
  root, and to nothing exactly when no directory has one; the executable found really lies below
  the root.\<close>

theorem look_path_first_match:
  assumes "CHR ''/'' \<notin> set name"
    and "has_prefix kv ''PATH=''" "\<forall>x \<in> set rest. \<not> has_prefix x ''PATH=''"
    and "dirs = filter (\<lambda>d. d \<noteq> []) (split_on (CHR '':'') (drop 5 kv))"
  shows "case look_path_in_root lstat readlink stat_exec r (env @ kv # rest) name of
           None \<Rightarrow> (\<forall>d \<in> set dirs. \<not> runnable_in lstat readlink stat_exec r (path_join [d, name]))
         | Some c \<Rightarrow> (\<exists>i < length dirs. c = path_join [dirs ! i, name]
               \<and> (\<forall>j < i. \<not> runnable_in lstat readlink stat_exec r (path_join [dirs ! j, name]))
               \<and> (\<exists>cs. resolve_in_root lstat readlink r c 0 = Inr (abs_path cs) \<and> real_path lstat r cs
                       \<and> stat_exec (path_join [r, abs_path cs])))"
proof -
  let ?P = "runnable_in lstat readlink stat_exec r"
  let ?cands = "map (\<lambda>d. path_join [d, name]) dirs"
  have look: "look_path_in_root lstat readlink stat_exec r (env @ kv # rest) name = find ?P ?cands"
    using assms by (simp add: look_path_in_root_def path_of_env_last)
  show ?thesis
  proof (cases "find ?P ?cands")
    case None
    then have "\<forall>d \<in> set dirs. \<not> ?P (path_join [d, name])" by (auto simp: find_None_iff)
    then show ?thesis unfolding look None option.case .
  next
    case (Some c)
    then obtain i where i: "i < length dirs" "c = path_join [dirs ! i, name]" "?P c"
        "\<forall>j < i. \<not> ?P (path_join [dirs ! j, name])"
      by (auto simp: find_Some_iff)
    obtain q where q: "resolve_in_root lstat readlink r c 0 = Inr q" "stat_exec (path_join [r, q])"
      using i(3) by (auto simp: runnable_in_def split: sum.splits)
    obtain cs where "q = abs_path cs" "real_path lstat r cs" using resolve_in_root_real [OF q(1)] by blast
    with i q look Some show ?thesis by auto
  qed
qed

subsection \<open>An image with a symlinked shell\<close>

text \<open>\<^verbatim>\<open>/bin\<close> is a directory, \<^verbatim>\<open>/bin/sh\<close> an absolute symlink to \<^verbatim>\<open>/bin/busybox\<close>, under \<^verbatim>\<open>/roots/c\<close>.\<close>

definition bb_lstat :: "string \<Rightarrow> bool option" where
  "bb_lstat p = (if p = ''/roots/c/bin'' \<or> p = ''/roots/c/bin/busybox'' then Some False
     else if p = ''/roots/c/bin/sh'' then Some True else None)"

definition bb_readlink :: "string \<Rightarrow> string option" where
  "bb_readlink p = (if p = ''/roots/c/bin/sh'' then Some ''/bin/busybox'' else None)"

definition bb_exec :: "string \<Rightarrow> bool" where
  "bb_exec p = (p = ''/roots/c/bin/busybox'')"

lemma bb_walk1: "walk_root bb_lstat bb_readlink ''/roots/c'' ''/'' (root_comps ''/bin/sh'') = WalkLink ''/bin/busybox''"
  by code_simp

lemma bb_walk2: "walk_root bb_lstat bb_readlink ''/roots/c'' ''/'' (root_comps ''/bin/busybox'') = WalkDone ''/bin/busybox''"
  by code_simp

lemma bb_resolve: "resolve_in_root bb_lstat bb_readlink ''/roots/c'' ''/bin/sh'' 0 = Inr ''/bin/busybox''"
  by (simp add: resolve_walk bb_walk1 bb_walk2)

theorem resolve_stays_in_root_witness:
  "\<exists>cs. ''/bin/busybox'' = abs_path cs \<and> (\<forall>c \<in> set cs. plain_comp c)
     \<and> (\<forall>k. 0 < k \<and> k \<le> length cs \<longrightarrow> bb_lstat (path_join [''/roots/c'', abs_path (take k cs)]) = Some False)"
  using resolve_stays_in_root [OF bb_resolve] by blast

theorem look_path_first_match_witness:
  "look_path_in_root bb_lstat bb_readlink bb_exec ''/roots/c'' ([''PATH=/usr/bin''] @ ''PATH=/usr/bin:/bin'' # [''X=1'']) ''sh''
   = Some ''/bin/sh''"
proof -
  have d: "[''/usr/bin'', ''/bin''] = filter (\<lambda>d. d \<noteq> []) (split_on (CHR '':'') (drop 5 ''PATH=/usr/bin:/bin''))"
    by code_simp
  have run: "runnable_in bb_lstat bb_readlink bb_exec ''/roots/c'' ''/bin/sh''"
    by (simp add: runnable_in_def bb_resolve) code_simp
  have j: "path_join [''/usr/bin'', ''sh''] = ''/usr/bin/sh''" "path_join [''/bin'', ''sh''] = ''/bin/sh''"
    by code_simp+
  have "walk_root bb_lstat bb_readlink ''/roots/c'' ''/'' (root_comps ''/usr/bin/sh'') = WalkFails ''/usr''"
    by code_simp
  then have nr: "resolve_in_root bb_lstat bb_readlink ''/roots/c'' ''/usr/bin/sh'' 0 = Inl (LookupFails ''/usr'')"
    by (simp add: resolve_walk)
  then have no: "\<not> runnable_in bb_lstat bb_readlink bb_exec ''/roots/c'' ''/usr/bin/sh''"
    by (simp add: runnable_in_def)
  have h: "CHR ''/'' \<notin> set ''sh''" "has_prefix ''PATH=/usr/bin:/bin'' ''PATH=''"
      "\<forall>x \<in> set [''X=1'']. \<not> has_prefix x ''PATH=''"
    by code_simp+
  have "2 = length [''/usr/bin'', ''/bin'']" by simp
  then show ?thesis
    using look_path_first_match [OF h d, of bb_lstat bb_readlink bb_exec "''/roots/c''" "[''PATH=/usr/bin'']"] run no
    by (auto simp: j nr less_Suc_eq numeral_2_eq_2 split: option.splits)
qed

subsection \<open>Images are mounted once\<close>

fun image_of :: "kcall \<times> bool \<Rightarrow> string list" where
  "image_of (Mount src dst fstype flags opts, r) = (if r \<and> (fstype = ''erofs'' \<or> fstype = ''ext4'') then [src] else [])"
| "image_of _ = []"

definition images_mounted :: "guest_roots \<Rightarrow> string list" where
  "images_mounted st = concat (map image_of (calls st))"

fun other_call :: "kcall \<Rightarrow> bool" where
  "other_call (Mount src dst fstype flags opts) = (fstype \<noteq> ''erofs'' \<and> fstype \<noteq> ''ext4'')"
| "other_call _ = True"

definition same_images :: "guest_roots \<Rightarrow> guest_roots \<Rightarrow> bool" where
  "same_images st st' \<longleftrightarrow> images_mounted st' = images_mounted st \<and> mounted_lowers st' = mounted_lowers st
     \<and> built_roots st' = built_roots st \<and> set (calls st) \<subseteq> set (calls st')"

lemma same_images_refl [simp]: "same_images st st"
  by (simp add: same_images_def)

lemma same_images_trans: "same_images st st' \<Longrightarrow> same_images st' st'' \<Longrightarrow> same_images st st''"
  by (auto simp: same_images_def)

lemma call_same: "other_call c \<Longrightarrow> call ok c st = (r, st') \<Longrightarrow> same_images st st'"
  by (cases c) (auto simp: call_def same_images_def images_mounted_def Let_def)

lemma call_logged: "call ok c st = (r, st') \<Longrightarrow> (c, r) \<in> set (calls st')"
  by (auto simp: call_def Let_def)

lemma call_ignored_same: "other_call c \<Longrightarrow> same_images st (call_ignored ok c st)"
  by (cases "call ok c st") (simp add: call_ignored_def call_same)

lemma call_all_same:
  "call_all ok cs st = (r, st') \<Longrightarrow> list_all other_call cs \<Longrightarrow>
     same_images st st' \<and> (r \<longrightarrow> (\<forall>c \<in> set cs. (c, True) \<in> set (calls st')))"
proof (induction ok cs st arbitrary: r st' rule: call_all.induct)
  case (2 ok c cs st)
  obtain r1 st1 where c: "call ok c st = (r1, st1)" by force
  then have s1: "same_images st st1" using 2(3) by (auto intro: call_same)
  show ?case
  proof (cases r1)
    case True
    with 2 c have "same_images st1 st' \<and> (r \<longrightarrow> (\<forall>c \<in> set cs. (c, True) \<in> set (calls st')))" by auto
    moreover have "(c, True) \<in> set (calls st1)" using call_logged [OF c] True by simp
    ultimately show ?thesis using s1 by (auto simp: same_images_def)
  next
    case False
    with 2(2) c s1 show ?thesis by auto
  qed
qed simp

lemma foldl_same:
  assumes "\<And>st x. x \<in> set xs \<Longrightarrow> same_images st (f st x)"
  shows "same_images st (foldl f st xs)"
  using assms by (induction xs arbitrary: st) (auto intro: same_images_trans)

lemma mount_kernel_fs_same: "same_images st (mount_kernel_fs ok r st)"
  unfolding mount_kernel_fs_def
  by (rule foldl_same) (auto simp: kernel_mounts_def intro!: same_images_trans [OF call_ignored_same call_ignored_same])

lemma ensure_shm_same: "same_images st (ensure_shm ok st)"
proof -
  obtain r st' where c: "call ok (Mount ''tmpfs'' ''/podshm'' ''tmpfs'' [] ''mode=1777'')
      (call_ignored ok (MkdirAll ''/podshm'') st) = (r, st')" by force
  have "same_images st st'" by (rule same_images_trans [OF call_ignored_same call_same [OF _ c]]) simp_all
  then show ?thesis by (simp add: ensure_shm_def c same_images_def images_mounted_def)
qed

lemma bind_shm_same: "same_images st (bind_shm ok r st)"
  by (auto simp: bind_shm_def intro!: same_images_trans [OF call_ignored_same call_ignored_same])

lemma fix_tmp_same: "same_images st (fix_tmp ok r st)"
proof -
  obtain d st1 where c: "call ok (StatDir (r @ ''/tmp'')) st = (d, st1)" by force
  have s1: "same_images st st1" by (rule call_same [OF _ c]) simp
  have "same_images st1 (if d then st1 else call_ignored ok (MkdirAll (r @ ''/tmp'')) st1)"
    by (simp add: call_ignored_same)
  with s1 show ?thesis
    unfolding fix_tmp_def c Let_def prod.case
    by (intro same_images_trans [OF _ call_ignored_same] same_images_trans [OF s1]) simp_all
qed

lemmas same_after_overlay = same_images_trans [OF same_images_trans [OF same_images_trans
  [OF mount_kernel_fs_same ensure_shm_same] bind_shm_same] fix_tmp_same]

text \<open>
  The mounted images are the keys of \<^verbatim>\<open>mountedLowers\<close>, each mounted read-only on its own directory, and
  every built root is an overlay over one of them with a writable layer of its own.
\<close>

definition mounted_ro :: "guest_roots \<Rightarrow> string \<Rightarrow> bool" where
  "mounted_ro st dev \<longleftrightarrow> (\<exists>fstype \<in> {''erofs'', ''ext4''}. (image_mount dev fstype, True) \<in> set (calls st))"

definition overlaid :: "(string \<times> string) set \<Rightarrow> guest_roots \<Rightarrow> string \<Rightarrow> bool" where
  "overlaid bs st r \<longleftrightarrow> (\<exists>name dev. (name, dev) \<in> bs \<and> r = root_dir name \<and> mounted_ro st dev
     \<and> (Mount ''tmpfs'' (rw_dir name) ''tmpfs'' [] [], True) \<in> set (calls st)
     \<and> (Mount ''overlay'' r ''overlay'' [] (overlay_opts (lower_dir dev) (rw_dir name)), True) \<in> set (calls st))"

definition roots_ok :: "(string \<times> string) set \<Rightarrow> guest_roots \<Rightarrow> bool" where
  "roots_ok bs st \<longleftrightarrow> distinct (images_mounted st) \<and> set (images_mounted st) = fst ` set (mounted_lowers st)
     \<and> (\<forall>(dev, p) \<in> set (mounted_lowers st). p = lower_dir dev \<and> mounted_ro st dev)
     \<and> (\<forall>r \<in> set (built_roots st). overlaid bs st r)"

lemma mounted_ro_mono: "set (calls st) \<subseteq> set (calls st') \<Longrightarrow> mounted_ro st dev \<Longrightarrow> mounted_ro st' dev"
  unfolding mounted_ro_def by blast

lemma overlaid_mono:
  "set (calls st) \<subseteq> set (calls st') \<Longrightarrow> bs \<subseteq> bs' \<Longrightarrow> overlaid bs st r \<Longrightarrow> overlaid bs' st' r"
  unfolding overlaid_def using mounted_ro_mono by blast

lemma roots_ok_same:
  assumes "roots_ok bs st" and "same_images st st'" and "bs \<subseteq> bs'"
  shows "roots_ok bs' st'"
proof -
  have sub: "set (calls st) \<subseteq> set (calls st')"
    and eq: "images_mounted st' = images_mounted st" "mounted_lowers st' = mounted_lowers st" "built_roots st' = built_roots st"
    using assms(2) by (simp_all add: same_images_def)
  have "\<forall>(dev, p) \<in> set (mounted_lowers st). p = lower_dir dev \<and> mounted_ro st' dev"
    using assms(1) mounted_ro_mono [OF sub] unfolding roots_ok_def by blast
  moreover have "\<forall>r \<in> set (built_roots st). overlaid bs' st' r"
    using assms(1) overlaid_mono [OF sub assms(3)] unfolding roots_ok_def by blast
  ultimately show ?thesis using assms(1) by (simp add: roots_ok_def eq)
qed

lemma roots_ok_mount:
  assumes "roots_ok bs st" and "call ok (image_mount dev fstype) st = (True, st')"
    and "fstype \<in> {''erofs'', ''ext4''}" and "map_of (mounted_lowers st) dev = None"
  shows "roots_ok bs (st'\<lparr>mounted_lowers := (dev, lower_dir dev) # mounted_lowers st'\<rparr>)"
proof -
  let ?st = "st'\<lparr>mounted_lowers := (dev, lower_dir dev) # mounted_lowers st'\<rparr>"
  have st': "st' = st\<lparr>calls := calls st @ [(image_mount dev fstype, True)]\<rparr>"
    using assms(2) by (auto simp: call_def Let_def)
  then have im: "images_mounted ?st = images_mounted st @ [dev]"
    using assms(3) by (auto simp: images_mounted_def image_mount_def)
  have "dev \<notin> set (images_mounted st)" using assms(1,4) by (auto simp: roots_ok_def map_of_eq_None_iff)
  moreover have "mounted_ro ?st dev" using assms(3) st' by (auto simp: mounted_ro_def)
  moreover have sub: "set (calls st) \<subseteq> set (calls ?st)" using st' by auto
  moreover have "mounted_lowers ?st = (dev, lower_dir dev) # mounted_lowers st" "built_roots ?st = built_roots st"
    using st' by auto
  ultimately show ?thesis
    using assms(1) im mounted_ro_mono [OF sub] overlaid_mono [OF sub order_refl]
    unfolding roots_ok_def by (auto split: if_splits)
qed

lemma ensure_dev_mounted_ok:
  assumes "ensure_dev_mounted ok dev st = (lower, st')" and "roots_ok bs st"
  shows "roots_ok bs st' \<and> (lower \<noteq> None \<longrightarrow> lower = Some (lower_dir dev) \<and> (dev, lower_dir dev) \<in> set (mounted_lowers st'))"
proof (cases "map_of (mounted_lowers st) dev")
  case (Some p)
  then have "(dev, p) \<in> set (mounted_lowers st)" by (rule map_of_SomeD)
  moreover from this have "p = lower_dir dev" using assms(2) by (auto simp: roots_ok_def)
  ultimately show ?thesis using assms Some by (auto simp: ensure_dev_mounted_def)
next
  case None
  let ?st1 = "if mounted_lowers st = [] then call_ignored ok (Mount ''devtmpfs'' ''/dev'' ''devtmpfs'' [] []) st else st"
  obtain made st2 where c2: "call ok (MkdirAll (lower_dir dev)) ?st1 = (made, st2)" by force
  obtain erofs st3 where c3: "call ok (image_mount dev ''erofs'') st2 = (erofs, st3)" by force
  obtain ext4 st4 where c4: "call ok (image_mount dev ''ext4'') st3 = (ext4, st4)" by force
  have "same_images st ?st1" by (simp add: call_ignored_same)
  then have s2: "same_images st st2" by (rule same_images_trans) (rule call_same [OF _ c2], simp)
  then have ok2: "roots_ok bs st2" and n2: "map_of (mounted_lowers st2) dev = None"
    using roots_ok_same [OF assms(2)] None by (auto simp: same_images_def)
  have failed: "same_images st2 st3" if "\<not> erofs"
    using c3 that by (auto simp: call_def same_images_def images_mounted_def image_mount_def Let_def)
  have failed4: "same_images st3 st4" if "\<not> ext4"
    using c4 that by (auto simp: call_def same_images_def images_mounted_def image_mount_def Let_def)
  have res: "(lower, st') = (if \<not> made then (None, st2)
      else if erofs then (Some (lower_dir dev), st3\<lparr>mounted_lowers := (dev, lower_dir dev) # mounted_lowers st3\<rparr>)
      else if ext4 then (Some (lower_dir dev), st4\<lparr>mounted_lowers := (dev, lower_dir dev) # mounted_lowers st4\<rparr>)
      else (None, st4))"
    using assms(1) [symmetric] by (simp only: ensure_dev_mounted_def None option.case Let_def c2 c3 c4 prod.case)
  consider "\<not> made" | "made" "erofs" | "made" "\<not> erofs" "ext4" | "made" "\<not> erofs" "\<not> ext4" by blast
  then show ?thesis
  proof cases
    case 1
    with res ok2 show ?thesis by simp
  next
    case 2
    with res roots_ok_mount [OF ok2 _ _ n2, of ok "''erofs''" st3] c3 show ?thesis by simp
  next
    case 3
    have "roots_ok bs st3" "map_of (mounted_lowers st3) dev = None"
      using failed [OF 3(2)] roots_ok_same [OF ok2] n2 by (auto simp: same_images_def)
    with 3 res roots_ok_mount [of bs st3 ok dev "''ext4''" st4] c4 show ?thesis by simp
  next
    case 4
    have "roots_ok bs st4"
      using failed [OF 4(2)] failed4 [OF 4(3)] roots_ok_same [OF ok2] same_images_trans by blast
    with 4 res show ?thesis by simp
  qed
qed

fun build_all :: "kernel \<Rightarrow> (string \<times> string) list \<Rightarrow> guest_roots \<Rightarrow> guest_roots" where
  "build_all ok [] st = st"
| "build_all ok ((name, dev) # bs) st = build_all ok bs (snd (build_container_root ok name dev st))"

lemma build_container_root_ok:
  assumes "roots_ok bs st" and "(name, dev) \<in> bs"
  shows "roots_ok bs (snd (build_container_root ok name dev st))
    \<and> (\<forall>r. fst (build_container_root ok name dev st) = Some r \<longrightarrow> r = root_dir name
          \<and> overlaid {(name, dev)} (snd (build_container_root ok name dev st)) r)"
proof -
  obtain lower st1 where e: "ensure_dev_mounted ok dev st = (lower, st1)" by force
  note e1 = ensure_dev_mounted_ok [OF e assms(1)]
  show ?thesis
  proof (cases lower)
    case None
    with e e1 show ?thesis by (simp add: build_container_root_def)
  next
    case (Some p)
    with e1 have ok1: "roots_ok bs st1" and p: "p = lower_dir dev" "(dev, p) \<in> set (mounted_lowers st1)" by auto
    obtain r st2 where c: "call_all ok (root_calls name p) st1 = (r, st2)" by force
    have "list_all other_call (root_calls name p)" by (simp add: root_calls_def Let_def)
    from call_all_same [OF c this] have s2: "same_images st1 st2"
      and all: "r \<Longrightarrow> (Mount ''overlay'' (root_dir name) ''overlay'' [] (overlay_opts p (rw_dir name)), True) \<in> set (calls st2)
        \<and> (Mount ''tmpfs'' (rw_dir name) ''tmpfs'' [] [], True) \<in> set (calls st2)"
      by (auto simp: root_calls_def Let_def)
    show ?thesis
    proof (cases r)
      case False
      with e Some c roots_ok_same [OF ok1 s2] show ?thesis by (simp add: build_container_root_def)
    next
      case True
      let ?r = "root_dir name"
      let ?st3 = "fix_tmp ok ?r (bind_shm ok ?r (ensure_shm ok (mount_kernel_fs ok ?r st2)))"
      have s3: "same_images st2 ?st3" by (rule same_after_overlay)
      have ok3: "roots_ok bs ?st3" using roots_ok_same [OF ok1 same_images_trans [OF s2 s3]] by simp
      have "(dev, p) \<in> set (mounted_lowers ?st3)" using p s2 s3 by (simp add: same_images_def)
      then have "mounted_ro ?st3 dev" using ok3 by (auto simp: roots_ok_def)
      moreover have "(Mount ''overlay'' ?r ''overlay'' [] (overlay_opts p (rw_dir name)), True) \<in> set (calls ?st3)"
        "(Mount ''tmpfs'' (rw_dir name) ''tmpfs'' [] [], True) \<in> set (calls ?st3)"
        using all [OF True] s3 by (auto simp: same_images_def)
      ultimately have own: "overlaid {(name, dev)} ?st3 ?r" using p(1) by (auto simp: overlaid_def)
      then have "overlaid bs ?st3 ?r" using assms(2) overlaid_mono [OF order_refl, of "{(name, dev)}" bs] by blast
      with ok3 have "roots_ok bs (?st3\<lparr>built_roots := built_roots ?st3 @ [?r]\<rparr>)"
        by (simp add: roots_ok_def images_mounted_def mounted_ro_def overlaid_def)
      moreover have "overlaid {(name, dev)} (?st3\<lparr>built_roots := built_roots ?st3 @ [?r]\<rparr>) ?r"
        using own by (simp add: overlaid_def mounted_ro_def)
      ultimately show ?thesis using e Some c True by (simp add: build_container_root_def Let_def)
    qed
  qed
qed

text \<open>What has been called stays on the record.\<close>

lemma call_kept: "set (calls st) \<subseteq> set (calls (snd (call ok c st)))" "set (calls st) \<subseteq> set (calls (call_ignored ok c st))"
  by (auto simp: call_def call_ignored_def Let_def)

lemma ensure_dev_mounted_kept: "set (calls st) \<subseteq> set (calls (snd (ensure_dev_mounted ok dev st)))"
proof (cases "map_of (mounted_lowers st) dev")
  case None
  show ?thesis unfolding ensure_dev_mounted_def None
    by (auto simp: call_def call_ignored_def Let_def)
qed (simp add: ensure_dev_mounted_def)

lemma build_container_root_kept: "set (calls st) \<subseteq> set (calls (snd (build_container_root ok name dev st)))"
proof -
  obtain lower st1 where e: "ensure_dev_mounted ok dev st = (lower, st1)" by force
  have k1: "set (calls st) \<subseteq> set (calls st1)" using ensure_dev_mounted_kept [of st ok dev] e by simp
  show ?thesis
  proof (cases lower)
    case None
    then show ?thesis using e k1 by (simp add: build_container_root_def)
  next
    case (Some p)
    obtain r st2 where c: "call_all ok (root_calls name p) st1 = (r, st2)" by force
    have "list_all other_call (root_calls name p)" by (simp add: root_calls_def Let_def)
    then have k2: "set (calls st1) \<subseteq> set (calls st2)" using call_all_same [OF c] by (simp add: same_images_def)
    have "set (calls st2) \<subseteq> set (calls (fix_tmp ok (root_dir name) (bind_shm ok (root_dir name) (ensure_shm ok (mount_kernel_fs ok (root_dir name) st2)))))"
      using same_after_overlay by (simp add: same_images_def)
    then show ?thesis using e Some c k1 k2 by (auto simp: build_container_root_def Let_def)
  qed
qed

lemma build_all_ok: "roots_ok bs st \<Longrightarrow> set cs \<subseteq> bs \<Longrightarrow> roots_ok bs (build_all ok cs st)"
  by (induction ok cs st rule: build_all.induct) (use build_container_root_ok in auto)

text \<open>Whatever the kernel lets fail, building the roots of a pod's containers mounts every image
  device at most once and read-only, and every root that was built is an overlay whose lower layer
  is the image of one of the containers of that name and whose writable layer belongs to that
  name alone.\<close>

theorem images_mounted_once:
  "distinct (images_mounted (build_all ok bs no_roots))
   \<and> set (images_mounted (build_all ok bs no_roots)) = fst ` set (mounted_lowers (build_all ok bs no_roots))
   \<and> (\<forall>r \<in> set (built_roots (build_all ok bs no_roots)). overlaid (set bs) (build_all ok bs no_roots) r)"
proof -
  have "roots_ok (set bs) no_roots" by (simp add: roots_ok_def no_roots_def images_mounted_def)
  from build_all_ok [OF this order_refl, of ok] show ?thesis by (auto simp: roots_ok_def)
qed

lemma images_mounted_once_witness:
  "distinct (images_mounted (build_all (\<lambda>_ _. True) [(''a'', ''/dev/vda''), (''b'', ''/dev/vda'')] no_roots))"
  using images_mounted_once [of "\<lambda>_ _. True" "[(''a'', ''/dev/vda''), (''b'', ''/dev/vda'')]"] by blast

end
