(* ===== verification/Pod_Lifecycle.thy ===== *)
theory Pod_Lifecycle imports Agent_Status begin

text \<open>
  The life of a pod on the agent (\<^verbatim>\<open>poc/agent/main.go\<close>): \<^verbatim>\<open>reconcilePod\<close> and \<^verbatim>\<open>podDeleted\<close> react to the
  watch, \<^verbatim>\<open>runPod\<close> is one goroutine per pod, \<^verbatim>\<open>killVM\<close> another per stop, and all of them share the
  \<^verbatim>\<open>podVM\<close> objects through \<^verbatim>\<open>a.vms\<close>.  The goroutines are explicit: a \<open>pod_run\<close> holds where its
  goroutine stands, \<open>pending_kills\<close> the \<^verbatim>\<open>killVM\<close>s not yet run, and an event says who moves next and what
  the world answered it.  Between two events the code runs without waiting for anything but locks
  and API calls.  \<open>heap\<close> is the store of \<^verbatim>\<open>podVM\<close> objects: several goroutines alias one of them, and a
  second object for the same UID is a different address.
\<close>

subsection \<open>State\<close>

record status_put =
  put_ns :: string
  put_name :: string
  put_phase :: phase
  put_reason :: string
  put_message :: string
  put_ready :: bool
  put_ip :: string
  put_ics :: "c_status list"
  put_css :: "c_status list"

text \<open>What leaves the agent: the request sequences to the apiserver and the process actions.  A status
  is fetched and written back, so it changes nothing when the object is gone.  Addresses name VMs; \<open>RetryIn\<close> is the wait, in seconds, a goroutine goes into.\<close>

datatype effect =
    PutStatus status_put
  | DeletePod string string bool
  | CreatePod kpod
  | CreateService string string string "(string \<times> int) list"
  | DeleteService string string
  | StartVm nat
  | ShutdownVm nat int
  | KillVm nat
  | RetryIn nat

text \<open>\<^verbatim>\<open>podVM\<close>.  \<open>v_cmd\<close>: \<^verbatim>\<open>cmd\<close> has been set; \<open>v_stop_used\<close>: \<^verbatim>\<open>stopOnce\<close> has run; \<open>v_push\<close>: the digest of
  \<^verbatim>\<open>lastPush\<close>; \<open>v_last\<close>: the last status reported, kept for the mirror pod.\<close>

record pod_vm =
  v_uid :: string
  v_name :: string
  v_ns :: string
  v_static :: bool
  v_mirror :: string
  v_cmd :: bool
  v_ready :: "string \<rightharpoonup> bool"
  v_stopping :: bool
  v_restarts :: nat
  v_ip :: string
  v_stop_used :: bool
  v_push :: "pushed option"
  v_last :: "(phase \<times> string \<times> string \<times> c_status list \<times> c_status list) option"

definition fresh_vm :: "string \<Rightarrow> string \<Rightarrow> string \<Rightarrow> bool \<Rightarrow> string \<Rightarrow> pod_vm" where
  "fresh_vm uid name ns static mirror =
     \<lparr>v_uid = uid, v_name = name, v_ns = ns, v_static = static, v_mirror = mirror, v_cmd = False,
      v_ready = Map.empty, v_stopping = False, v_restarts = 0, v_ip = [], v_stop_used = False,
      v_push = None, v_last = None\<rparr>"

text \<open>Where a \<^verbatim>\<open>runPod\<close> goroutine stands; the number is the loop's \<^verbatim>\<open>attempt\<close>.  \<open>Leaving\<close>: everything but
  the deferred removal from \<^verbatim>\<open>a.vms\<close> is done.\<close>

datatype run_pc =
    Entered
  | Preparing nat
  | PrepWait nat
  | Booting nat
  | BootWait nat
  | VmUp nat
  | CrashWait nat
  | Leaving
  | Left

record pod_run =
  r_pod :: kpod
  r_vm :: nat
  r_pc :: run_pc
  r_late :: "pushed list"

record agent_st =
  heap :: "pod_vm list"
  vms :: "string \<rightharpoonup> nat"
  vips :: "string \<rightharpoonup> nat"
  runs :: "pod_run list"
  pending_kills :: "(nat \<times> int) list"
  backstops :: "nat list"
  api_up :: bool

definition upd_vm :: "nat \<Rightarrow> (pod_vm \<Rightarrow> pod_vm) \<Rightarrow> agent_st \<Rightarrow> agent_st" where
  "upd_vm a f s = s\<lparr>heap := (heap s)[a := f (heap s ! a)]\<rparr>"

definition set_pc :: "nat \<Rightarrow> run_pc \<Rightarrow> agent_st \<Rightarrow> agent_st" where
  "set_pc i pc s = s\<lparr>runs := (runs s)[i := (runs s ! i)\<lparr>r_pc := pc\<rparr>]\<rparr>"

definition is_mirror :: "kpod \<Rightarrow> bool" where
  "is_mirror pod = (case kp_annot pod ''kubernetes.io/config.mirror'' of None \<Rightarrow> False | Some m \<Rightarrow> m \<noteq> [])"

text \<open>\<^verbatim>\<open>podStateUID\<close>: a mirror pod is keyed by the hash it carries.\<close>

definition pod_state_uid :: "kpod \<Rightarrow> string" where
  "pod_state_uid pod =
     (if is_mirror pod
      then case kp_annot pod ''kubernetes.io/config.hash'' of
             None \<Rightarrow> kp_uid pod | Some h \<Rightarrow> if h = [] then kp_uid pod else h
      else kp_uid pod)"

subsection \<open>Reporting\<close>

text \<open>\<^verbatim>\<open>setPhase\<close>.  The VM is looked up by UID, so the entry of that moment is used.\<close>

definition set_phase :: "kpod \<Rightarrow> phase \<Rightarrow> string \<Rightarrow> string \<Rightarrow> c_status list \<Rightarrow> c_status list \<Rightarrow> agent_st
    \<Rightarrow> agent_st \<times> effect list" where
  "set_phase pod ph why msg ics css s =
     (let vm = map_option (\<lambda>a. heap s ! a) (vms s (kp_uid pod));
          name = (case vm of Some v \<Rightarrow> if v_static v then v_mirror v else kp_name pod | None \<Rightarrow> kp_name pod);
          s1 = (case vms s (kp_uid pod) of
                  Some a \<Rightarrow> if v_static (heap s ! a) then upd_vm a (\<lambda>v. v\<lparr>v_last := Some (ph, why, msg, ics, css)\<rparr>) s else s
                | None \<Rightarrow> s);
          put = \<lparr>put_ns = kp_ns pod, put_name = name, put_phase = ph, put_reason = why, put_message = msg,
                 put_ready = pod_ready ph css, put_ip = (case vm of Some v \<Rightarrow> v_ip v | None \<Rightarrow> []),
                 put_ics = ics, put_css = css\<rparr>
      in (s1, if api_up s then [PutStatus put] else []))"

definition finalize_pod :: "kpod \<Rightarrow> nat \<Rightarrow> agent_st \<Rightarrow> effect list" where
  "finalize_pod pod a s =
     (if \<not> api_up s then []
      else [DeletePod (kp_ns pod) (if v_static (heap s ! a) then v_mirror (heap s ! a) else kp_name pod) True])"

subsection \<open>The watch\<close>

text \<open>\<^verbatim>\<open>stopOnce.Do\<close>: the first stop marks the VM and starts a \<^verbatim>\<open>killVM\<close>; later ones do nothing.\<close>

definition stop_once :: "nat \<Rightarrow> int \<Rightarrow> agent_st \<Rightarrow> agent_st" where
  "stop_once a grace s =
     (if v_stop_used (heap s ! a) then s
      else (upd_vm a (\<lambda>v. v\<lparr>v_stop_used := True, v_stopping := True\<rparr>) s)
             \<lparr>pending_kills := pending_kills s @ [(a, grace)]\<rparr>)"

text \<open>A new \<^verbatim>\<open>podVM\<close> in \<^verbatim>\<open>a.vms\<close> and its \<^verbatim>\<open>runPod\<close> goroutine.\<close>

definition launch_run :: "kpod \<Rightarrow> pod_vm \<Rightarrow> agent_st \<Rightarrow> agent_st" where
  "launch_run pod vm s =
     s\<lparr>heap := heap s @ [vm], vms := (vms s)(kp_uid pod \<mapsto> length (heap s)),
       runs := runs s @ [\<lparr>r_pod = pod, r_vm = length (heap s), r_pc = Entered, r_late = []\<rparr>]\<rparr>"

definition ended_phase :: "phase option \<Rightarrow> bool" where
  "ended_phase ph \<longleftrightarrow> ph = Some PodSucceeded \<or> ph = Some PodFailed"

definition reconcile_pod :: "kpod \<Rightarrow> agent_st \<Rightarrow> agent_st \<times> effect list" where
  "reconcile_pod pod s =
     (if is_mirror pod then
        (s, if kp_deleting pod \<and> vms s (pod_state_uid pod) = None
            then [DeletePod (kp_ns pod) (kp_name pod) True] else [])
      else if kp_deleting pod then
        (case vms s (kp_uid pod) of
           None \<Rightarrow> (s, [DeletePod (kp_ns pod) (kp_name pod) True])
         | Some a \<Rightarrow> (stop_once a (pod_grace_period pod) s, []))
      else if vms s (kp_uid pod) \<noteq> None \<or> ended_phase (kp_phase pod) then (s, [])
      else (launch_run pod (fresh_vm (kp_uid pod) (kp_name pod) (kp_ns pod) False []) s, []))"

definition pod_deleted :: "kpod \<Rightarrow> agent_st \<Rightarrow> agent_st" where
  "pod_deleted pod s =
     (if is_mirror pod then s
      else case vms s (kp_uid pod) of None \<Rightarrow> s | Some a \<Rightarrow> stop_once a (pod_grace_period pod) s)"

subsection \<open>Stopping\<close>

definition drop_at :: "nat \<Rightarrow> 'a list \<Rightarrow> 'a list" where
  "drop_at k xs = take k xs @ drop (Suc k) xs"

text \<open>\<^verbatim>\<open>killVM\<close>: \<open>reached\<close> says whether execd took the shutdown request; if not, the harness process is
  killed, if there is one.  The backstop timer kills whatever process the VM has by then.\<close>

definition kill_vm :: "nat \<Rightarrow> bool \<Rightarrow> agent_st \<Rightarrow> agent_st \<times> effect list" where
  "kill_vm k reached s =
     (let (a, grace) = pending_kills s ! k;
          s1 = s\<lparr>pending_kills := drop_at k (pending_kills s)\<rparr>
      in if reached then (s1\<lparr>backstops := backstops s @ [a]\<rparr>, [ShutdownVm a grace])
         else (s1, if v_cmd (heap s ! a) then [KillVm a] else []))"

definition backstop :: "nat \<Rightarrow> agent_st \<Rightarrow> agent_st \<times> effect list" where
  "backstop k s =
     (let a = backstops s ! k
      in (s\<lparr>backstops := drop_at k (backstops s)\<rparr>, if v_cmd (heap s ! a) then [KillVm a] else []))"

subsection \<open>The goroutine of a pod\<close>

text \<open>What the world answers a \<^verbatim>\<open>runPod\<close>: the preparation and the start of the VM succeed or fail (the
  address is that of the routed network, set even when a later step of the start fails), the harness
  process exits with or without a final status (and within five minutes or later), the guest answers
  a status poll or not, a probe changes a container's readiness, a wait ends or the agent shuts down.\<close>

datatype run_event =
    Proceed
  | Prepared
  | PrepFailed string string
  | BootFailed "string option" string
  | Booted "string option"
  | Exited "container_status list option" bool
  | Polled "container_status list option"
  | ProbeSays string bool "container_status list option"
  | Reported
  | Woken
  | Cancelled

definition prep_backoff :: "nat \<Rightarrow> nat" where
  "prep_backoff n = 10 * 2 ^ min n 5"

definition boot_backoff :: "nat \<Rightarrow> nat" where
  "boot_backoff n = 2 ^ min n 5"

definition set_waiting :: "kpod \<Rightarrow> phase \<Rightarrow> string \<Rightarrow> string \<Rightarrow> agent_st \<Rightarrow> agent_st \<times> effect list" where
  "set_waiting pod ph why msg s =
     set_phase pod ph [] [] (waiting_statuses (kp_inits pod) why msg) (waiting_statuses (kp_mains pod) why msg) s"

text \<open>\<^verbatim>\<open>fail\<close> and the return after it.\<close>

definition fail_run :: "nat \<Rightarrow> string \<Rightarrow> string \<Rightarrow> agent_st \<Rightarrow> agent_st \<times> effect list" where
  "fail_run i why err s =
     (let (s1, out) = set_phase (r_pod (runs s ! i)) PodFailed why err [] [] s in (set_pc i Leaving s1, out))"

text \<open>\<^verbatim>\<open>retryStart\<close> up to its wait.\<close>

definition retry_start :: "nat \<Rightarrow> nat \<Rightarrow> string \<Rightarrow> agent_st \<Rightarrow> agent_st \<times> effect list" where
  "retry_start i n err s =
     (if policy_of (r_pod (runs s ! i)) = ''Never'' then fail_run i ''StartError'' err s
      else let (s1, out) = set_waiting (r_pod (runs s ! i)) PodPending ''StartError'' err s
           in (set_pc i (BootWait n) s1, out @ [RetryIn (boot_backoff n)]))"

text \<open>After a wait: a VM told to stop is finalized, any other goes on.\<close>

definition wake_run :: "nat \<Rightarrow> run_pc \<Rightarrow> agent_st \<Rightarrow> agent_st \<times> effect list" where
  "wake_run i next_pc s =
     (let r = runs s ! i
      in if v_stopping (heap s ! r_vm r) then (set_pc i Leaving s, finalize_pod (r_pod r) (r_vm r) s)
         else (set_pc i next_pc s, []))"

definition enter_run :: "bool \<Rightarrow> nat \<Rightarrow> agent_st \<Rightarrow> agent_st \<times> effect list" where
  "enter_run block i s =
     (let pod = r_pod (runs s ! i)
      in if \<not> block \<and> (1 < length (kp_mains pod) \<or> kp_inits pod \<noteq> [])
         then fail_run i ''StartError'' ''multi-container pods require --image-block'' s
         else (set_pc i (Preparing 0) (upd_vm (r_vm (runs s ! i)) (\<lambda>v. v\<lparr>v_ready := init_ready pod\<rparr>) s), []))"

definition prep_failed :: "nat \<Rightarrow> nat \<Rightarrow> string \<Rightarrow> string \<Rightarrow> agent_st \<Rightarrow> agent_st \<times> effect list" where
  "prep_failed i n why err s =
     (if kp_mains (r_pod (runs s ! i)) = [] then fail_run i ''StartError'' err s
      else let (s1, out) = set_waiting (r_pod (runs s ! i)) PodPending why err s
           in (set_pc i (PrepWait n) s1, out @ [RetryIn (prep_backoff n)]))"

definition set_ip :: "nat \<Rightarrow> string option \<Rightarrow> agent_st \<Rightarrow> agent_st" where
  "set_ip a ip s = (case ip of None \<Rightarrow> s | Some x \<Rightarrow> upd_vm a (\<lambda>v. v\<lparr>v_ip := x\<rparr>) s)"

definition booted :: "nat \<Rightarrow> nat \<Rightarrow> string option \<Rightarrow> agent_st \<Rightarrow> agent_st \<times> effect list" where
  "booted i n ip s =
     (let a = r_vm (runs s ! i)
      in (set_pc i (VmUp n) (upd_vm a (\<lambda>v. v\<lparr>v_cmd := True\<rparr>) (set_ip a ip s)), [StartVm a]))"

text \<open>The end of \<^verbatim>\<open>runPod\<close>'s loop body, after \<^verbatim>\<open>cmd.Wait\<close>.\<close>

definition vm_exited :: "nat \<Rightarrow> nat \<Rightarrow> container_status list option \<Rightarrow> bool \<Rightarrow> agent_st \<Rightarrow> agent_st \<times> effect list" where
  "vm_exited i n final long s =
     (let r = runs s ! i; pod = r_pod r; a = r_vm r; vm = heap s ! a
      in case final of
           Some sts \<Rightarrow>
             let (ics, css, ph) = translate_statuses pod sts (v_ready vm);
                 (s1, out) = set_phase pod (final_phase ics css) [] [] ics css s
             in (set_pc i Leaving s1, out @ (if v_stopping vm then finalize_pod pod a s1 else []))
         | None \<Rightarrow>
             if v_stopping vm then
               let (s1, out) = set_phase pod PodFailed ''VMCrashed'' ''microVM exited without a final status'' [] [] s
               in (set_pc i Leaving s1, out @ finalize_pod pod a s1)
             else if policy_of pod = ''Never'' then
               fail_run i ''VMCrashed'' ''microVM exited without a final status'' s
             else
               let m = (if long then 0 else n);
                   (s1, out) = set_waiting pod PodRunning ''CrashLoopBackOff''
                     (''VM restarting in '' @ nat_digits (boot_backoff m) @ ''s'')
                     (upd_vm a (\<lambda>v. v\<lparr>v_restarts := Suc (v_restarts v)\<rparr>) s)
               in (set_pc i (CrashWait m) s1, out @ [RetryIn (boot_backoff m)]))"

text \<open>\<^verbatim>\<open>pushStatus\<close> is not atomic: the poll and the digest come first, the write to the apiserver may come
  any time later, even after the VM exited.\<close>

definition poll_status :: "nat \<Rightarrow> container_status list option \<Rightarrow> agent_st \<Rightarrow> agent_st" where
  "poll_status i answer s =
     (let r = runs s ! i; vm = heap s ! r_vm r;
          (outs, prev) = push_status (r_pod r) answer (v_ready vm) (v_push vm);
          s1 = upd_vm (r_vm r) (\<lambda>v. v\<lparr>v_push := prev\<rparr>) s
      in s1\<lparr>runs := (runs s1)[i := r\<lparr>r_late := r_late r @ outs\<rparr>]\<rparr>)"

definition probe_says :: "nat \<Rightarrow> string \<Rightarrow> bool \<Rightarrow> container_status list option \<Rightarrow> agent_st \<Rightarrow> agent_st" where
  "probe_says i name ready answer s =
     (let a = r_vm (runs s ! i);
          (changed, m) = set_container_ready name ready (v_ready (heap s ! a));
          s1 = upd_vm a (\<lambda>v. v\<lparr>v_ready := m\<rparr>) s
      in if changed then poll_status i answer s1 else s1)"

definition report_late :: "nat \<Rightarrow> agent_st \<Rightarrow> agent_st \<times> effect list" where
  "report_late i s =
     (case r_late (runs s ! i) of
        [] \<Rightarrow> (s, [])
      | (ics, css, ph) # rest \<Rightarrow>
          set_phase (r_pod (runs s ! i)) ph [] [] ics css (s\<lparr>runs := (runs s)[i := (runs s ! i)\<lparr>r_late := rest\<rparr>]\<rparr>))"

definition leave_run :: "nat \<Rightarrow> agent_st \<Rightarrow> agent_st" where
  "leave_run i s = set_pc i Left (s\<lparr>vms := (vms s)(kp_uid (r_pod (runs s ! i)) := None)\<rparr>)"

text \<open>One move of goroutine \<open>i\<close>; an answer to a question it is not waiting on changes nothing.\<close>

definition run_step :: "bool \<Rightarrow> nat \<Rightarrow> run_event \<Rightarrow> agent_st \<Rightarrow> agent_st \<times> effect list" where
  "run_step block i ev s =
     (if ev = Reported then report_late i s else
      case r_pc (runs s ! i) of
        Entered \<Rightarrow> (case ev of Proceed \<Rightarrow> enter_run block i s | _ \<Rightarrow> (s, []))
      | Preparing n \<Rightarrow> (case ev of
            Prepared \<Rightarrow> (set_pc i (Booting 0) s, [])
          | PrepFailed why err \<Rightarrow> prep_failed i n why err s
          | _ \<Rightarrow> (s, []))
      | PrepWait n \<Rightarrow> (case ev of
            Woken \<Rightarrow> wake_run i (Preparing (Suc n)) s
          | Cancelled \<Rightarrow> (set_pc i Leaving s, [])
          | _ \<Rightarrow> (s, []))
      | Booting n \<Rightarrow> (case ev of
            Booted ip \<Rightarrow> booted i n ip s
          | BootFailed ip err \<Rightarrow> retry_start i n err (set_ip (r_vm (runs s ! i)) ip s)
          | _ \<Rightarrow> (s, []))
      | BootWait n \<Rightarrow> (case ev of
            Woken \<Rightarrow> wake_run i (Booting (Suc n)) s
          | Cancelled \<Rightarrow> (set_pc i Leaving s, [])
          | _ \<Rightarrow> (s, []))
      | VmUp n \<Rightarrow> (case ev of
            Exited final long \<Rightarrow> vm_exited i n final long s
          | Polled answer \<Rightarrow> (poll_status i answer s, [])
          | ProbeSays name ready answer \<Rightarrow> (probe_says i name ready answer s, [])
          | _ \<Rightarrow> (s, []))
      | CrashWait n \<Rightarrow> (case ev of
            Woken \<Rightarrow> wake_run i (Booting (Suc n)) s
          | Cancelled \<Rightarrow> (set_pc i Leaving s, [])
          | _ \<Rightarrow> (s, []))
      | Leaving \<Rightarrow> (case ev of
            Proceed \<Rightarrow> (leave_run i s, [])
          | _ \<Rightarrow> (s, []))
      | Left \<Rightarrow> (s, []))"

subsection \<open>The agent\<close>

datatype agent_event =
    PodSeen kpod
  | PodGone kpod
  | RunMoves nat run_event
  | KillRuns nat bool
  | BackstopFires nat

definition agent_step :: "bool \<Rightarrow> agent_event \<Rightarrow> agent_st \<Rightarrow> agent_st \<times> effect list" where
  "agent_step block ev s =
     (case ev of
        PodSeen pod \<Rightarrow> reconcile_pod pod s
      | PodGone pod \<Rightarrow> (pod_deleted pod s, [])
      | RunMoves i e \<Rightarrow> if i < length (runs s) then run_step block i e s else (s, [])
      | KillRuns k reached \<Rightarrow> if k < length (pending_kills s) then kill_vm k reached s else (s, [])
      | BackstopFires k \<Rightarrow> if k < length (backstops s) then backstop k s else (s, []))"

definition idle_agent :: "bool \<Rightarrow> agent_st" where
  "idle_agent up =
     \<lparr>heap = [], vms = Map.empty, vips = Map.empty, runs = [], pending_kills = [], backstops = [], api_up = up\<rparr>"

end
