(* ===== verification/Pod_Props.thy ===== *)
theory Pod_Props imports Pod_Lifecycle begin

text \<open>
  What holds of the agent whatever the events are: the store of VMs and \<^verbatim>\<open>a.vms\<close> stay consistent with
  the goroutines, so that a pod never runs twice at once; how a run ends; and, by concrete event
  sequences, the two ways a pod escapes the intended life cycle.
\<close>

subsection \<open>What a move leaves alone\<close>

definition vm_id :: "pod_vm \<Rightarrow> string \<times> bool \<times> string \<times> bool \<times> bool" where
  "vm_id v = (v_uid v, v_static v, v_mirror v, v_stop_used v, v_stopping v)"

definition kept :: "nat \<Rightarrow> agent_st \<Rightarrow> agent_st \<Rightarrow> bool" where
  "kept i s s' \<longleftrightarrow> length (runs s') = length (runs s) \<and> (\<forall>j. j \<noteq> i \<longrightarrow> runs s' ! j = runs s ! j)
     \<and> r_pod (runs s' ! i) = r_pod (runs s ! i) \<and> r_vm (runs s' ! i) = r_vm (runs s ! i)
     \<and> vms s' = vms s \<and> vips s' = vips s \<and> pending_kills s' = pending_kills s \<and> backstops s' = backstops s
     \<and> api_up s' = api_up s \<and> map vm_id (heap s') = map vm_id (heap s)"

lemma kept_refl [simp]: "kept i s s"
  by (simp add: kept_def)

lemma kept_trans: "kept i s s1 \<Longrightarrow> kept i s1 s2 \<Longrightarrow> kept i s s2"
  by (simp add: kept_def)

lemma kept_set_pc: "i < length (runs s) \<Longrightarrow> kept i s (set_pc i pc s)"
  by (simp add: kept_def set_pc_def)

lemma map_upd_same: "f y = f (xs ! a) \<Longrightarrow> map f (xs[a := y]) = map f xs"
  by (metis list_update_id map_update)

lemma kept_upd_vm: "vm_id (f (heap s ! a)) = vm_id (heap s ! a) \<Longrightarrow> kept i s (upd_vm a f s)"
  by (simp add: kept_def upd_vm_def map_upd_same)

lemma kept_set_phase: "kept i s (fst (set_phase pod ph why msg ics css s))"
  by (auto simp: set_phase_def Let_def vm_id_def intro!: kept_upd_vm split: option.splits)

lemma runs_set_phase [simp]: "runs (fst (set_phase pod ph why msg ics css s)) = runs s"
  by (auto simp: set_phase_def Let_def upd_vm_def split: option.splits)

lemma kept_set_ip: "kept i s (set_ip a ip s)"
  by (auto simp: set_ip_def vm_id_def intro: kept_upd_vm split: option.split)

lemma kept_then_pc:
  assumes "kept i s s1" and "i < length (runs s)"
  shows "kept i s (set_pc i pc s1)"
  using kept_trans [OF assms(1) kept_set_pc] assms by (simp add: kept_def)

lemma kept_fail_run: "i < length (runs s) \<Longrightarrow> kept i s (fst (fail_run i why err s))"
  using kept_set_phase by (auto simp: fail_run_def split_beta Let_def intro!: kept_then_pc)

lemma kept_poll_status: "i < length (runs s) \<Longrightarrow> kept i s (poll_status i answer s)"
  by (simp add: kept_def poll_status_def split_beta Let_def upd_vm_def map_upd_same vm_id_def)

lemma kept_probe_says: "i < length (runs s) \<Longrightarrow> kept i s (probe_says i name ready answer s)"
proof -
  assume i: "i < length (runs s)"
  let ?s = "upd_vm (r_vm (runs s ! i)) (\<lambda>v. v\<lparr>v_ready := snd (set_container_ready name ready (v_ready (heap s ! r_vm (runs s ! i))))\<rparr>) s"
  have k: "kept i s ?s" by (auto intro!: kept_upd_vm simp: vm_id_def)
  moreover have "kept i ?s (poll_status i answer ?s)" using i by (intro kept_poll_status) (simp add: upd_vm_def)
  ultimately show ?thesis by (auto simp: probe_says_def split_beta Let_def intro: kept_trans)
qed

lemma kept_report_late: "i < length (runs s) \<Longrightarrow> kept i s (fst (report_late i s))"
proof -
  assume i: "i < length (runs s)"
  have "kept i s (s\<lparr>runs := (runs s)[i := (runs s ! i)\<lparr>r_late := rest\<rparr>]\<rparr>)" for rest
    using i by (simp add: kept_def)
  then show ?thesis
    by (auto simp: report_late_def intro: kept_trans [OF _ kept_set_phase] split: list.split)
qed

lemma kept_booted: "i < length (runs s) \<Longrightarrow> kept i s (fst (booted i n ip s))"
  unfolding booted_def Let_def fst_conv
  by (rule kept_then_pc [OF kept_trans [OF kept_set_ip kept_upd_vm]]) (simp_all add: vm_id_def)

lemma kept_retry_start: "i < length (runs s) \<Longrightarrow> kept i s (fst (retry_start i n err s))"
  by (auto simp: retry_start_def set_waiting_def split_beta Let_def
      intro!: kept_then_pc kept_set_phase kept_fail_run)

lemma runs_set_ip [simp]: "runs (set_ip a ip s) = runs s"
  by (simp add: set_ip_def upd_vm_def split: option.split)

lemma runs_upd_vm [simp]: "runs (upd_vm a f s) = runs s"
  by (simp add: upd_vm_def)

lemma kept_vm_exited: "i < length (runs s) \<Longrightarrow> kept i s (fst (vm_exited i n final long s))"
  unfolding vm_exited_def
  by (auto simp: set_waiting_def split_beta Let_def vm_id_def
      intro!: kept_then_pc kept_set_phase kept_fail_run kept_trans [OF kept_upd_vm kept_set_phase] split: option.split)

lemma kept_prep: "i < length (runs s) \<Longrightarrow> kept i s (fst (enter_run block i s))"
    "i < length (runs s) \<Longrightarrow> kept i s (fst (prep_failed i n why err s))"
    "i < length (runs s) \<Longrightarrow> kept i s (fst (wake_run i pc s))"
  by (auto simp: enter_run_def prep_failed_def wake_run_def set_waiting_def split_beta Let_def vm_id_def
      intro!: kept_then_pc kept_set_phase kept_fail_run kept_upd_vm)

lemmas kept_moves = kept_prep kept_vm_exited kept_retry_start kept_booted kept_report_late kept_probe_says
  kept_poll_status kept_fail_run kept_set_ip

text \<open>Every move but the last of a goroutine keeps all the rest of the agent.\<close>

lemma kept_run_step:
  assumes "i < length (runs s)" and "\<not> (r_pc (runs s ! i) = Leaving \<and> ev = Proceed)"
  shows "kept i s (fst (run_step block i ev s))"
proof -
  have "kept i s (fst (retry_start i n err (set_ip (r_vm (runs s ! i)) ip s)))" for n err ip
    using kept_trans [OF kept_set_ip kept_retry_start] assms(1) by simp
  then show ?thesis
    using assms by (auto simp: run_step_def kept_moves kept_set_pc split: run_pc.split run_event.split)
qed

lemma run_step_leaves:
  "r_pc (runs s ! i) = Leaving \<Longrightarrow> run_step block i Proceed s = (leave_run i s, [])"
  by (simp add: run_step_def)

subsection \<open>Where a move leads\<close>

lemma pc_set_pc [simp]: "i < length (runs s) \<Longrightarrow> r_pc (runs (set_pc i pc s) ! i) = pc"
  by (simp add: set_pc_def)

lemma pc_fail_run [simp]: "i < length (runs s) \<Longrightarrow> r_pc (runs (fst (fail_run i why err s)) ! i) = Leaving"
  by (simp add: fail_run_def split_beta Let_def)

lemma pc_poll_status [simp]: "i < length (runs s) \<Longrightarrow> r_pc (runs (poll_status i answer s) ! i) = r_pc (runs s ! i)"
  by (simp add: poll_status_def split_beta Let_def)

lemma pc_probe_says [simp]: "i < length (runs s) \<Longrightarrow> r_pc (runs (probe_says i name b answer s) ! i) = r_pc (runs s ! i)"
  by (simp add: probe_says_def split_beta Let_def)

lemma pc_report_late [simp]: "i < length (runs s) \<Longrightarrow> r_pc (runs (fst (report_late i s)) ! i) = r_pc (runs s ! i)"
  by (auto simp: report_late_def split: list.split)

definition next_pcs :: "run_pc \<Rightarrow> run_pc set" where
  "next_pcs pc = (case pc of
      Entered \<Rightarrow> {Entered, Preparing 0, Leaving}
    | Preparing n \<Rightarrow> {Preparing n, Booting 0, PrepWait n, Leaving}
    | PrepWait n \<Rightarrow> {PrepWait n, Preparing (Suc n), Leaving}
    | Booting n \<Rightarrow> {Booting n, VmUp n, BootWait n, Leaving}
    | BootWait n \<Rightarrow> {BootWait n, Booting (Suc n), Leaving}
    | VmUp n \<Rightarrow> {VmUp n, CrashWait n, CrashWait 0, Leaving}
    | CrashWait n \<Rightarrow> {CrashWait n, Booting (Suc n), Leaving}
    | Leaving \<Rightarrow> {Leaving, Left}
    | Left \<Rightarrow> {Left})"

lemma run_step_pc:
  "i < length (runs s) \<Longrightarrow> r_pc (runs (fst (run_step block i ev s)) ! i) \<in> next_pcs (r_pc (runs s ! i))"
  by (auto simp: run_step_def next_pcs_def enter_run_def prep_failed_def wake_run_def booted_def retry_start_def
      vm_exited_def leave_run_def set_waiting_def split_beta Let_def split: run_pc.split run_event.split option.split)

subsection \<open>The invariant\<close>

definition live :: "agent_st \<Rightarrow> nat \<Rightarrow> bool" where
  "live s i \<longleftrightarrow> i < length (runs s) \<and> r_pc (runs s ! i) \<noteq> Left"

definition run_uid :: "agent_st \<Rightarrow> nat \<Rightarrow> string" where
  "run_uid s i = kp_uid (r_pod (runs s ! i))"

definition agent_ok :: "agent_st \<Rightarrow> bool" where
  "agent_ok s \<longleftrightarrow> (\<forall>i < length (runs s). r_vm (runs s ! i) < length (heap s))
     \<and> distinct (map r_vm (runs s))
     \<and> (\<forall>i. live s i \<longrightarrow> vms s (run_uid s i) = Some (r_vm (runs s ! i)))
     \<and> (\<forall>u a. vms s u = Some a \<longrightarrow> (\<exists>i. live s i \<and> run_uid s i = u \<and> r_vm (runs s ! i) = a))
     \<and> (\<forall>k \<in> set (pending_kills s). fst k < length (heap s) \<and> v_stop_used (heap s ! fst k))
     \<and> (\<forall>a \<in> set (backstops s). a < length (heap s))
     \<and> (\<forall>v \<in> set (heap s). v_stop_used v = v_stopping v)"

lemma agent_okD:
  assumes "agent_ok s"
  shows agent_ok_vm: "i < length (runs s) \<Longrightarrow> r_vm (runs s ! i) < length (heap s)"
    and agent_ok_inj: "i < length (runs s) \<Longrightarrow> j < length (runs s) \<Longrightarrow> r_vm (runs s ! i) = r_vm (runs s ! j) \<Longrightarrow> i = j"
    and agent_ok_live: "live s i \<Longrightarrow> vms s (run_uid s i) = Some (r_vm (runs s ! i))"
    and agent_ok_run: "vms s u = Some a \<Longrightarrow> \<exists>i. live s i \<and> run_uid s i = u \<and> r_vm (runs s ! i) = a"
    and agent_ok_kill: "k \<in> set (pending_kills s) \<Longrightarrow> fst k < length (heap s) \<and> v_stop_used (heap s ! fst k)"
    and agent_ok_backstop: "a \<in> set (backstops s) \<Longrightarrow> a < length (heap s)"
    and agent_ok_flags: "a < length (heap s) \<Longrightarrow> v_stop_used (heap s ! a) = v_stopping (heap s ! a)"
  using assms nth_eq_iff_index_eq [of "map r_vm (runs s)" i j] by (auto simp: agent_ok_def)

lemma agent_okI:
  assumes "\<And>i. i < length (runs s) \<Longrightarrow> r_vm (runs s ! i) < length (heap s)" and "distinct (map r_vm (runs s))"
    and "\<And>i. live s i \<Longrightarrow> vms s (run_uid s i) = Some (r_vm (runs s ! i))"
    and "\<And>u a. vms s u = Some a \<Longrightarrow> \<exists>i. live s i \<and> run_uid s i = u \<and> r_vm (runs s ! i) = a"
    and "\<And>k. k \<in> set (pending_kills s) \<Longrightarrow> fst k < length (heap s) \<and> v_stop_used (heap s ! fst k)"
    and "\<And>a. a \<in> set (backstops s) \<Longrightarrow> a < length (heap s)"
    and "\<And>v. v \<in> set (heap s) \<Longrightarrow> v_stop_used v = v_stopping v"
  shows "agent_ok s"
  unfolding agent_ok_def using assms by blast

lemma agent_ok_vms_vm: "agent_ok s \<Longrightarrow> vms s u = Some a \<Longrightarrow> a < length (heap s)"
  using agent_ok_run agent_ok_vm by (fastforce simp: live_def)

lemma agent_ok_idle: "agent_ok (idle_agent up)"
  by (simp add: agent_ok_def idle_agent_def live_def)

lemma map_nth_same: "map f xs = map f ys \<Longrightarrow> a < length xs \<Longrightarrow> f (xs ! a) = f (ys ! a)"
  by (metis length_map nth_map)

lemma kept_vm_id: "kept i s s' \<Longrightarrow> a < length (heap s) \<Longrightarrow> vm_id (heap s' ! a) = vm_id (heap s ! a)"
  unfolding kept_def by (metis length_map nth_map)

lemma kept_length: "kept i s s' \<Longrightarrow> length (heap s') = length (heap s) \<and> length (runs s') = length (runs s)"
  unfolding kept_def by (metis length_map)

lemma kept_run: "kept i s s' \<Longrightarrow> r_vm (runs s' ! j) = r_vm (runs s ! j) \<and> r_pod (runs s' ! j) = r_pod (runs s ! j)"
  unfolding kept_def by metis

lemma kept_agent_ok:
  assumes k: "kept i s s'" and pc: "(r_pc (runs s' ! i) = Left) = (r_pc (runs s ! i) = Left)" and ok: "agent_ok s"
  shows "agent_ok s'"
proof -
  have l: "live s' j = live s j" for j using k pc unfolding kept_def live_def by metis
  have u: "run_uid s' j = run_uid s j" for j using kept_run [OF k] by (simp add: run_uid_def)
  have m: "map r_vm (runs s') = map r_vm (runs s)"
    using kept_run [OF k] kept_length [OF k] by (simp add: list_eq_iff_nth_eq)
  have f: "v_stop_used (heap s' ! a) = v_stop_used (heap s ! a) \<and> v_stopping (heap s' ! a) = v_stopping (heap s ! a)"
    if "a < length (heap s)" for a using kept_vm_id [OF k that] by (simp add: vm_id_def)
  have "\<forall>v \<in> set (heap s'). v_stop_used v = v_stopping v"
    using f agent_ok_flags [OF ok] kept_length [OF k] by (metis in_set_conv_nth)
  moreover have "vms s' = vms s" "pending_kills s' = pending_kills s" "backstops s' = backstops s"
    using k by (simp_all add: kept_def)
  ultimately show ?thesis
    using ok kept_run [OF k] kept_length [OF k] f unfolding agent_ok_def l u m by auto
qed

lemma agent_ok_leave:
  assumes ok: "agent_ok s" and i: "live s i"
  shows "agent_ok (leave_run i s)"
proof -
  let ?s = "leave_run i s"
  have l: "live ?s j \<longleftrightarrow> live s j \<and> j \<noteq> i" for j
    using i by (auto simp: leave_run_def set_pc_def live_def nth_list_update)
  have r: "r_vm (runs ?s ! j) = r_vm (runs s ! j)" "run_uid ?s j = run_uid s j" "length (runs ?s) = length (runs s)" for j
    using i by (auto simp: leave_run_def set_pc_def live_def nth_list_update run_uid_def)
  have m: "map r_vm (runs ?s) = map r_vm (runs s)" using r by (simp add: list_eq_iff_nth_eq)
  have one: "j = i" if "live s j" "run_uid s j = run_uid s i" for j
    using agent_ok_live [OF ok that(1)] agent_ok_live [OF ok i] that agent_ok_inj [OF ok] i by (auto simp: live_def)
  have v: "vms ?s = (vms s)(run_uid s i := None)"
    by (simp add: leave_run_def set_pc_def run_uid_def)
  have h: "heap ?s = heap s" "pending_kills ?s = pending_kills s" "backstops ?s = backstops s"
    by (simp_all add: leave_run_def set_pc_def)
  have rg: "\<exists>j. live s j \<and> j \<noteq> i \<and> run_uid s j = u \<and> r_vm (runs s ! j) = a"
    if "u \<noteq> run_uid s i" "vms s u = Some a" for u a
    using agent_ok_run [OF ok that(2)] that(1) by blast
  show ?thesis
  proof (rule agent_okI)
    show "vms ?s (run_uid ?s j) = Some (r_vm (runs ?s ! j))" if "live ?s j" for j
      using that one agent_ok_live [OF ok, of j] by (auto simp: l r v)
    show "\<exists>j. live ?s j \<and> run_uid ?s j = u \<and> r_vm (runs ?s ! j) = a" if "vms ?s u = Some a" for u a
      using that rg [of u a] by (auto simp: l r v split: if_splits)
  qed (use ok in \<open>auto simp: agent_ok_def r m h\<close>)
qed

lemma live_launch: "live (launch_run pod vm s) j \<longleftrightarrow> live s j \<or> j = length (runs s)"
  by (auto simp: live_def launch_run_def nth_append less_Suc_eq)

lemma agent_ok_launch:
  assumes ok: "agent_ok s" and free: "vms s (kp_uid pod) = None" and new: "v_stop_used vm = v_stopping vm"
  shows "agent_ok (launch_run pod vm s)"
proof -
  let ?s = "launch_run pod vm s"
  have old: "run_uid ?s j = run_uid s j" "r_vm (runs ?s ! j) = r_vm (runs s ! j)" if "j < length (runs s)" for j
    using that by (simp_all add: run_uid_def launch_run_def nth_append)
  have last: "run_uid ?s (length (runs s)) = kp_uid pod" "r_vm (runs ?s ! length (runs s)) = length (heap s)"
    by (simp_all add: run_uid_def launch_run_def)
  have v: "vms ?s = (vms s)(kp_uid pod \<mapsto> length (heap s))" by (simp add: launch_run_def)
  have lv: "vms ?s (run_uid ?s j) = Some (r_vm (runs ?s ! j))" if "live ?s j" for j
  proof (cases "j = length (runs s)")
    case True then show ?thesis by (simp add: last v)
  next
    case False
    then have l: "live s j" using that by (simp add: live_launch)
    then have "vms s (run_uid s j) = Some (r_vm (runs s ! j))" by (rule agent_ok_live [OF ok])
    moreover from this free have "run_uid s j \<noteq> kp_uid pod" by auto
    ultimately show ?thesis using l by (simp add: old v live_def)
  qed
  have rg: "\<exists>i. live ?s i \<and> run_uid ?s i = u \<and> r_vm (runs ?s ! i) = a" if "vms ?s u = Some a" for u a
  proof (cases "u = kp_uid pod")
    case True then show ?thesis using that last by (auto simp: v live_launch)
  next
    case False
    then have "vms s u = Some a" using that by (simp add: v)
    then obtain i where i: "live s i" "run_uid s i = u" "r_vm (runs s ! i) = a"
      using agent_ok_run [OF ok] by blast
    then have "live ?s i" "run_uid ?s i = u" "r_vm (runs ?s ! i) = a"
      using old [of i] by (simp_all add: live_launch) (simp_all add: live_def)
    then show ?thesis by blast
  qed
  have "length (heap s) \<notin> r_vm ` set (runs s)"
    using agent_ok_vm [OF ok] by (force simp: in_set_conv_nth)
  then have "distinct (map r_vm (runs ?s))" using ok by (simp add: agent_ok_def launch_run_def)
  moreover have "\<forall>i < length (runs ?s). r_vm (runs ?s ! i) < length (heap ?s)"
    using agent_ok_vm [OF ok] by (auto simp: launch_run_def nth_append less_Suc_eq)
  ultimately show ?thesis
    using lv rg ok new unfolding agent_ok_def by (auto simp: launch_run_def nth_append)
qed

lemma agent_ok_stop_once:
  assumes ok: "agent_ok s" and a: "a < length (heap s)"
  shows "agent_ok (stop_once a g s)"
  using ok a by (auto simp: agent_ok_def stop_once_def upd_vm_def live_def run_uid_def nth_list_update
      dest!: set_update_subset_insert [THEN subsetD])

lemma set_drop_at: "x \<in> set (drop_at k xs) \<Longrightarrow> x \<in> set xs"
  by (auto simp: drop_at_def dest: in_set_takeD in_set_dropD)

lemma agent_ok_kills:
  assumes "agent_ok s"
  shows "k < length (pending_kills s) \<Longrightarrow> agent_ok (fst (kill_vm k reached s))"
    and "k < length (backstops s) \<Longrightarrow> agent_ok (fst (backstop k s))"
  using assms nth_mem [of k "pending_kills s"]
  by (auto simp: agent_ok_def kill_vm_def backstop_def split_beta Let_def live_def run_uid_def dest: set_drop_at)

lemma agent_ok_run_step:
  assumes ok: "agent_ok s" and i: "i < length (runs s)"
  shows "agent_ok (fst (run_step block i ev s))"
proof (cases "r_pc (runs s ! i) = Leaving \<and> ev = Proceed")
  case True
  then show ?thesis using agent_ok_leave [OF ok, of i] i by (simp add: run_step_leaves live_def)
next
  case False
  have "(r_pc (runs (fst (run_step block i ev s)) ! i) = Left) = (r_pc (runs s ! i) = Left)"
    using run_step_pc [OF i, of block ev] False i
    by (auto simp: next_pcs_def run_step_def split: run_pc.splits run_event.splits)
  then show ?thesis using kept_agent_ok [OF kept_run_step [OF i False]] ok by blast
qed

lemma agent_ok_step: "agent_ok s \<Longrightarrow> agent_ok (fst (agent_step block ev s))"
  by (auto simp: agent_step_def reconcile_pod_def pod_deleted_def fresh_vm_def agent_ok_run_step agent_ok_kills
      intro!: agent_ok_stop_once agent_ok_launch dest: agent_ok_vms_vm split: agent_event.split option.split)

interpretation agent: machine "agent_step block" "\<lambda>_. agent_ok" for block
  by unfold_locales (rule agent_ok_step)

text \<open>C11: One VM per pod.  Whatever the watch delivers and however the goroutines interleave, two
  goroutines that have not ended never serve the same pod, and the entry of \<^verbatim>\<open>a.vms\<close> for a pod is the VM
  of the one goroutine that serves it.\<close>

theorem one_run_per_pod:
  assumes "live s i" and "live s j" and "run_uid s i = run_uid s j" and "s = fst (play (agent_step block) evs (idle_agent up))"
  shows "i = j \<and> vms s (run_uid s i) = Some (r_vm (runs s ! i))"
proof -
  have ok: "agent_ok s" unfolding assms(4) by (rule agent.play_good [OF agent_ok_idle])
  show ?thesis
    using agent_ok_live [OF ok assms(1)] agent_ok_live [OF ok assms(2)] assms(3) agent_ok_inj [OF ok, of i j] assms(1,2)
    by (auto simp: live_def)
qed

subsection \<open>How a run ends\<close>

definition reported_name :: "kpod \<Rightarrow> pod_vm \<Rightarrow> string" where
  "reported_name pod vm = (if v_static vm then v_mirror vm else kp_name pod)"

definition puts_final :: "kpod \<Rightarrow> string \<Rightarrow> effect list \<Rightarrow> bool" where
  "puts_final pod name out \<longleftrightarrow>
     (\<exists>p. PutStatus p \<in> set out \<and> ended_phase (Some (put_phase p)) \<and> put_ns p = kp_ns pod \<and> put_name p = name)"

lemma set_phase_puts:
  assumes "api_up s" and "vms s (kp_uid pod) = Some a"
  shows "\<exists>p. snd (set_phase pod ph why msg ics css s) = [PutStatus p] \<and> put_phase p = ph \<and> put_ns p = kp_ns pod
     \<and> put_reason p = why \<and> put_name p = reported_name pod (heap s ! a)"
  using assms by (simp add: set_phase_def Let_def reported_name_def)

lemma set_phase_final:
  assumes "api_up s" and "vms s (kp_uid pod) = Some a" and "ph = PodSucceeded \<or> ph = PodFailed"
  shows "puts_final pod (reported_name pod (heap s ! a)) (snd (set_phase pod ph why msg ics css s) @ more_out)"
  using set_phase_puts [OF assms(1,2), of ph why msg ics css] assms(3) by (auto simp: puts_final_def ended_phase_def)

lemma final_phase_ended: "final_phase ics css = PodSucceeded \<or> final_phase ics css = PodFailed"
  by (simp add: final_phase_def)

lemma finalize_after:
  assumes "kept i s s1" and "api_up s" and "a < length (heap s)"
  shows "finalize_pod pod a s1 = [DeletePod (kp_ns pod) (reported_name pod (heap s ! a)) True]"
  using kept_vm_id [OF assms(1,3)] assms by (simp add: finalize_pod_def reported_name_def vm_id_def kept_def)

definition start_error :: "effect list \<Rightarrow> bool" where
  "start_error out \<longleftrightarrow> (\<exists>p. PutStatus p \<in> set out \<and> put_phase p = PodFailed \<and> put_reason p = ''StartError'')"

definition fails_with :: "nat \<Rightarrow> agent_st \<Rightarrow> agent_st \<times> effect list \<Rightarrow> bool" where
  "fails_with i s res \<longleftrightarrow> (\<exists>why err s0. res = fail_run i why err s0 \<and> kept i s s0
     \<and> (why = ''StartError'' \<or> \<not> v_stopping (heap s ! r_vm (runs s ! i))))"

lemma fails_withI: "kept i s s0 \<Longrightarrow> fails_with i s (fail_run i ''StartError'' err s0)"
  by (auto simp: fails_with_def)

text \<open>Every way into \<open>Leaving\<close> but the agent's own shutdown.\<close>

lemma leaving_moves:
  assumes "i < length (runs s)" and "r_pc (runs s ! i) \<noteq> Leaving" and "ev \<noteq> Cancelled"
    and "r_pc (runs (fst (run_step block i ev s)) ! i) = Leaving"
  shows "fails_with i s (run_step block i ev s)
     \<or> (\<exists>pc. run_step block i ev s = wake_run i pc s \<and> v_stopping (heap s ! r_vm (runs s ! i)))
     \<or> (\<exists>n final long. run_step block i ev s = vm_exited i n final long s
          \<and> (final \<noteq> None \<or> v_stopping (heap s ! r_vm (runs s ! i))))"
proof -
  have e: "fails_with i s (enter_run block i s)" if "r_pc (runs (fst (enter_run block i s)) ! i) = Leaving"
    using that assms(1) by (auto simp: enter_run_def Let_def fails_withI split: if_splits)
  have p: "fails_with i s (prep_failed i n why err s)" if "r_pc (runs (fst (prep_failed i n why err s)) ! i) = Leaving" for n why err
    using that assms(1) by (auto simp: prep_failed_def set_waiting_def split_beta Let_def fails_withI split: if_splits)
  have b: "fails_with i s (retry_start i n err (set_ip a ip s))"
    if "r_pc (runs (fst (retry_start i n err (set_ip a ip s))) ! i) = Leaving" for n err a ip
    using that assms(1) by (auto simp: retry_start_def set_waiting_def split_beta Let_def kept_set_ip fails_withI split: if_splits)
  have w: "v_stopping (heap s ! r_vm (runs s ! i))" if "r_pc (runs (fst (wake_run i pc s)) ! i) = Leaving" "pc \<noteq> Leaving" for pc
    using that assms(1) by (auto simp: wake_run_def Let_def split: if_splits)
  have x: "fails_with i s (vm_exited i n None long s)"
    if "r_pc (runs (fst (vm_exited i n None long s)) ! i) = Leaving" "\<not> v_stopping (heap s ! r_vm (runs s ! i))" for n long
    using that assms(1)
    by (auto simp: vm_exited_def set_waiting_def fails_with_def split_beta Let_def intro: kept_refl split: if_splits)
  note step = assms(1,3,4) run_step_def
  show ?thesis
  proof (cases "r_pc (runs s ! i)")
    case Entered then show ?thesis using step e by (auto split: run_event.splits if_splits)
  next
    case (Preparing n) then show ?thesis using step p by (auto split: run_event.splits if_splits)
  next
    case (PrepWait n) then show ?thesis using step w [of "Preparing (Suc n)"] by (auto split: run_event.splits if_splits)
  next
    case (Booting n) then show ?thesis using step b by (auto simp: booted_def Let_def split: run_event.splits if_splits)
  next
    case (BootWait n) then show ?thesis using step w [of "Booting (Suc n)"] by (auto split: run_event.splits if_splits)
  next
    case (VmUp n)
    obtain final long where ev: "ev = Exited final long"
      using VmUp step by (auto split: run_event.splits if_splits)
    then have m: "run_step block i ev s = vm_exited i n final long s" using VmUp by (simp add: run_step_def)
    show ?thesis
    proof (cases "final = None \<and> \<not> v_stopping (heap s ! r_vm (runs s ! i))")
      case True then show ?thesis using x [of n long] assms(4) m by simp
    next
      case False then show ?thesis using m by blast
    qed
  next
    case (CrashWait n) then show ?thesis using step w [of "Booting (Suc n)"] by (auto split: run_event.splits if_splits)
  qed (use assms in \<open>auto simp: run_step_def split: if_splits\<close>)
qed

lemma api_up_step: "api_up (fst (agent_step block ev s)) = api_up s"
proof -
  have r: "api_up (fst (run_step block i e s)) = api_up s" if "i < length (runs s)" for i e
  proof (cases "r_pc (runs s ! i) = Leaving \<and> e = Proceed")
    case True then show ?thesis by (simp add: run_step_leaves leave_run_def set_pc_def)
  next
    case False then show ?thesis using kept_run_step [OF that False] by (simp add: kept_def)
  qed
  show ?thesis
    by (auto simp: agent_step_def reconcile_pod_def pod_deleted_def stop_once_def upd_vm_def launch_run_def
        kill_vm_def backstop_def r split_beta Let_def split: agent_event.split option.split)
qed

interpretation agent_up: machine "agent_step block" "\<lambda>_ s. agent_ok s \<and> api_up s" for block
  by unfold_locales (simp add: agent_ok_step api_up_step)

text \<open>Such a move of a live goroutine reports the end under the pod's name.\<close>

definition end_reported :: "kpod \<Rightarrow> pod_vm \<Rightarrow> effect list \<Rightarrow> bool" where
  "end_reported pod vm out \<longleftrightarrow>
     (if v_stopping vm
      then DeletePod (kp_ns pod) (reported_name pod vm) True \<in> set out \<or> start_error out
      else puts_final pod (reported_name pod vm) out)"

lemma fails_reported:
  assumes "fails_with i s (s', out)" and "pod = r_pod (runs s ! i)" and "vm = heap s ! r_vm (runs s ! i)"
    and "vms s (kp_uid pod) = Some (r_vm (runs s ! i))" and "api_up s" and "r_vm (runs s ! i) < length (heap s)"
  shows "end_reported pod vm out"
proof -
  let ?a = "r_vm (runs s ! i)"
  obtain why err s0 where f: "(s', out) = fail_run i why err s0" "kept i s s0" "why = ''StartError'' \<or> \<not> v_stopping vm"
    using assms(1) unfolding fails_with_def assms(3) by blast
  have "r_pod (runs s0 ! i) = pod" "vms s0 (kp_uid pod) = Some ?a" "api_up s0"
    using f(2) assms(2,4,5) by (simp_all add: kept_def)
  then obtain p where "out = [PutStatus p]" "put_phase p = PodFailed" "put_ns p = kp_ns pod" "put_reason p = why"
      "put_name p = reported_name pod (heap s0 ! ?a)"
    using set_phase_puts [of s0 pod ?a PodFailed why err "[]" "[]"] f(1)
    by (auto simp: fail_run_def split_beta Let_def)
  moreover have "reported_name pod (heap s0 ! ?a) = reported_name pod vm"
    using kept_vm_id [OF f(2) assms(6)] by (simp add: reported_name_def vm_id_def assms(3))
  ultimately show ?thesis using f(3) by (auto simp: end_reported_def puts_final_def start_error_def ended_phase_def)
qed

lemma exit_reported:
  assumes "vm_exited i n final long s = (s', out)" and "final \<noteq> None \<or> v_stopping vm"
    and "pod = r_pod (runs s ! i)" and "vm = heap s ! r_vm (runs s ! i)"
    and at: "vms s (kp_uid pod) = Some (r_vm (runs s ! i))" and up: "api_up s" and a: "r_vm (runs s ! i) < length (heap s)"
  shows "end_reported pod vm out"
proof -
  let ?a = "r_vm (runs s ! i)"
  have fin: "finalize_pod pod ?a (fst (set_phase pod ph why msg ics css s)) = [DeletePod (kp_ns pod) (reported_name pod vm) True]"
    for ph why msg ics css using finalize_after [OF kept_set_phase up a] assms(4) by blast
  show ?thesis
  proof (cases final)
    case None
    then show ?thesis using assms(1,2) fin by (auto simp: end_reported_def vm_exited_def split_beta Let_def simp flip: assms(3,4))
  next
    case (Some sts)
    define ics where "ics = fst (translate_statuses pod sts (v_ready vm))"
    define css where "css = fst (snd (translate_statuses pod sts (v_ready vm)))"
    have "out = snd (set_phase pod (final_phase ics css) [] [] ics css s)
        @ (if v_stopping vm then finalize_pod pod ?a (fst (set_phase pod (final_phase ics css) [] [] ics css s)) else [])"
      using assms(1) unfolding Some ics_def css_def vm_exited_def assms(3,4)
      by (auto simp: split_beta Let_def split: if_splits)
    then show ?thesis using fin set_phase_final [OF up at final_phase_ended, of ics css "[]" "[]" ics css "[]"] assms(4)
      by (cases "v_stopping vm") (simp_all add: end_reported_def)
  qed
qed


subsection \<open>What a move emits\<close>

definition report :: "effect \<Rightarrow> bool" where
  "report e = (case e of PutStatus _ \<Rightarrow> True | DeletePod _ _ _ \<Rightarrow> True | RetryIn _ \<Rightarrow> True | _ \<Rightarrow> False)"

lemma reports [simp]: "report (PutStatus p)" "report (DeletePod a b c)" "report (RetryIn n)"
    "\<not> report (StartVm v)" "\<not> report (ShutdownVm v g)" "\<not> report (KillVm v)"
  by (simp_all add: report_def)

lemma set_phase_reports: "list_all report (snd (set_phase pod ph why msg ics css s))"
  by (simp add: set_phase_def Let_def)

lemma finalize_reports: "list_all report (finalize_pod pod a s)"
  by (simp add: finalize_pod_def)

lemma fail_reports: "list_all report (snd (fail_run i why err s))"
  by (simp add: fail_run_def split_beta Let_def set_phase_reports)

definition starts :: "nat \<Rightarrow> run_event \<Rightarrow> agent_st \<Rightarrow> bool" where
  "starts i ev s \<longleftrightarrow> (\<exists>n. r_pc (runs s ! i) = Booting n) \<and> (\<exists>ip. ev = Booted ip)"

lemma move_reports:
  "list_all report (snd (enter_run block i s))" "list_all report (snd (prep_failed i n why err s))"
  "list_all report (snd (wake_run i pc s))" "list_all report (snd (retry_start i n err s))"
  "list_all report (snd (vm_exited i n final long s))" "list_all report (snd (report_late i s))"
  by (auto simp: enter_run_def prep_failed_def wake_run_def retry_start_def vm_exited_def report_late_def set_waiting_def
      split_beta Let_def set_phase_reports finalize_reports fail_reports split: option.split list.split)

lemma run_step_reports: "\<not> starts i ev s \<Longrightarrow> list_all report (snd (run_step block i ev s))"
  by (auto simp: run_step_def starts_def move_reports split: run_pc.split run_event.split)

lemma run_step_starts: "starts i ev s \<Longrightarrow> snd (run_step block i ev s) = [StartVm (r_vm (runs s ! i))]"
  by (auto simp: run_step_def starts_def booted_def Let_def)

subsection \<open>Stopping\<close>

definition kills :: "nat \<Rightarrow> effect \<Rightarrow> bool" where
  "kills a e \<longleftrightarrow> e = KillVm a \<or> (\<exists>g. e = ShutdownVm a g)"

lemma report_not_kills: "report e \<Longrightarrow> \<not> kills a e"
  by (auto simp: kills_def)

lemma run_step_no_kill: "\<not> list_ex (kills a) (snd (run_step block i ev s))"
proof (cases "starts i ev s")
  case True then show ?thesis by (simp add: run_step_starts kills_def)
next
  case False
  then show ?thesis using run_step_reports [of i ev s block] report_not_kills by (fastforce simp: list_all_iff list_ex_iff)
qed

text \<open>The VM's one stop is used up: its \<^verbatim>\<open>killVM\<close> has run and left no timer.\<close>

definition stop_spent :: "nat \<Rightarrow> agent_st \<Rightarrow> bool" where
  "stop_spent a s \<longleftrightarrow> a < length (heap s) \<and> v_stop_used (heap s ! a) \<and> a \<notin> fst ` set (pending_kills s) \<and> a \<notin> set (backstops s)"

lemma kept_stop_spent: "kept i s s' \<Longrightarrow> stop_spent a s \<Longrightarrow> stop_spent a s'"
  using kept_vm_id [of i s s' a] kept_length [of i s s'] by (simp add: stop_spent_def vm_id_def kept_def)

lemma stop_spent_run_step: "i < length (runs s) \<Longrightarrow> stop_spent a s \<Longrightarrow> stop_spent a (fst (run_step block i ev s))"
  by (cases "r_pc (runs s ! i) = Leaving \<and> ev = Proceed")
    (simp add: run_step_leaves leave_run_def set_pc_def stop_spent_def, rule kept_stop_spent [OF kept_run_step])

lemma stop_spent_stop_once: "stop_spent a s \<Longrightarrow> stop_spent a (stop_once b g s)"
  by (cases "b < length (heap s)") (auto simp: stop_spent_def stop_once_def upd_vm_def nth_list_update)

lemma stop_spent_launch: "stop_spent a s \<Longrightarrow> stop_spent a (launch_run pod vm s)"
  by (auto simp: stop_spent_def launch_run_def nth_append)

lemma stop_spent_kill:
  assumes "stop_spent a s"
  shows "k < length (pending_kills s) \<Longrightarrow> stop_spent a (fst (kill_vm k reached s)) \<and> \<not> list_ex (kills a) (snd (kill_vm k reached s))"
    and "k < length (backstops s) \<Longrightarrow> stop_spent a (fst (backstop k s)) \<and> \<not> list_ex (kills a) (snd (backstop k s))"
proof -
  have n: "fst (pending_kills s ! k) \<noteq> a" if "k < length (pending_kills s)"
    using assms nth_mem [OF that] by (auto simp: stop_spent_def)
  have m: "backstops s ! k \<noteq> a" if "k < length (backstops s)"
    using assms nth_mem [OF that] by (auto simp: stop_spent_def)
  show "k < length (pending_kills s) \<Longrightarrow> stop_spent a (fst (kill_vm k reached s)) \<and> \<not> list_ex (kills a) (snd (kill_vm k reached s))"
    using assms n by (auto simp: stop_spent_def kill_vm_def kills_def split_beta Let_def dest: set_drop_at)
  show "k < length (backstops s) \<Longrightarrow> stop_spent a (fst (backstop k s)) \<and> \<not> list_ex (kills a) (snd (backstop k s))"
    using assms m by (auto simp: stop_spent_def backstop_def kills_def Let_def dest: set_drop_at)
qed

lemma stop_spent_step:
  assumes "stop_spent a s"
  shows "stop_spent a (fst (agent_step block ev s)) \<and> \<not> list_ex (kills a) (snd (agent_step block ev s))"
proof (cases ev)
  case (PodSeen pod)
  then show ?thesis using assms
    by (auto simp: agent_step_def reconcile_pod_def kills_def stop_spent_stop_once stop_spent_launch split: option.split)
next
  case (PodGone pod)
  then show ?thesis using assms
    by (auto simp: agent_step_def pod_deleted_def stop_spent_stop_once split: option.split)
qed (use assms run_step_no_kill in \<open>auto simp: agent_step_def stop_spent_run_step stop_spent_kill\<close>)

interpretation agent_spent: machine "agent_step block" "\<lambda>h s. stop_spent a s \<and> \<not> list_ex (kills a) h" for block a
  by unfold_locales (simp add: stop_spent_step)


subsection \<open>Never means once\<close>

definition unstarted :: "run_pc \<Rightarrow> bool" where
  "unstarted pc = (case pc of Entered \<Rightarrow> True | Preparing _ \<Rightarrow> True | PrepWait _ \<Rightarrow> True | Booting _ \<Rightarrow> True | _ \<Rightarrow> False)"

definition never_retries :: "run_pc \<Rightarrow> bool" where
  "never_retries pc = (case pc of BootWait _ \<Rightarrow> False | CrashWait _ \<Rightarrow> False | _ \<Rightarrow> True)"

definition boots :: "effect list \<Rightarrow> nat \<Rightarrow> nat" where
  "boots h a = count_list h (StartVm a)"

lemma boots_simps [simp]: "boots [] a = 0" "boots (xs @ ys) a = boots xs a + boots ys a"
    "boots [StartVm b] a = (if b = a then 1 else 0)"
  by (simp_all add: boots_def)

lemma boots_reports: "list_all report out \<Longrightarrow> boots out a = 0"
  by (auto simp: boots_def count_list_0_iff list_all_iff)

lemma boots_run_step: "boots (snd (run_step block i ev s)) a = (if starts i ev s \<and> a = r_vm (runs s ! i) then 1 else 0)"
  by (cases "starts i ev s") (auto simp: run_step_starts boots_reports run_step_reports)

lemma never_step:
  assumes "i < length (runs s)" and "policy_of (r_pod (runs s ! i)) = ''Never''" and "never_retries (r_pc (runs s ! i))"
  shows "never_retries (r_pc (runs (fst (run_step block i ev s)) ! i))
     \<and> (unstarted (r_pc (runs (fst (run_step block i ev s)) ! i)) \<longrightarrow> unstarted (r_pc (runs s ! i)) \<and> \<not> starts i ev s)
     \<and> (starts i ev s \<longrightarrow> unstarted (r_pc (runs s ! i)))"
  using assms
  by (auto simp: run_step_def starts_def never_retries_def unstarted_def enter_run_def prep_failed_def wake_run_def
      booted_def retry_start_def vm_exited_def leave_run_def set_waiting_def split_beta Let_def
      split: run_pc.splits run_event.splits option.splits if_splits)

definition never_ok :: "effect list \<Rightarrow> agent_st \<Rightarrow> bool" where
  "never_ok h s \<longleftrightarrow> agent_ok s \<and> (\<forall>a. length (heap s) \<le> a \<longrightarrow> boots h a = 0)
     \<and> (\<forall>i < length (runs s). policy_of (r_pod (runs s ! i)) = ''Never''
          \<longrightarrow> never_retries (r_pc (runs s ! i))
            \<and> boots h (r_vm (runs s ! i)) \<le> (if unstarted (r_pc (runs s ! i)) then 0 else 1))"

lemma never_ok_run_step:
  assumes ok: "never_ok h s" and i: "i < length (runs s)"
  shows "never_ok (h @ snd (run_step block i ev s)) (fst (run_step block i ev s))"
proof -
  let ?s = "fst (run_step block i ev s)" and ?out = "snd (run_step block i ev s)"
  have aok: "agent_ok s" using ok by (simp add: never_ok_def)
  have same: "length (runs ?s) = length (runs s) \<and> length (heap ?s) = length (heap s)
      \<and> (\<forall>j. r_pod (runs ?s ! j) = r_pod (runs s ! j) \<and> r_vm (runs ?s ! j) = r_vm (runs s ! j)
          \<and> (j \<noteq> i \<longrightarrow> runs ?s ! j = runs s ! j))"
  proof (cases "r_pc (runs s ! i) = Leaving \<and> ev = Proceed")
    case True
    then show ?thesis using i by (auto simp: run_step_leaves leave_run_def set_pc_def nth_list_update)
  next
    case False
    from kept_run_step [OF i False, of block] show ?thesis
      using kept_length kept_run unfolding kept_def by blast
  qed
  have b: "boots ?out a = (if starts i ev s \<and> a = r_vm (runs s ! i) then 1 else 0)" for a by (rule boots_run_step)
  have "never_retries (r_pc (runs ?s ! j)) \<and> boots (h @ ?out) (r_vm (runs ?s ! j)) \<le> (if unstarted (r_pc (runs ?s ! j)) then 0 else 1)"
    if j: "j < length (runs s)" and n: "policy_of (r_pod (runs s ! j)) = ''Never''" for j
  proof -
    have old: "never_retries (r_pc (runs s ! j))" "boots h (r_vm (runs s ! j)) \<le> (if unstarted (r_pc (runs s ! j)) then 0 else 1)"
      using ok j n by (auto simp: never_ok_def)
    show ?thesis
    proof (cases "j = i")
      case True
      then show ?thesis using old never_step [OF i, of block ev] n b [of "r_vm (runs s ! i)"] same by (auto split: if_splits)
    next
      case False
      then have "r_vm (runs s ! j) \<noteq> r_vm (runs s ! i)" using agent_ok_inj [OF aok j i] by blast
      then show ?thesis using old False same b by simp
    qed
  qed
  moreover have "boots (h @ ?out) a = 0" if "length (heap s) \<le> a" for a
    using that ok agent_ok_vm [OF aok i] b [of a] by (auto simp: never_ok_def)
  ultimately show ?thesis using agent_ok_run_step [OF aok i] same by (simp add: never_ok_def)
qed

lemma boots_no_start: "(\<And>e. e \<in> set out \<Longrightarrow> e \<noteq> StartVm a) \<Longrightarrow> boots out a = 0"
  by (auto simp: boots_def count_list_0_iff)

lemma never_ok_same:
  assumes "never_ok h s" and "agent_ok s'" and "runs s' = runs s" and "length (heap s') = length (heap s)"
    and "\<And>a. boots out a = 0"
  shows "never_ok (h @ out) s'"
  using assms by (simp add: never_ok_def)

lemma never_ok_launch:
  assumes ok: "never_ok h s" and ok': "agent_ok (launch_run pod vm s)"
  shows "never_ok h (launch_run pod vm s)"
proof -
  have "boots h (length (heap s)) = 0" using ok by (simp add: never_ok_def)
  then show ?thesis
    using ok ok' unfolding never_ok_def
    by (auto simp: launch_run_def nth_append less_Suc_eq never_retries_def unstarted_def)
qed

lemma stop_once_frame [simp]: "runs (stop_once a g s) = runs s" "length (heap (stop_once a g s)) = length (heap s)"
  by (simp_all add: stop_once_def upd_vm_def)

lemma never_ok_stop_once: "never_ok h s \<Longrightarrow> agent_ok (stop_once a g s) \<Longrightarrow> never_ok h (stop_once a g s)"
  using never_ok_same [of h s _ "[]"] by simp

lemma kill_frame [simp]: "runs (fst (kill_vm k reached s)) = runs s" "heap (fst (kill_vm k reached s)) = heap s"
    "runs (fst (backstop k s)) = runs s" "heap (fst (backstop k s)) = heap s"
  by (simp_all add: kill_vm_def backstop_def split_beta Let_def)

lemma kill_no_boot: "boots (snd (kill_vm k reached s)) a = 0" "boots (snd (backstop k s)) a = 0"
  by (auto simp: kill_vm_def backstop_def split_beta Let_def intro!: boots_no_start)

lemma never_ok_step:
  assumes ok: "never_ok h s"
  shows "never_ok (h @ snd (agent_step block ev s)) (fst (agent_step block ev s))"
proof -
  have aok: "agent_ok (fst (agent_step block ev s))" using ok by (auto simp: never_ok_def intro: agent_ok_step)
  show ?thesis
  proof (cases ev)
    case (PodSeen pod)
    have d: "boots [DeletePod ns name b] a = 0" for ns name b a by (rule boots_no_start) simp
    show ?thesis using aok ok unfolding PodSeen
      by (auto simp: agent_step_def reconcile_pod_def d intro!: never_ok_same never_ok_launch never_ok_stop_once split: option.splits if_splits)
  next
    case (PodGone pod)
    then show ?thesis using aok ok
      by (auto simp: agent_step_def pod_deleted_def intro!: never_ok_stop_once split: option.splits if_splits)
  next
    case (RunMoves i e)
    then show ?thesis using ok never_ok_run_step by (simp add: agent_step_def)
  qed (use aok ok in \<open>auto simp: agent_step_def kill_no_boot intro: never_ok_same\<close>)
qed

interpretation agent_never: machine "agent_step block" never_ok for block
  by unfold_locales (rule never_ok_step)

text \<open>A pod whose restart policy is Never gets at most one VM from its goroutine, whatever happens to it.\<close>

theorem never_boots_once:
  assumes "play (agent_step block) evs (idle_agent up) = (s, out)" and "i < length (runs s)"
    and "policy_of (r_pod (runs s ! i)) = ''Never''"
  shows "boots out (r_vm (runs s ! i)) \<le> 1"
proof -
  have "never_ok [] (idle_agent up)" by (simp add: never_ok_def agent_ok_idle) (simp add: idle_agent_def)
  from agent_never.play_good [OF this, of block evs] assms show ?thesis
    by (auto simp: never_ok_def split: if_splits)
qed

subsection \<open>Sequences of events\<close>

definition job_pod :: kpod where
  "job_pod = (a_pod [] [a_container ''web''])\<lparr>kp_policy := ''Never''\<rparr>"

lemma job_pod_fields: "kp_uid job_pod = ''11111111-2222-3333-4444-555555555555''" "kp_policy job_pod = ''Never''"
  "kp_annot job_pod = Map.empty" "kp_deleting job_pod = False" "kp_phase job_pod = None" "kp_name job_pod = ''web''"
  "kp_ns job_pod = ''default''" "kp_mains job_pod = [a_container ''web'']" "kp_inits job_pod = []"
  by (simp_all add: job_pod_def a_pod_def)

definition boot_events :: "nat \<Rightarrow> agent_event list" where
  "boot_events i = [RunMoves i Proceed, RunMoves i Prepared, RunMoves i (Booted None)]"

definition job_report :: "container_status list" where
  "job_report = [\<lparr>st_name = ''web'', st_state = Terminated, st_exit = 0, st_restarts = 0, st_started = 5,
     st_finished = 9, st_reason = ''Completed'', st_init = False\<rparr>]"

lemmas agent_eval = agent_step_def reconcile_pod_def pod_deleted_def is_mirror_def job_pod_fields idle_agent_def
  launch_run_def fresh_vm_def run_step_def enter_run_def set_pc_def upd_vm_def booted_def set_ip_def Let_def
  stop_once_def kill_vm_def drop_at_def boot_events_def kills_def ended_phase_def

definition lost_stop_events :: "agent_event list" where
  "lost_stop_events = [PodSeen job_pod, RunMoves 0 Proceed, PodSeen (job_pod\<lparr>kp_deleting := True\<rparr>), KillRuns 0 False,
     RunMoves 0 Prepared, RunMoves 0 (Booted None)]"

definition lost_stop_state :: agent_st where
  "lost_stop_state = fst (play (agent_step True) lost_stop_events (idle_agent True))"

lemma lost_stop_play:
  "r_pc (runs lost_stop_state ! 0) = VmUp 0" "length (heap lost_stop_state) = 1" "v_stop_used (heap lost_stop_state ! 0)"
  "pending_kills lost_stop_state = []" "backstops lost_stop_state = []"
  "snd (play (agent_step True) lost_stop_events (idle_agent True)) = [StartVm 0]"
  unfolding lost_stop_state_def lost_stop_events_def by (simp_all add: agent_eval)


lemma never_boots_once_witness:
  "boots (snd (play (agent_step True) (PodSeen job_pod # boot_events 0) (idle_agent True))) 0 \<le> 1"
proof -
  let ?p = "play (agent_step True) (PodSeen job_pod # boot_events 0) (idle_agent True)"
  have "length (runs (fst ?p)) = 1" "r_pod (runs (fst ?p) ! 0) = job_pod" "r_vm (runs (fst ?p) ! 0) = 0"
    by (simp_all add: agent_eval)
  then show ?thesis
    using never_boots_once [of True "PodSeen job_pod # boot_events 0" True "fst ?p" "snd ?p" 0]
    by (simp add: policy_of_def job_pod_fields)
qed

definition web_report :: "cstate \<Rightarrow> container_status" where
  "web_report cs = \<lparr>st_name = ''web'', st_state = cs, st_exit = 0, st_restarts = 0, st_started = 5,
     st_finished = 9, st_reason = [], st_init = False\<rparr>"

definition rerun_events :: "agent_event list" where
  "rerun_events = [PodSeen job_pod, RunMoves 0 Proceed, RunMoves 0 Prepared, RunMoves 0 (Booted None),
     RunMoves 0 (Polled (Some [web_report Running])), RunMoves 0 (Exited (Some [web_report Terminated]) False),
     RunMoves 0 Reported, RunMoves 0 Proceed, PodSeen (job_pod\<lparr>kp_phase := Some PodRunning\<rparr>),
     RunMoves 1 Proceed, RunMoves 1 Prepared, RunMoves 1 (Booted None)]"

lemma web_translated:
  "\<exists>cs. translate_statuses job_pod [web_report Running] m = ([], cs, PodRunning)"
  "\<exists>cs. translate_statuses job_pod [web_report Terminated] m = ([], cs, PodRunning) \<and> final_phase [] cs = PodSucceeded"
  by (simp_all add: translate_statuses_def job_pod_fields web_report_def by_status_name_def conv_status_def
      final_phase_def completed_def a_container_def)

text \<open>A finished job can run again.  \<^verbatim>\<open>pushStatus\<close> reads the guest's status before it writes it; a poll
  answered just before the VM exited is written after the final status, the pod is Running again for
  the API, and the next watch event finds it in no table and starts it a second time, although its
  restart policy is Never.\<close>

theorem late_status_reruns_pod:
  "\<exists>p q. snd (play (agent_step True) rerun_events (idle_agent True)) = [StartVm 0, PutStatus p, PutStatus q, StartVm 1]
     \<and> put_phase p = PodSucceeded \<and> put_phase q = PodRunning \<and> policy_of job_pod = ''Never''"
proof -
  obtain cs where r: "translate_statuses job_pod [web_report Running] (init_ready job_pod) = ([], cs, PodRunning)"
    using web_translated(1) by blast
  obtain cs' where t: "translate_statuses job_pod [web_report Terminated] (init_ready job_pod) = ([], cs', PodRunning)"
      "final_phase [] cs' = PodSucceeded" using web_translated(2) by blast
  show ?thesis
    unfolding rerun_events_def
    by (simp add: agent_eval poll_status_def push_status_def vm_exited_def report_late_def leave_run_def set_phase_def
        r t policy_of_def)
qed

definition busy_state :: agent_st where
  "busy_state = fst (play (agent_step True) (PodSeen job_pod # PodSeen job_pod # boot_events 0) (idle_agent True))"

lemma busy_play: "length (runs busy_state) = 1" "r_pod (runs busy_state ! 0) = job_pod" "r_vm (runs busy_state ! 0) = 0"
    "r_pc (runs busy_state ! 0) = VmUp 0" "v_stopping (heap busy_state ! 0) = False" "v_static (heap busy_state ! 0) = False"
  unfolding busy_state_def by (simp_all add: agent_eval)

lemma one_run_per_pod_witness: "vms busy_state (kp_uid job_pod) = Some 0"
proof -
  have "live busy_state 0" "run_uid busy_state 0 = kp_uid job_pod" by (simp_all add: live_def run_uid_def busy_play)
  then show ?thesis using one_run_per_pod [OF _ _ refl busy_state_def, where i = 0] busy_play(3) by simp
qed


end
