(* ===== verification/Static_Pods.thy ===== *)
theory Static_Pods imports Pod_Props Go_Net begin

text \<open>
  Pods from manifest files (\<^verbatim>\<open>poc/agent/staticpods.go\<close>): the scan of the manifest directory, which
  starts, restarts and stops \<^verbatim>\<open>runPod\<close>s of \<open>Pod_Lifecycle\<close> and claims bootstrap ClusterIPs, and the
  mirror pods and services that make them visible in the API.  The YAML decoder and SHA-256 are
  parameters of \<open>manifest_env\<close>.
\<close>

subsection \<open>Identity\<close>

text \<open>\<^verbatim>\<open>uidFromHash\<close>: version and variant bits over the first half of the hash.\<close>

definition uuid_bytes :: "bytes \<Rightarrow> bytes" where
  "uuid_bytes digest =
     (let b = take 16 digest;
          b1 = b[6 := or (and (b ! 6) 15) 64]
      in b1[8 := or (and (b1 ! 8) 63) 128])"

definition uid_from_hash :: "bytes \<Rightarrow> string" where
  "uid_from_hash digest =
     (let h = hex_encode (uuid_bytes digest)
      in slice 0 8 h @ ''-'' @ slice 8 4 h @ ''-'' @ slice 12 4 h @ ''-'' @ slice 16 4 h @ ''-'' @ slice 20 12 h)"

subsection \<open>Manifests\<close>

record manifest_env =
  me_decode :: "bytes \<Rightarrow> string + (string \<times> kpod)"
  me_sha :: "bytes \<Rightarrow> bytes"
  me_node :: string
  me_cidr :: string

text \<open>One entry of the directory: its name, whether it is a directory, and the content if it can be read.\<close>

record dir_entry =
  en_name :: string
  en_dir :: bool
  en_data :: "bytes option"

definition not_a_pod :: "string \<Rightarrow> string" where
  "not_a_pod e = ''not a pod manifest: '' @ e"

definition parse_static_pod :: "manifest_env \<Rightarrow> bytes \<Rightarrow> string + kpod" where
  "parse_static_pod env data =
     and_then (me_decode env data) (\<lambda>(kind, pod).
       if kind \<noteq> ''Pod'' then Inl (not_a_pod kind)
       else if kp_name pod = [] \<or> kp_mains pod = [] then Inl (not_a_pod ''incomplete'')
       else Inr (if kp_ns pod = [] then pod\<lparr>kp_ns := ''default''\<rparr> else pod))"

text \<open>\<^verbatim>\<open>validateBootstrapVIP\<close>: \<open>True\<close> for no error.\<close>

definition valid_vip :: "manifest_env \<Rightarrow> string \<Rightarrow> bool" where
  "valid_vip env vip =
     (case parse_addr vip of
        None \<Rightarrow> False
      | Some a \<Rightarrow> (case parse_prefix (me_cidr env) of
            None \<Rightarrow> False
          | Some p \<Rightarrow> addr_is6 a \<and> prefix_contains p a))"

definition manifest_name :: "string \<Rightarrow> bool" where
  "manifest_name name \<longleftrightarrow> \<not> has_prefix name ''.''
     \<and> (has_suffix name ''.yaml'' \<or> has_suffix name ''.yml'' \<or> has_suffix name ''.json'')"

subsection \<open>The scan\<close>

record static_pod =
  m_file :: string
  m_hash :: string
  m_vip :: string
  m_pod :: kpod
  m_vm :: nat

definition annotation :: "kpod \<Rightarrow> string \<Rightarrow> string" where
  "annotation pod k = (case kp_annot pod k of None \<Rightarrow> [] | Some v \<Rightarrow> v)"

text \<open>The pod a manifest stands for: its UID and the annotations come from the content's hash.\<close>

definition static_pod_of :: "manifest_env \<Rightarrow> bytes \<Rightarrow> kpod \<Rightarrow> kpod" where
  "static_pod_of env data pod =
     (let uid = uid_from_hash (me_sha env data)
      in pod\<lparr>kp_uid := uid, kp_annot := (kp_annot pod)(''kubernetes.io/config.hash'' \<mapsto> uid,
                 ''kubernetes.io/config.source'' \<mapsto> ''file'')\<rparr>)"

definition stop_static_pod :: "static_pod \<Rightarrow> agent_st \<Rightarrow> agent_st \<times> effect list" where
  "stop_static_pod sp s =
     (let a = m_vm sp; pod = m_pod sp;
          s1 = (if m_vip sp \<noteq> [] \<and> vips s (m_vip sp) = Some a then s\<lparr>vips := (vips s)(m_vip sp := None)\<rparr> else s);
          svc = (if m_vip sp \<noteq> [] \<and> api_up s then [DeleteService (kp_ns pod) (kp_name pod)] else []);
          s2 = stop_once a (pod_grace_period pod) s1
      in (s2, svc @ (if vms s2 (v_uid (heap s2 ! a)) = None then finalize_pod pod a s2 else [])))"

text \<open>Who may hold a VIP: the first to claim it, and a pod with the same UID.\<close>

definition granted_vip :: "manifest_env \<Rightarrow> kpod \<Rightarrow> agent_st \<Rightarrow> string" where
  "granted_vip env pod s =
     (let vip = annotation pod ''kube-on-macos.io/cluster-ip''
      in if vip = [] \<or> \<not> valid_vip env vip then []
         else case vips s vip of
                Some a \<Rightarrow> if v_uid (heap s ! a) \<noteq> kp_uid pod then [] else vip
              | None \<Rightarrow> vip)"

definition start_static_pod :: "manifest_env \<Rightarrow> string \<Rightarrow> string \<Rightarrow> kpod \<Rightarrow> agent_st \<Rightarrow> agent_st \<times> static_pod" where
  "start_static_pod env name hash pod s =
     (let a = length (heap s);
          vm = fresh_vm (kp_uid pod) (kp_name pod) (kp_ns pod) True (kp_name pod @ ''-'' @ me_node env);
          vip = granted_vip env pod s;
          s1 = launch_run pod vm s
      in (if vip = [] then s1 else s1\<lparr>vips := (vips s1)(vip \<mapsto> a)\<rparr>,
          \<lparr>m_file = name, m_hash = hash, m_vip = vip, m_pod = pod, m_vm = a\<rparr>))"

text \<open>The loop's state: the agent, the running static pods by file name, the effects so far.\<close>

type_synonym scan_st = "agent_st \<times> (string \<times> static_pod) list \<times> effect list"

definition is_manifest :: "dir_entry \<Rightarrow> bool" where
  "is_manifest e \<longleftrightarrow> \<not> en_dir e \<and> manifest_name (en_name e)"

definition scan_new :: "manifest_env \<Rightarrow> string \<Rightarrow> bytes \<Rightarrow> scan_st \<Rightarrow> scan_st" where
  "scan_new env name data st =
     (case st of (s, running, out) \<Rightarrow>
        case parse_static_pod env data of
          Inl e \<Rightarrow> (s, running, out)
        | Inr pod \<Rightarrow>
            let (s1, sp) = start_static_pod env name (hex_encode (me_sha env data)) (static_pod_of env data pod) s
            in (s1, AList.update name sp running, out))"

definition scan_entry :: "manifest_env \<Rightarrow> scan_st \<Rightarrow> dir_entry \<Rightarrow> scan_st" where
  "scan_entry env st e =
     (case st of (s, running, out) \<Rightarrow>
        if \<not> is_manifest e then st
        else case en_data e of
               None \<Rightarrow> st
             | Some data \<Rightarrow>
                 (case map_of running (en_name e) of
                    None \<Rightarrow> scan_new env (en_name e) data st
                  | Some cur \<Rightarrow>
                      if m_hash cur = hex_encode (me_sha env data) then st
                      else let (s1, stopped) = stop_static_pod cur s
                           in scan_new env (en_name e) data (s1, AList.delete (en_name e) running, out @ stopped)))"

definition seen_names :: "dir_entry list \<Rightarrow> string set" where
  "seen_names entries = en_name ` set (filter (\<lambda>e. is_manifest e \<and> en_data e \<noteq> None) entries)"

definition stop_gone :: "(string \<times> static_pod) list \<Rightarrow> agent_st \<times> effect list \<Rightarrow> agent_st \<times> effect list" where
  "stop_gone gone acc =
     foldl (\<lambda>(s, out) (name, sp). let (s1, o1) = stop_static_pod sp s in (s1, out @ o1)) acc gone"

text \<open>\<^verbatim>\<open>scanManifests\<close>; \<open>None\<close> for a directory that cannot be read.  The pods of files that are gone are
  stopped in the order of the list, which stands for any order of Go's map.\<close>

definition scan_manifests :: "manifest_env \<Rightarrow> dir_entry list option \<Rightarrow> agent_st \<Rightarrow> (string \<times> static_pod) list \<Rightarrow> scan_st" where
  "scan_manifests env entries s running =
     (case entries of
        None \<Rightarrow> (s, running, [])
      | Some es \<Rightarrow>
          let (s1, running1, out) = foldl (scan_entry env) (s, running, []) es;
              (s2, out2) = stop_gone (filter (\<lambda>(n, sp). n \<notin> seen_names es) running1) (s1, out)
          in (s2, filter (\<lambda>(n, sp). n \<in> seen_names es) running1, out2))"

subsection \<open>Mirrors\<close>

text \<open>What the apiserver says of a mirror pod: nothing usable, that there is none, or its deletion
  timestamp and the hash it carries; and of the mirror service: whether it is missing.\<close>

datatype mirror_answer = MirrorError | NoMirror | Mirror bool string

definition mirror_pod :: "manifest_env \<Rightarrow> static_pod \<Rightarrow> agent_st \<Rightarrow> kpod" where
  "mirror_pod env sp s =
     (m_pod sp)\<lparr>kp_uid := [], kp_name := v_mirror (heap s ! m_vm sp),
       kp_annot := [''kubernetes.io/config.mirror'' \<mapsto> kp_uid (m_pod sp), ''kubernetes.io/config.hash'' \<mapsto> kp_uid (m_pod sp),
                    ''kubernetes.io/config.source'' \<mapsto> ''file''],
       kp_deleting := False, kp_del_grace := None, kp_phase := None\<rparr>"

text \<open>\<^verbatim>\<open>createMirrorPod\<close>; \<open>node\<close>: the node object could be read, \<open>created\<close>: the create succeeded.  Then the
  last status reported is replayed.\<close>

definition create_mirror :: "manifest_env \<Rightarrow> bool \<Rightarrow> bool \<Rightarrow> static_pod \<Rightarrow> agent_st \<Rightarrow> agent_st \<times> effect list" where
  "create_mirror env node created sp s =
     (if \<not> node then (s, [])
      else if \<not> created then (s, [CreatePod (mirror_pod env sp s)])
      else case v_last (heap s ! m_vm sp) of
             None \<Rightarrow> (s, [CreatePod (mirror_pod env sp s)])
           | Some (ph, why, msg, ics, css) \<Rightarrow>
               let (s1, out) = set_phase (m_pod sp) ph why msg ics css s
               in (s1, CreatePod (mirror_pod env sp s) # out))"

definition service_ports :: "kcontainer \<Rightarrow> (string \<times> int) list" where
  "service_ports c = map (\<lambda>p. (cp_name p, cp_port p)) (filter (\<lambda>p. cp_port p \<noteq> 0) (kc_ports c))"

definition sync_mirror_service :: "bool \<Rightarrow> static_pod \<Rightarrow> effect list" where
  "sync_mirror_service missing sp =
     (let ports = service_ports (hd (kp_mains (m_pod sp)))
      in if \<not> missing \<or> ports = [] then []
         else [CreateService (kp_ns (m_pod sp)) (kp_name (m_pod sp)) (m_vip sp) ports])"

definition sync_mirror :: "manifest_env \<Rightarrow> bool \<Rightarrow> mirror_answer \<Rightarrow> bool \<Rightarrow> bool \<Rightarrow> static_pod \<Rightarrow> agent_st \<Rightarrow> agent_st \<times> effect list" where
  "sync_mirror env svc_missing answer node created sp s =
     (let svc = (if m_vip sp \<noteq> [] then sync_mirror_service svc_missing sp else []);
          ns = kp_ns (m_pod sp); name = v_mirror (heap s ! m_vm sp)
      in case answer of
           NoMirror \<Rightarrow> let (s1, out) = create_mirror env node created sp s in (s1, svc @ out)
         | MirrorError \<Rightarrow> (s, svc)
         | Mirror deleting hash \<Rightarrow>
             (s, svc @ (if deleting then [DeletePod ns name True]
                        else if hash \<noteq> kp_uid (m_pod sp) then [DeletePod ns name False] else [])))"

subsection \<open>The identity of a static pod\<close>

lemma hex_char_hex: "n < 16 \<Longrightarrow> is_hex (hex_char n)"
  by (auto simp: hex_char_def is_hex_def is_digit_def less_eq_char_def)

lemma some_hex_chars: "char_of (52 :: nat) = CHR ''4''" "char_of (56 :: nat) = CHR ''8''" "char_of (57 :: nat) = CHR ''9''"
    "char_of (97 :: nat) = CHR ''a''" "char_of (98 :: nat) = CHR ''b''"
  by code_simp+

lemma byte_bound: "unat (b :: byte) < 256"
proof -
  have "unat b < 2 ^ LENGTH(8)" by (rule unsigned_less)
  then show ?thesis by simp
qed

lemma high_nibble: "unat (b :: byte) div 16 = unat (drop_bit 4 b)"
  using drop_bit_eq_div [of 4 "unat b"] byte_bound [of b] by (simp add: unsigned_drop_bit_eq take_bit_nat_eq_self)

lemma version_nibble: "unat (or (and x 15) 64 :: byte) div 16 = 4"
  by (simp add: high_nibble drop_bit_or drop_bit_and)

lemma two_bits: "and y 3 \<in> {0, 1, 2, 3 :: byte}"
proof -
  have "and y 3 = take_bit 2 y" by (simp add: take_bit_eq_mask mask_eq_exp_minus_1)
  moreover have "unat (take_bit 2 y) = take_bit 2 (unat y)" by (simp add: unsigned_take_bit_eq)
  moreover have "take_bit 2 (unat y) < 2 ^ 2" by (rule take_bit_nat_less_exp)
  ultimately have "unat (and y 3) < 4" by simp
  then have "unat (and y 3) = 0 \<or> unat (and y 3) = 1 \<or> unat (and y 3) = 2 \<or> unat (and y 3) = 3" by linarith
  then show ?thesis by (simp add: word_unat_eq_iff)
qed

lemma variant_nibble: "hex_char (unat (or (and x 63) 128 :: byte) div 16) \<in> set ''89ab''"
proof -
  have "drop_bit 4 (or (and x 63) 128) = or (and (drop_bit 4 x) 3) (8 :: byte)"
    by (simp add: drop_bit_or drop_bit_and)
  then show ?thesis using two_bits [of "drop_bit 4 x"] by (auto simp: high_nibble hex_char_def some_hex_chars)
qed

lemma hex_encode_hex: "c \<in> set (hex_encode bs) \<Longrightarrow> is_hex c"
proof -
  have "unat b div 16 < 16" for b :: byte using byte_bound [of b] by (simp add: div_less_iff_less_mult)
  then show "c \<in> set (hex_encode bs) \<Longrightarrow> is_hex c"
    by (auto simp: hex_encode_def hex_byte_def intro: hex_char_hex)
qed

lemma hex_encode_nth: "i < length bs \<Longrightarrow> hex_encode bs ! (2 * i) = hex_char (unat (bs ! i) div 16)"
proof (induction bs arbitrary: i)
  case (Cons b bs)
  then show ?case by (cases i) (simp_all add: hex_encode_def hex_byte_def)
qed simp

lemma uuid_bytes_length: "16 \<le> length digest \<Longrightarrow> length (uuid_bytes digest) = 16"
  by (simp add: uuid_bytes_def Let_def)

lemma uid_bytes_of: "16 \<le> length digest \<Longrightarrow> length (uid_from_hash digest) = 36"
  using uuid_bytes_length [of digest] by (simp add: uid_from_hash_def Let_def)

text \<open>Where the character at position \<open>i\<close> of a UID comes from.\<close>

lemma uid_nth:
  assumes "16 \<le> length digest" and "i < 36"
  shows "uid_from_hash digest ! i =
    (if i \<in> {8, 13, 18, 23} then CHR ''-''
     else hex_encode (uuid_bytes digest) !
       (if i < 8 then i else if i < 13 then i - 1 else if i < 18 then i - 2 else if i < 23 then i - 3 else i - 4))"
proof -
  have h: "length (hex_encode (uuid_bytes digest)) = 32" using assms(1) by (simp add: uuid_bytes_length)
  have "i < 8 \<or> i = 8 \<or> (\<exists>j < 4. i = 9 + j) \<or> i = 13 \<or> (\<exists>j < 4. i = 14 + j) \<or> i = 18
      \<or> (\<exists>j < 4. i = 19 + j) \<or> i = 23 \<or> (\<exists>j < 12. i = 24 + j)"
    using assms(2) by presburger
  then show ?thesis using h
    by (elim disjE exE conjE) (simp_all add: uid_from_hash_def Let_def slice_def nth_append nth_Cons')
qed

text \<open>C38: The UID of a static pod is a UUID as RFC 4122 has it: five groups of hexadecimal digits, version
  4, variant 10; it depends on the content only through the first half of its hash.\<close>

theorem uid_well_formed:
  assumes "16 \<le> length digest"
  shows "length (uid_from_hash digest) = 36 \<and> uid_from_hash digest ! 14 = CHR ''4''
    \<and> uid_from_hash digest ! 19 \<in> set ''89ab''
    \<and> (\<forall>i < 36. if i \<in> {8, 13, 18, 23} then uid_from_hash digest ! i = CHR ''-'' else is_hex (uid_from_hash digest ! i))"
proof -
  let ?h = "hex_encode (uuid_bytes digest)"
  have h: "length ?h = 32" using assms by (simp add: uuid_bytes_length)
  have "length (uid_from_hash digest) = 36" using assms by (rule uid_bytes_of)
  moreover have "uuid_bytes digest ! 6 = or (and (digest ! 6) 15) 64" "uuid_bytes digest ! 8 = or (and (digest ! 8) 63) 128"
    using assms by (simp_all add: uuid_bytes_def Let_def)
  then have "?h ! 12 = hex_char 4" "?h ! 16 \<in> set ''89ab''"
    using hex_encode_nth [of 6 "uuid_bytes digest"] hex_encode_nth [of 8 "uuid_bytes digest"] assms
      variant_nibble [of "digest ! 8"]
    by (simp_all add: uuid_bytes_length version_nibble)
  moreover have "is_hex (?h ! k)" if "k < 32" for k using that h by (intro hex_encode_hex [of _ "uuid_bytes digest"] nth_mem) simp
  ultimately show ?thesis
    using assms by (auto simp: uid_nth hex_char_def some_hex_chars)
qed

subsection \<open>What a scan leaves running\<close>

lemma map_of_filter_names: "map_of (filter (\<lambda>(n, x). n \<in> S) al) k = (if k \<in> S then map_of al k else None)"
  by (induction al) auto

definition hash_of :: "manifest_env \<Rightarrow> bytes \<Rightarrow> string" where
  "hash_of env d = hex_encode (me_sha env d)"

text \<open>The table agrees with one file: its pod runs with the content's hash, or the content is no pod.\<close>

definition tracked :: "manifest_env \<Rightarrow> (string \<times> static_pod) list \<Rightarrow> dir_entry \<Rightarrow> bool" where
  "tracked env running e \<longleftrightarrow>
     (is_manifest e \<longrightarrow> (\<forall>d. en_data e = Some d \<longrightarrow>
        (case map_of running (en_name e) of
           Some sp \<Rightarrow> m_hash sp = hash_of env d
         | None \<Rightarrow> \<exists>err. parse_static_pod env d = Inl err)))"

lemma scan_new_table:
  "map_of (fst (snd (scan_new env name d (s, running, out)))) =
     (case parse_static_pod env d of
        Inl e \<Rightarrow> map_of running
      | Inr pod \<Rightarrow> (map_of running)(name \<mapsto> snd (start_static_pod env name (hash_of env d) (static_pod_of env d pod) s)))"
  by (simp add: scan_new_def map_of_update hash_of_def split_beta Let_def split: sum.split)

lemma started_hash [simp]: "m_hash (snd (start_static_pod env name h pod s)) = h"
  by (simp add: start_static_pod_def Let_def)

lemma scan_entry_other:
  "n \<noteq> en_name e \<Longrightarrow> map_of (fst (snd (scan_entry env (s, running, out) e))) n = map_of running n"
  by (auto simp: scan_entry_def scan_new_table split_beta Let_def AList.delete_conv' split: option.split sum.split)

lemma scan_entry_tracked: "tracked env (fst (snd (scan_entry env (s, running, out) e))) e"
  by (auto simp: tracked_def scan_entry_def scan_new_table split_beta Let_def AList.delete_conv' hash_of_def split: option.splits sum.splits)

lemma tracked_cong: "map_of r (en_name e) = map_of r' (en_name e) \<Longrightarrow> tracked env r e = tracked env r' e"
  by (simp add: tracked_def)

lemma scan_fold_tracked:
  assumes "distinct (map en_name es)"
  shows "(\<forall>e \<in> set es. tracked env (fst (snd (foldl (scan_entry env) st es))) e)
     \<and> (\<forall>n. n \<notin> en_name ` set es \<longrightarrow> map_of (fst (snd (foldl (scan_entry env) st es))) n = map_of (fst (snd st)) n)"
  using assms
proof (induction es arbitrary: st)
  case (Cons e es)
  obtain s r out where st: "st = (s, r, out)" by (cases st)
  let ?st = "scan_entry env st e"
  from Cons have ih: "\<forall>e \<in> set es. tracked env (fst (snd (foldl (scan_entry env) ?st es))) e"
      "n \<notin> en_name ` set es \<Longrightarrow> map_of (fst (snd (foldl (scan_entry env) ?st es))) n = map_of (fst (snd ?st)) n" for n
    by simp_all
  have "tracked env (fst (snd (foldl (scan_entry env) ?st es))) e"
    using ih(2) [of "en_name e"] Cons.prems scan_entry_tracked [of env s r out e] st
    by (subst tracked_cong [where r' = "fst (snd ?st)"]) auto
  then show ?case using ih scan_entry_other [of _ e env s r out] st by auto
qed simp

lemma tracked_stays: "tracked env r e \<Longrightarrow> scan_entry env (s, r, out) e = (s, r, out)"
  by (auto simp: tracked_def scan_entry_def scan_new_def hash_of_def split: option.splits)

lemma scan_fold_stays: "\<forall>e \<in> set es. tracked env r e \<Longrightarrow> foldl (scan_entry env) (s, r, out) es = (s, r, out)"
  by (induction es) (simp_all add: tracked_stays)

lemma scan_running: "fst (snd (scan_manifests env (Some es) s running))
    = filter (\<lambda>(n, sp). n \<in> seen_names es) (fst (snd (foldl (scan_entry env) (s, running, []) es)))"
  by (simp add: scan_manifests_def split_beta Let_def)

lemma seen_tracked: "tracked env (filter (\<lambda>(n, sp). n \<in> seen_names es) r) e = tracked env r e" if "e \<in> set es"
  using that by (cases "en_data e") (auto simp: tracked_def map_of_filter_names seen_names_def)


text \<open>Scanning an unchanged directory again starts, stops and reports nothing.\<close>

theorem scan_idempotent:
  assumes "distinct (map en_name es)" and "scan_manifests env (Some es) s running = (s', running', out)"
  shows "scan_manifests env (Some es) s' running' = (s', running', [])"
proof -
  have "\<forall>e \<in> set es. tracked env running' e"
    using assms(2) scan_fold_tracked [OF assms(1), of env "(s, running, [])"] scan_running [of env es s running]
      seen_tracked [of _ es env] by auto
  moreover have "filter (\<lambda>(n, sp). n \<notin> seen_names es) running' = []" "filter (\<lambda>(n, sp). n \<in> seen_names es) running' = running'"
    using assms(2) scan_running [of env es s running] by (auto simp: filter_empty_conv intro: filter_True)
  ultimately show ?thesis
    by (simp add: scan_manifests_def scan_fold_stays stop_gone_def)
qed

subsection \<open>Invariants of the scan\<close>

text \<open>A property of the agent and the table that every stop (of a pod in the table) and every start (of
  one that is not) keeps holds after a scan.\<close>

locale scan_invariant =
  fixes env :: manifest_env and P :: "agent_st \<Rightarrow> (string \<rightharpoonup> static_pod) \<Rightarrow> bool"
  assumes stop_keeps: "P s m \<Longrightarrow> m n = Some sp \<Longrightarrow> P (fst (stop_static_pod sp s)) (m(n := None))"
    and start_keeps: "P s m \<Longrightarrow> m n = None \<Longrightarrow>
      P (fst (start_static_pod env n h pod s)) (m(n \<mapsto> snd (start_static_pod env n h pod s)))"
begin

definition holds :: "scan_st \<Rightarrow> bool" where
  "holds st \<longleftrightarrow> P (fst st) (map_of (fst (snd st))) \<and> distinct (map fst (fst (snd st)))"

lemma new_keeps: "holds (s, running, out) \<Longrightarrow> map_of running n = None \<Longrightarrow> holds (scan_new env n d (s, running, out))"
  by (auto simp: holds_def scan_new_def split_beta Let_def map_of_update distinct_update start_keeps split: sum.split)

lemma entry_keeps: "holds st \<Longrightarrow> holds (scan_entry env st e)"
proof -
  assume h: "holds st"
  obtain s r out where st: "st = (s, r, out)" by (cases st)
  have "holds (fst (stop_static_pod cur s), AList.delete n r, out')" if "map_of r n = Some cur" for n cur out'
    using h st stop_keeps [of s "map_of r" n cur] that by (simp add: holds_def AList.delete_conv' distinct_delete)
  then show ?thesis
    using h by (auto simp: st scan_entry_def split_beta Let_def AList.delete_conv' intro!: new_keeps split: option.split)
qed

lemma fold_keeps: "holds st \<Longrightarrow> holds (foldl (scan_entry env) st es)"
  by (induction es arbitrary: st) (simp_all add: entry_keeps)

lemma gone_keeps:
  "P (fst acc) m \<Longrightarrow> distinct (map fst gone) \<Longrightarrow> \<forall>(n, sp) \<in> set gone. m n = Some sp \<Longrightarrow>
     P (fst (stop_gone gone acc)) (\<lambda>n. if n \<in> fst ` set gone then None else m n)"
proof (induction gone arbitrary: acc m)
  case (Cons g gone)
  obtain n sp where g: "g = (n, sp)" by force
  let ?acc = "(fst (stop_static_pod sp (fst acc)), snd acc @ snd (stop_static_pod sp (fst acc)))"
  have p: "P (fst ?acc) (m(n := None))" using stop_keeps Cons.prems g by simp
  have q: "\<forall>(n', sp') \<in> set gone. (m(n := None)) n' = Some sp'" using Cons.prems g by force
  have d: "distinct (map fst gone)" using Cons.prems(2) by simp
  from Cons.IH [OF p d q]
  have "P (fst (stop_gone gone ?acc)) (\<lambda>k. if k \<in> fst ` set gone then None else (m(n := None)) k)" .
  moreover have "(\<lambda>k. if k \<in> fst ` set gone then None else (m(n := None)) k) = (\<lambda>k. if k \<in> fst ` set (g # gone) then None else m k)"
    using g by auto
  ultimately show ?case by (simp add: stop_gone_def g split_beta Let_def)
qed (simp add: stop_gone_def)

lemma scan_keeps:
  assumes "P s (map_of running)" and "distinct (map fst running)"
    and "scan_manifests env entries s running = (s', running', out)"
  shows "P s' (map_of running') \<and> distinct (map fst running')"
proof (cases entries)
  case None
  then show ?thesis using assms by (simp add: scan_manifests_def)
next
  case (Some es)
  obtain s1 r1 o1 where f: "foldl (scan_entry env) (s, running, []) es = (s1, r1, o1)" by (metis prod_cases3)
  have h: "P s1 (map_of r1)" "distinct (map fst r1)"
    using fold_keeps [of "(s, running, [])" es] f assms(1,2) by (simp_all add: holds_def)
  let ?gone = "filter (\<lambda>(n, sp). n \<notin> seen_names es) r1"
  have "\<forall>(n, sp) \<in> set ?gone. map_of r1 n = Some sp" using h(2) by auto
  moreover have "distinct (map fst ?gone)" using h(2) by (rule distinct_map_filter)
  ultimately have p: "P (fst (stop_gone ?gone (s1, o1))) (\<lambda>n. if n \<in> fst ` set ?gone then None else map_of r1 n)"
    using h(1) by (intro gone_keeps) simp_all
  have "(\<lambda>n. if n \<in> fst ` set ?gone then None else map_of r1 n) = map_of (filter (\<lambda>(n, sp). n \<in> seen_names es) r1)"
    by (rule ext) (force simp: map_of_filter_names image_iff map_of_eq_None_iff)
  moreover have "s' = fst (stop_gone ?gone (s1, o1))" "running' = filter (\<lambda>(n, sp). n \<in> seen_names es) r1"
    using assms(3) f Some by (auto simp: scan_manifests_def split_beta Let_def)
  ultimately show ?thesis using p h(2) by (simp add: distinct_map_filter)
qed

end

text \<open>The VIP table: every entry belongs to a running static pod that was granted that VIP.\<close>

definition vips_ok :: "manifest_env \<Rightarrow> agent_st \<Rightarrow> (string \<rightharpoonup> static_pod) \<Rightarrow> bool" where
  "vips_ok env s m \<longleftrightarrow> vips s [] = None
     \<and> (\<forall>v a. vips s v = Some a \<longrightarrow> (\<exists>n sp. m n = Some sp \<and> m_vip sp = v \<and> m_vm sp = a))
     \<and> (\<forall>n sp. m n = Some sp \<longrightarrow> m_vm sp < length (heap s) \<and> (m_vip sp \<noteq> [] \<longrightarrow> valid_vip env (m_vip sp)))"

text \<open>Every pod of the table \<open>m0\<close> is still in it or has been told to stop.\<close>

definition dropped_stopped :: "(string \<rightharpoonup> static_pod) \<Rightarrow> agent_st \<Rightarrow> (string \<rightharpoonup> static_pod) \<Rightarrow> bool" where
  "dropped_stopped m0 s m \<longleftrightarrow> (\<forall>n sp. m0 n = Some sp \<longrightarrow> m_vm sp < length (heap s)
     \<and> (m n = Some sp \<or> v_stop_used (heap s ! m_vm sp)))"

lemma stop_once_used: "a < length (heap s) \<Longrightarrow> v_stop_used (heap (stop_once a g s) ! a)"
  by (simp add: stop_once_def upd_vm_def)

lemma stop_once_mono: "a < length (heap s) \<Longrightarrow> v_stop_used (heap s ! a) \<Longrightarrow> v_stop_used (heap (stop_once b g s) ! a)"
  by (cases "b = a") (simp_all add: stop_once_def upd_vm_def)

lemma stop_static_pod_frame:
  "length (heap (fst (stop_static_pod sp s))) = length (heap s)"
  "vips (fst (stop_static_pod sp s)) = (if m_vip sp \<noteq> [] \<and> vips s (m_vip sp) = Some (m_vm sp) then (vips s)(m_vip sp := None) else vips s)"
  "a < length (heap s) \<Longrightarrow> v_stop_used (heap s ! a) \<Longrightarrow> v_stop_used (heap (fst (stop_static_pod sp s)) ! a)"
  "m_vm sp < length (heap s) \<Longrightarrow> v_stop_used (heap (fst (stop_static_pod sp s)) ! m_vm sp)"
  by (auto simp: stop_static_pod_def Let_def stop_once_used stop_once_mono) (simp_all add: stop_once_def upd_vm_def)

lemma start_static_pod_frame:
  "length (heap (fst (start_static_pod env n h pod s))) = Suc (length (heap s))"
  "a < length (heap s) \<Longrightarrow> heap (fst (start_static_pod env n h pod s)) ! a = heap s ! a"
  "m_vm (snd (start_static_pod env n h pod s)) = length (heap s)"
  "m_vip (snd (start_static_pod env n h pod s)) = granted_vip env pod s"
  "vips (fst (start_static_pod env n h pod s)) =
     (if granted_vip env pod s = [] then vips s else (vips s)(granted_vip env pod s \<mapsto> length (heap s)))"
  by (simp_all add: start_static_pod_def Let_def launch_run_def nth_append)

lemma granted_valid: "granted_vip env pod s \<noteq> [] \<Longrightarrow> valid_vip env (granted_vip env pod s)"
  by (auto simp: granted_vip_def Let_def split: if_splits option.splits)

interpretation vip_scan: scan_invariant env "vips_ok env" for env
proof
  fix s m n sp assume ok: "vips_ok env s m" and n: "m n = Some sp"
  have "\<exists>n' sp'. (m(n := None)) n' = Some sp' \<and> m_vip sp' = v \<and> m_vm sp' = a"
    if "vips (fst (stop_static_pod sp s)) v = Some a" for v a
  proof -
    have v: "vips s v = Some a" "\<not> (v = m_vip sp \<and> a = m_vm sp)"
      using that ok by (auto simp: stop_static_pod_frame vips_ok_def split: if_splits)
    then obtain n' sp' where "m n' = Some sp'" "m_vip sp' = v" "m_vm sp' = a" using ok unfolding vips_ok_def by blast
    moreover from this v(2) n have "n' \<noteq> n" by auto
    ultimately show ?thesis by auto
  qed
  then show "vips_ok env (fst (stop_static_pod sp s)) (m(n := None))"
    using ok by (auto simp: vips_ok_def stop_static_pod_frame)
next
  fix s m n h pod assume ok: "vips_ok env s m" and n: "m n = None"
  have "\<exists>n' sp'. (m(n \<mapsto> snd (start_static_pod env n h pod s))) n' = Some sp' \<and> m_vip sp' = v \<and> m_vm sp' = a"
    if "vips (fst (start_static_pod env n h pod s)) v = Some a" for v a
  proof (cases "granted_vip env pod s \<noteq> [] \<and> v = granted_vip env pod s")
    case True
    then show ?thesis using that by (intro exI [of _ n]) (simp add: start_static_pod_frame)
  next
    case False
    then have "vips s v = Some a" using that by (auto simp: start_static_pod_frame split: if_splits)
    then obtain n' sp' where m: "m n' = Some sp'" "m_vip sp' = v" "m_vm sp' = a" using ok unfolding vips_ok_def by blast
    then have "n' \<noteq> n" using n by auto
    then show ?thesis using m by (intro exI [of _ n'] exI [of _ sp']) simp
  qed
  then show "vips_ok env (fst (start_static_pod env n h pod s)) (m(n \<mapsto> snd (start_static_pod env n h pod s)))"
    using ok granted_valid by (auto simp: vips_ok_def start_static_pod_frame less_SucI)
qed

interpretation drop_scan: scan_invariant env "dropped_stopped m0" for env m0
proof
  fix s m n sp assume ok: "dropped_stopped m0 s m" and n: "m n = Some sp"
  show "dropped_stopped m0 (fst (stop_static_pod sp s)) (m(n := None))"
    unfolding dropped_stopped_def
  proof (intro allI impI conjI)
    fix k x assume x: "m0 k = Some x"
    then have old: "m_vm x < length (heap s)" "m k = Some x \<or> v_stop_used (heap s ! m_vm x)"
      using ok unfolding dropped_stopped_def by blast+
    then show "m_vm x < length (heap (fst (stop_static_pod sp s)))" by (simp add: stop_static_pod_frame)
    show "(m(n := None)) k = Some x \<or> v_stop_used (heap (fst (stop_static_pod sp s)) ! m_vm x)"
      using old n stop_static_pod_frame(3,4) by (cases "k = n") auto
  qed
next
  fix s m n h pod assume ok: "dropped_stopped m0 s m" and n: "m n = None"
  show "dropped_stopped m0 (fst (start_static_pod env n h pod s)) (m(n \<mapsto> snd (start_static_pod env n h pod s)))"
    unfolding dropped_stopped_def
  proof (intro allI impI conjI)
    fix k x assume x: "m0 k = Some x"
    then have old: "m_vm x < length (heap s)" "m k = Some x \<or> v_stop_used (heap s ! m_vm x)"
      using ok unfolding dropped_stopped_def by blast+
    then show "m_vm x < length (heap (fst (start_static_pod env n h pod s)))" by (simp add: start_static_pod_frame)
    show "(m(n \<mapsto> snd (start_static_pod env n h pod s))) k = Some x
        \<or> v_stop_used (heap (fst (start_static_pod env n h pod s)) ! m_vm x)"
      using old n by (cases "k = n") (auto simp: start_static_pod_frame)
  qed
qed

text \<open>C31: Bootstrap VIPs stay current.  If the table of VIPs was right before a scan it is right after it:
  every VIP belongs to a running static pod that asked for it, and lies in the service range.  So a
  removed or changed manifest leaves no VIP behind.\<close>

theorem vips_stay_current:
  assumes "vips_ok env s (map_of running)" and "distinct (map fst running)"
    and "scan_manifests env entries s running = (s', running', out)" and "vips s' v = Some a"
  shows "\<exists>n sp. map_of running' n = Some sp \<and> m_vip sp = v \<and> m_vm sp = a \<and> valid_vip env v \<and> v \<noteq> []"
proof -
  have ok: "vips_ok env s' (map_of running')" using vip_scan.scan_keeps [OF assms(1-3)] by simp
  then have "v \<noteq> []" using assms(4) by (auto simp: vips_ok_def)
  with ok assms(4) show ?thesis unfolding vips_ok_def by blast
qed

text \<open>A static pod whose manifest changed or vanished is told to stop by the scan that notices.\<close>

theorem changed_manifest_stops_pod:
  assumes "distinct (map fst running)" and "\<forall>(n, sp) \<in> set running. m_vm sp < length (heap s)"
    and "scan_manifests env entries s running = (s', running', out)"
    and "map_of running n = Some sp" and "map_of running' n \<noteq> Some sp"
  shows "v_stop_used (heap s' ! m_vm sp)"
proof -
  have "dropped_stopped (map_of running) s (map_of running)"
    using assms(2) map_of_SomeD [of running] by (fastforce simp: dropped_stopped_def)
  then have "dropped_stopped (map_of running) s' (map_of running')"
    using drop_scan.scan_keeps [OF _ assms(1,3)] by blast
  then show ?thesis using assms(4,5) unfolding dropped_stopped_def by blast
qed

subsection \<open>Mirrors and identity\<close>

lemma is_mirror_mirror: "kp_uid (m_pod sp) \<noteq> [] \<Longrightarrow> is_mirror (mirror_pod env sp s)"
  by (simp add: is_mirror_def mirror_pod_def)

text \<open>A mirror pod never starts a VM, and stands for the VM of its static pod: the watch leaves the
  agent as it is whatever it delivers of the mirror, and logs and exec sessions for it are keyed by
  the static pod's UID.\<close>

theorem mirror_never_runs:
  assumes "kp_uid (m_pod sp) \<noteq> []" and "kp_annot pod = kp_annot (mirror_pod env sp s)"
  shows "fst (reconcile_pod pod s') = s' \<and> pod_deleted pod s' = s' \<and> pod_state_uid pod = kp_uid (m_pod sp)"
proof -
  have "is_mirror pod" using is_mirror_mirror [OF assms(1), of env s] assms(2) by (simp add: is_mirror_def)
  then show ?thesis
    using assms by (simp add: reconcile_pod_def pod_deleted_def pod_state_uid_def) (simp add: mirror_pod_def)
qed

text \<open>A mirror created while its static pod runs is given the last status reported.\<close>

theorem mirror_backfilled:
  assumes "api_up s" and "vms s (kp_uid (m_pod sp)) = Some (m_vm sp)" and "v_static (heap s ! m_vm sp)"
    and "v_last (heap s ! m_vm sp) = Some (ph, why, msg, ics, css)"
  shows "\<exists>p. snd (create_mirror env True True sp s) = [CreatePod (mirror_pod env sp s), PutStatus p]
     \<and> put_ns p = kp_ns (mirror_pod env sp s) \<and> put_name p = kp_name (mirror_pod env sp s)
     \<and> put_phase p = ph \<and> put_reason p = why \<and> put_message p = msg \<and> put_ics p = ics \<and> put_css p = css"
  using assms by (simp add: create_mirror_def set_phase_def Let_def mirror_pod_def)

text \<open>Once the static pod has ended, its entry in \<^verbatim>\<open>a.vms\<close> is gone, \<^verbatim>\<open>setPhase\<close> takes the pod for an API
  pod, and the final status kept for the mirror is written to an object of another name.\<close>

theorem ended_mirror_not_backfilled:
  assumes "api_up s" and "vms s (kp_uid (m_pod sp)) = None"
    and "v_mirror (heap s ! m_vm sp) = kp_name (m_pod sp) @ ''-'' @ me_node env"
    and "v_last (heap s ! m_vm sp) = Some (ph, why, msg, ics, css)"
  shows "\<exists>p. snd (create_mirror env True True sp s) = [CreatePod (mirror_pod env sp s), PutStatus p]
     \<and> put_name p = kp_name (m_pod sp) \<and> put_name p \<noteq> kp_name (mirror_pod env sp s)"
  using assms by (simp add: create_mirror_def set_phase_def Let_def mirror_pod_def)

text \<open>Two manifests with the same content, or one that is changed and changed back while its old VM is
  still stopping, share a UID: when the earlier goroutine leaves, it takes the entry of the later one
  out of \<^verbatim>\<open>a.vms\<close>, and a pod that runs is unknown to the agent.\<close>

theorem earlier_exit_forgets_later:
  assumes "i < length (runs s)" and "run_uid s i = kp_uid pod"
    and "start_static_pod env n h pod s = (s1, sp)"
  shows "live (leave_run i s1) (length (runs s)) \<and> run_uid (leave_run i s1) (length (runs s)) = kp_uid pod
     \<and> vms (leave_run i s1) (kp_uid pod) = None"
proof -
  have "runs s1 = runs s @ [\<lparr>r_pod = pod, r_vm = length (heap s), r_pc = Entered, r_late = []\<rparr>]"
    using assms(3) by (auto simp: start_static_pod_def launch_run_def Let_def split: if_splits)
  then show ?thesis
    using assms(1,2) by (auto simp: leave_run_def set_pc_def live_def run_uid_def nth_append nth_list_update)
qed

subsection \<open>A directory\<close>

definition demo_env :: manifest_env where
  "demo_env = \<lparr>me_decode = (\<lambda>d. if d = [] then Inl ''empty'' else Inr (''Pod'', (a_pod [] [a_container ''web''])
     \<lparr>kp_annot := [''kube-on-macos.io/cluster-ip'' \<mapsto> ''::'']\<rparr>)), me_sha = (\<lambda>d. take 32 (d @ replicate 32 0)),
     me_node = ''mac'', me_cidr = ''::/112''\<rparr>"

definition demo_dir :: "dir_entry list" where
  "demo_dir = [\<lparr>en_name = ''README'', en_dir = False, en_data = Some [1]\<rparr>, \<lparr>en_name = ''a.yaml'', en_dir = False, en_data = Some [7]\<rparr>]"

lemma demo_vip: "valid_vip demo_env ''::''"
proof -
  have "parse_addr ''::'' = Some (Addr6 (replicate 16 0) [])" by code_simp
  moreover have "parse_prefix ''::/112'' = Some (Addr6 (replicate 16 0) [], 112)" by code_simp
  ultimately show ?thesis by (simp add: valid_vip_def demo_env_def prefix_contains_def addr_is6_def addr_zone_def addr_bits_def)
qed

definition demo_scan :: scan_st where
  "demo_scan = scan_manifests demo_env (Some demo_dir) (idle_agent True) []"

definition demo_static :: kpod where
  "demo_static = static_pod_of demo_env [7] ((a_pod [] [a_container ''web''])\<lparr>kp_annot := [''kube-on-macos.io/cluster-ip'' \<mapsto> ''::'']\<rparr>)"

lemma demo_dir_names: "manifest_name ''a.yaml''" "\<not> manifest_name ''README''"
  by code_simp+

lemma demo_parse: "parse_static_pod demo_env [7] = Inr ((a_pod [] [a_container ''web''])\<lparr>kp_annot := [''kube-on-macos.io/cluster-ip'' \<mapsto> ''::'']\<rparr>)"
  by (simp add: parse_static_pod_def demo_env_def a_pod_def)

lemma demo_granted: "granted_vip demo_env demo_static (idle_agent True) = ''::''"
  using demo_vip by (simp add: granted_vip_def demo_static_def static_pod_of_def annotation_def Let_def idle_agent_def)

lemma demo_scanned: "demo_scan = (fst (start_static_pod demo_env ''a.yaml'' (hash_of demo_env [7]) demo_static (idle_agent True)),
    [(''a.yaml'', snd (start_static_pod demo_env ''a.yaml'' (hash_of demo_env [7]) demo_static (idle_agent True)))], [])"
proof -
  have "is_manifest \<lparr>en_name = ''a.yaml'', en_dir = False, en_data = Some [7]\<rparr>"
    "\<not> is_manifest \<lparr>en_name = ''README'', en_dir = False, en_data = Some [1]\<rparr>"
    by (simp_all add: is_manifest_def demo_dir_names)
  then show ?thesis
    by (simp add: demo_scan_def scan_manifests_def demo_dir_def scan_entry_def scan_new_def demo_parse demo_static_def
        hash_of_def seen_names_def stop_gone_def split_beta Let_def)
qed

lemma demo_files: "distinct (map en_name demo_dir)"
  by (simp add: demo_dir_def)

lemma uid_well_formed_witness:
  "length (uid_from_hash (replicate 32 0)) = 36 \<and> uid_from_hash (replicate 32 0) ! 14 = CHR ''4''"
  using uid_well_formed [of "replicate 32 0"] by simp


lemma scan_idempotent_witness:
  "scan_manifests demo_env (Some demo_dir) (fst demo_scan) (fst (snd demo_scan)) = (fst demo_scan, fst (snd demo_scan), [])"
  using scan_idempotent [OF demo_files, of demo_env "idle_agent True" "[]" "fst demo_scan" "fst (snd demo_scan)" "snd (snd demo_scan)"]
  by (simp add: demo_scan_def)

lemma vips_stay_current_witness:
  "\<exists>n sp. map_of (fst (snd demo_scan)) n = Some sp \<and> m_vip sp = ''::'' \<and> m_vm sp = 0 \<and> valid_vip demo_env ''::'' \<and> ''::'' \<noteq> []"
proof (rule vips_stay_current)
  show "scan_manifests demo_env (Some demo_dir) (idle_agent True) [] = (fst demo_scan, fst (snd demo_scan), snd (snd demo_scan))"
    by (simp add: demo_scan_def)
  show "vips (fst demo_scan) ''::'' = Some 0"
    by (simp add: demo_scanned start_static_pod_frame demo_granted) (simp add: idle_agent_def)
qed (simp_all add: vips_ok_def idle_agent_def)

lemma changed_manifest_stops_pod_witness:
  "v_stop_used (heap (fst (scan_manifests demo_env (Some []) (fst demo_scan) (fst (snd demo_scan)))) ! 0)"
proof -
  obtain s r out where e: "scan_manifests demo_env (Some []) (fst demo_scan) (fst (snd demo_scan)) = (s, r, out)" by (metis prod_cases3)
  then have "r = []" by (auto simp: scan_manifests_def seen_names_def split_beta Let_def)
  moreover have "m_vm (snd (start_static_pod demo_env ''a.yaml'' (hash_of demo_env [7]) demo_static (idle_agent True))) = 0"
    by (simp add: start_static_pod_frame idle_agent_def)
  ultimately show ?thesis
    using changed_manifest_stops_pod [OF _ _ e, of "''a.yaml''"] e
    by (simp add: demo_scanned start_static_pod_frame)
qed

lemma demo_uid: "kp_uid demo_static \<noteq> []"
proof -
  have "kp_uid demo_static = uid_from_hash (me_sha demo_env [7])" by (simp add: demo_static_def static_pod_of_def Let_def)
  moreover have "length (uid_from_hash (me_sha demo_env [7])) = 36" using uid_bytes_of [of "me_sha demo_env [7]"] by (simp add: demo_env_def)
  ultimately show ?thesis by auto
qed

definition demo_sp :: static_pod where
  "demo_sp = \<lparr>m_file = ''a.yaml'', m_hash = [], m_vip = [], m_pod = demo_static, m_vm = 0\<rparr>"

text \<open>The agent when the pod's VM has reported, before (\<open>True\<close>) and after its goroutine left.\<close>

definition mirror_state :: "bool \<Rightarrow> agent_st" where
  "mirror_state running = (idle_agent True)
     \<lparr>heap := [(fresh_vm (kp_uid demo_static) ''web'' ''default'' True ''web-mac'')\<lparr>v_last := Some (PodSucceeded, [], [], [], [])\<rparr>],
      vms := (if running then [kp_uid demo_static \<mapsto> 0] else Map.empty)\<rparr>"

lemma mirror_never_runs_witness:
  "pod_state_uid (mirror_pod demo_env demo_sp (mirror_state True)) = kp_uid demo_static"
  using mirror_never_runs [of demo_sp "mirror_pod demo_env demo_sp (mirror_state True)" demo_env "mirror_state True"] demo_uid
  by (simp add: demo_sp_def)

lemma mirror_backfilled_witness:
  "\<exists>p. snd (create_mirror demo_env True True demo_sp (mirror_state True))
       = [CreatePod (mirror_pod demo_env demo_sp (mirror_state True)), PutStatus p] \<and> put_phase p = PodSucceeded"
proof -
  have "v_last (heap (mirror_state True) ! m_vm demo_sp) = Some (PodSucceeded, [], [], [], [])"
    "vms (mirror_state True) (kp_uid (m_pod demo_sp)) = Some (m_vm demo_sp)" "v_static (heap (mirror_state True) ! m_vm demo_sp)"
    "api_up (mirror_state True)"
    by (simp_all add: mirror_state_def demo_sp_def idle_agent_def fresh_vm_def)
  from mirror_backfilled [OF this(4,2,3,1)] show ?thesis by blast
qed

lemma ended_mirror_not_backfilled_witness:
  "\<exists>p. snd (create_mirror demo_env True True demo_sp (mirror_state False))
       = [CreatePod (mirror_pod demo_env demo_sp (mirror_state False)), PutStatus p] \<and> put_name p = ''web''"
proof -
  have n: "kp_name (m_pod demo_sp) = ''web''" "me_node demo_env = ''mac''"
    by (simp_all add: demo_sp_def demo_static_def static_pod_of_def a_pod_def demo_env_def Let_def)
  have "v_last (heap (mirror_state False) ! m_vm demo_sp) = Some (PodSucceeded, [], [], [], [])"
    "vms (mirror_state False) (kp_uid (m_pod demo_sp)) = None" "v_mirror (heap (mirror_state False) ! m_vm demo_sp) = ''web-mac''"
    "api_up (mirror_state False)"
    by (simp_all add: mirror_state_def demo_sp_def idle_agent_def fresh_vm_def)
  then show ?thesis using ended_mirror_not_backfilled [of "mirror_state False" demo_sp demo_env] n
    by simp blast
qed

lemma earlier_exit_forgets_later_witness:
  "vms (leave_run 0 (fst (start_static_pod demo_env ''b.yaml'' [] demo_static (fst demo_scan)))) (kp_uid demo_static) = None"
proof -
  have r: "runs (fst demo_scan) = [\<lparr>r_pod = demo_static, r_vm = 0, r_pc = Entered, r_late = []\<rparr>]"
    by (simp add: demo_scanned start_static_pod_def launch_run_def Let_def) (simp add: idle_agent_def)
  show ?thesis
    using earlier_exit_forgets_later [of 0 "fst demo_scan" demo_static demo_env "''b.yaml''" "[]"] r
    by (metis length_Cons less_numeral_extra(1) list.size(3) nth_Cons_0 One_nat_def lessI run_uid_def pod_run.select_convs(1) surjective_pairing)
qed

end
