(* ===== verification/Agent_Plan.thy ===== *)
theory Agent_Plan imports Kube_Types Guest_Spec begin

text \<open>
  What the agent plans for a pod before its VM starts (\<^verbatim>\<open>preparePod\<close>, \<^verbatim>\<open>resolveVolumes\<close>,
  \<^verbatim>\<open>makeRootfs\<close> and the VM sizing of \<^verbatim>\<open>runPod\<close> in \<^verbatim>\<open>poc/agent/main.go\<close>): which image becomes which
  block device, which host directory which virtio-fs device, and the spec file the guest reads,
  which is the \<open>pod_spec\<close> of \<open>Guest_Spec\<close>.  The host's file system and the apiserver answer through
  \<open>host\<close>; what the cached image configuration says is \<open>image_cfg\<close>.
\<close>

subsection \<open>Images\<close>

text \<open>\<^verbatim>\<open>preparePod\<close>: every image is pulled once, in container order; the first failure ends it.\<close>

definition pull_one :: "(string \<Rightarrow> string + string) \<Rightarrow> (string \<times> string) list \<Rightarrow> kcontainer \<Rightarrow> string + (string \<times> string) list" where
  "pull_one pull bases c =
     (case map_of bases (kc_image c) of
        Some _ \<Rightarrow> Inr bases
      | None \<Rightarrow>
          (case pull (kc_image c) of
             Inl e \<Rightarrow> Inl (''pulling image '' @ kc_image c @ '': '' @ e)
           | Inr base \<Rightarrow> Inr (bases @ [(kc_image c, base)])))"

definition prepare_pod :: "(string \<Rightarrow> string + string) \<Rightarrow> string \<Rightarrow> (string \<Rightarrow> string option) \<Rightarrow> kpod
    \<Rightarrow> string + (string \<times> (string \<times> string) list)" where
  "prepare_pod pull work_dir mkdir pod =
     (if kp_mains pod = [] then Inl ''no containers''
      else and_then (foldr_err (pull_one pull) [] (all_containers pod)) (\<lambda>bases.
             let dir = path_join [work_dir, kp_uid pod]
             in case mkdir dir of Some e \<Rightarrow> Inl e | None \<Rightarrow> Inr (dir, bases)))"

subsection \<open>Sizing\<close>

definition mib :: int where
  "mib = 1024 * 1024"

definition main_mem :: "kcontainer \<Rightarrow> int" where
  "main_mem c = (case kc_mem c of Some m \<Rightarrow> m div mib | None \<Rightarrow> 256)"

definition vm_mem :: "kpod \<Rightarrow> int" where
  "vm_mem pod =
     (let mains = sum_list (map main_mem (kp_mains pod));
          m = foldl (\<lambda>m c. case kc_mem c of Some v \<Rightarrow> (if v div mib > m then v div mib else m) | None \<Rightarrow> m)
                mains (kp_inits pod)
      in if m < 256 then 256 else m)"

definition vm_cpus :: "kpod \<Rightarrow> int" where
  "vm_cpus pod =
     (let q = sum_list (map (\<lambda>c. case kc_cpu c of Some q \<Rightarrow> q | None \<Rightarrow> 0) (kp_mains pod))
      in if q < 1 then 1 else q)"

subsection \<open>Volumes\<close>

record host =
  h_is_dir :: "string \<Rightarrow> bool"
  h_mkdir :: "string \<Rightarrow> string option"
  h_fetch :: "kvolume \<Rightarrow> string \<Rightarrow> string option"

text \<open>The closure's state: host directories and forced read-only flags by volume, tags in order of
  first use, the harness arguments and the mounts per container.\<close>

record vol_plan =
  vp_dirs :: "string \<rightharpoonup> string"
  vp_force :: "string \<rightharpoonup> bool"
  vp_tags :: "(string \<times> string) list"
  vp_args :: "string list"
  vp_mounts :: "string \<rightharpoonup> mount_spec list"

definition no_plan :: vol_plan where
  "no_plan = \<lparr>vp_dirs = Map.empty, vp_force = Map.empty, vp_tags = [], vp_args = [], vp_mounts = Map.empty\<rparr>"

definition source_annotation :: string where
  "source_annotation = ''kubernetes.io/config.source''"

definition is_static :: "kpod \<Rightarrow> bool" where
  "is_static pod = (kp_annot pod source_annotation = Some ''file'')"

definition volume_named :: "kpod \<Rightarrow> string \<rightharpoonup> kvolume" where
  "volume_named pod = foldl (\<lambda>m v. m(kv_name v \<mapsto> v)) Map.empty (kp_volumes pod)"

definition any_rw :: "kpod \<Rightarrow> string \<Rightarrow> bool" where
  "any_rw pod name = list_ex (\<lambda>c. list_ex (\<lambda>m. vm_name m = name \<and> \<not> vm_ro m) (kc_mounts c)) (all_containers pod)"

definition forced :: "vol_plan \<Rightarrow> string \<Rightarrow> bool" where
  "forced p name = (vp_force p name = Some True)"

definition volume_dir :: "string \<Rightarrow> kvolume \<Rightarrow> string" where
  "volume_dir state_dir v = path_join [state_dir, ''volumes'', kv_name v]"

text \<open>The host directory of a volume and whether it is forced read-only, or the error.\<close>

definition host_dir :: "host \<Rightarrow> kpod \<Rightarrow> string \<Rightarrow> kvolume \<Rightarrow> string + (string \<times> bool)" where
  "host_dir h pod state_dir v =
     (let api = (\<lambda>kind. if is_static pod
            then Inl (''volume '' @ kv_name v @ '': static pods cannot reference API objects ('' @ kind @ '')'')
            else case h_fetch h v (volume_dir state_dir v) of
                   Some e \<Rightarrow> Inl e
                 | None \<Rightarrow> Inr (volume_dir state_dir v, True))
      in case kv_source v of
           HostPath path ty \<Rightarrow>
             if ty = [] \<or> ty = ''Directory'' then
               (if h_is_dir h path then Inr (path, False) else Inl (''hostPath '' @ path @ '': not an existing directory''))
             else if ty = ''DirectoryOrCreate'' then
               (case h_mkdir h path of Some e \<Rightarrow> Inl (''hostPath '' @ path @ '': '' @ e) | None \<Rightarrow> Inr (path, False))
             else Inl (''hostPath type '' @ ty @ '' not supported (Directory/DirectoryOrCreate only)'')
         | EmptyDir \<Rightarrow>
             (case h_mkdir h (volume_dir state_dir v) of
                Some e \<Rightarrow> Inl (''emptyDir '' @ kv_name v @ '': '' @ e)
              | None \<Rightarrow> Inr (volume_dir state_dir v, False))
         | ConfigMapVol \<Rightarrow> api ''configMap''
         | SecretVol \<Rightarrow> api ''secret''
         | _ \<Rightarrow> Inl (''volume '' @ kv_name v @ '': unsupported volume type (hostPath, emptyDir, configMap, secret)''))"

definition materialize :: "host \<Rightarrow> kpod \<Rightarrow> string \<Rightarrow> kvolume \<Rightarrow> vol_plan \<Rightarrow> string + (string \<times> vol_plan)" where
  "materialize h pod state_dir v p =
     (case vp_dirs p (kv_name v) of
        Some d \<Rightarrow> Inr (d, p)
      | None \<Rightarrow> and_then (host_dir h pod state_dir v) (\<lambda>(d, ro).
          Inr (d, p\<lparr>vp_dirs := (vp_dirs p)(kv_name v \<mapsto> d),
                    vp_force := (if ro then (vp_force p)(kv_name v \<mapsto> True) else vp_force p)\<rparr>)))"

definition volume_arg :: "string \<Rightarrow> string \<Rightarrow> bool \<Rightarrow> string" where
  "volume_arg tg d ro = tg @ ''='' @ d @ (if ro then '':ro'' else [])"

definition add_device :: "kpod \<Rightarrow> string \<Rightarrow> string \<Rightarrow> vol_plan \<Rightarrow> string \<times> vol_plan" where
  "add_device pod name d p =
     (case map_of (vp_tags p) name of
        Some tg \<Rightarrow> (tg, p)
      | None \<Rightarrow>
          let tg = ''vol'' @ nat_digits (length (vp_tags p))
          in (tg, p\<lparr>vp_tags := vp_tags p @ [(name, tg)],
                    vp_args := vp_args p @ [''--volume'', volume_arg tg d (\<not> any_rw pod name \<or> forced p name)]\<rparr>))"

definition add_mount :: "host \<Rightarrow> kpod \<Rightarrow> string \<Rightarrow> vol_plan \<Rightarrow> kcontainer \<times> vol_mount \<Rightarrow> string + vol_plan" where
  "add_mount h pod state_dir p cm =
     (case cm of (c, m) \<Rightarrow>
        case volume_named pod (vm_name m) of
          None \<Rightarrow> Inl (''volumeMount '' @ vm_name m @ '': no such volume'')
        | Some v \<Rightarrow>
            if vm_subpath m then Inl (''volumeMount '' @ vm_name m @ '': subPath not supported'')
            else if kv_source v = ProjectedVol then Inr p
            else and_then (materialize h pod state_dir v p) (\<lambda>(d, p1).
              let (tg, p2) = add_device pod (kv_name v) d p1;
                  ms = (case vp_mounts p2 (kc_name c) of None \<Rightarrow> [] | Some ms \<Rightarrow> ms)
              in Inr (p2\<lparr>vp_mounts := (vp_mounts p2)(kc_name c \<mapsto> ms @ [\<lparr>tag = tg, mount_path = vm_path m,
                       read_only = vm_ro m \<or> forced p2 (kv_name v)\<rparr>])\<rparr>)))"

text \<open>The two nested loops as one over the mounts of all containers in order.\<close>

definition mounts_of :: "kpod \<Rightarrow> (kcontainer \<times> vol_mount) list" where
  "mounts_of pod = concat (map (\<lambda>c. map (\<lambda>m. (c, m)) (kc_mounts c)) (all_containers pod))"

definition resolve_volumes :: "host \<Rightarrow> kpod \<Rightarrow> string \<Rightarrow> string + vol_plan" where
  "resolve_volumes h pod state_dir = foldr_err (add_mount h pod state_dir) no_plan (mounts_of pod)"

subsection \<open>The spec file\<close>

record image_cfg =
  ic_entrypoint :: "string list"
  ic_cmd :: "string list"
  ic_env :: "string list"
  ic_workdir :: string

text \<open>\<^verbatim>\<open>imageArgv\<close>, \<^verbatim>\<open>imageEnv\<close>, \<^verbatim>\<open>imageWorkingDir\<close>: nothing when the cached file does not parse.\<close>

definition image_argv :: "image_cfg option \<Rightarrow> string list" where
  "image_argv cf = (case cf of None \<Rightarrow> [] | Some i \<Rightarrow> ic_entrypoint i @ ic_cmd i)"

definition image_env :: "image_cfg option \<Rightarrow> string list" where
  "image_env cf = (case cf of None \<Rightarrow> [] | Some i \<Rightarrow> ic_env i)"

definition image_working_dir :: "image_cfg option \<Rightarrow> string" where
  "image_working_dir cf = (case cf of None \<Rightarrow> [] | Some i \<Rightarrow> ic_workdir i)"

text \<open>Devices by image base, in order of first use; \<^verbatim>\<open>fmt.Sprintf("/dev/vd%c", 'a'+n)\<close> is the code point
  \<open>97 + n\<close>, of which only \<open>n < 26\<close> names a device.\<close>

definition device_name :: "nat \<Rightarrow> string" where
  "device_name n = ''/dev/vd'' @ [char_of (97 + n)]"

definition env_of :: "env_var list \<Rightarrow> string list" where
  "env_of evs = map (\<lambda>e. ev_name e @ ''='' @ ev_value e) (filter (\<lambda>e. \<not> ev_from e) evs)"

definition container_argv :: "kcontainer \<Rightarrow> image_cfg option \<Rightarrow> string list" where
  "container_argv c cf =
     (let av = kc_command c @ kc_args c in if av = [] then image_argv cf else av)"

definition container_spec_of :: "bool \<Rightarrow> (string \<rightharpoonup> string) \<Rightarrow> (string \<Rightarrow> image_cfg option) \<Rightarrow> (string \<rightharpoonup> mount_spec list)
    \<Rightarrow> kcontainer \<Rightarrow> (string \<times> string) list \<Rightarrow> string + (container_spec \<times> (string \<times> string) list)" where
  "container_spec_of block bases cfg mounts_by c devs =
     (let base = (case bases (kc_image c) of None \<Rightarrow> [] | Some b \<Rightarrow> b);
          av = container_argv c (cfg base)
      in if av = [] then Inl (''container '' @ kc_name c
             @ '': no command: pod spec has none and image config has no Entrypoint/Cmd'')
         else let (dev, devs') =
                    (if \<not> block then ([], devs)
                     else case map_of devs base of
                            Some d \<Rightarrow> (d, devs)
                          | None \<Rightarrow> (device_name (length devs), devs @ [(base, device_name (length devs))]))
              in Inr (\<lparr>cs_name = kc_name c, argv = av, cs_env = image_env (cfg base) @ env_of (kc_env c),
                       cwd = (if kc_workdir c = [] then image_working_dir (cfg base) else kc_workdir c),
                       tty = kc_tty c, root_dev = dev,
                       mounts = (case mounts_by (kc_name c) of None \<Rightarrow> [] | Some ms \<Rightarrow> ms)\<rparr>, devs'))"

fun container_specs :: "(kcontainer \<Rightarrow> (string \<times> string) list \<Rightarrow> string + (container_spec \<times> (string \<times> string) list))
    \<Rightarrow> kcontainer list \<Rightarrow> (string \<times> string) list \<Rightarrow> string + (container_spec list \<times> (string \<times> string) list)" where
  "container_specs f [] devs = Inr ([], devs)"
| "container_specs f (c # cs) devs =
     and_then (f c devs) (\<lambda>(s, devs1). and_then (container_specs f cs devs1) (\<lambda>(ss, devs2). Inr (s # ss, devs2)))"

record agent_cfg =
  ac_block :: bool
  ac_gvproxy :: bool
  ac_vmnet :: bool
  ac_svc_cidr :: string

definition gvproxy_net :: net_spec where
  "gvproxy_net = \<lparr>net_ip = ''192.168.127.2/24'', net_gw = ''192.168.127.1'', net_dns = ''192.168.127.1''\<rparr>"

text \<open>The spec and the images to attach, in device order.  \<open>ip6\<close> is \<^verbatim>\<open>podIP6\<close> of the pod as text.\<close>

definition make_spec :: "agent_cfg \<Rightarrow> string \<Rightarrow> (string \<Rightarrow> image_cfg option) \<Rightarrow> kpod \<Rightarrow> (string \<times> string) list
    \<Rightarrow> (string \<rightharpoonup> mount_spec list) \<Rightarrow> string + (pod_spec \<times> string list)" where
  "make_spec ac ip6 cfg pod bases mounts_by =
     (let f = container_spec_of (ac_block ac) (map_of bases) cfg mounts_by
      in and_then (container_specs f (kp_inits pod) []) (\<lambda>(is, devs1).
           and_then (container_specs f (kp_mains pod) devs1) (\<lambda>(ms, devs2).
             Inr (\<lparr>restart_policy = policy_of pod, init_containers = is, containers = ms,
                   net = (if ac_gvproxy ac then Some gvproxy_net else None),
                   net6 = (if ac_vmnet ac then Some (ip6 @ ''/64'') else None),
                   svc = (if ac_vmnet ac then Some \<lparr>svc_cidr = ac_svc_cidr ac, svc_ns = kp_ns pod\<rparr> else None)\<rparr>,
                  map fst devs2))))"

subsection \<open>The volume plan\<close>

definition api_volume :: "kvolume \<Rightarrow> bool" where
  "api_volume v \<longleftrightarrow> kv_source v = ConfigMapVol \<or> kv_source v = SecretVol"

text \<open>The mounts that count: all but the projected service account token.\<close>

definition real_mount :: "kpod \<Rightarrow> vol_mount \<Rightarrow> bool" where
  "real_mount pod m = (case volume_named pod (vm_name m) of None \<Rightarrow> False | Some v \<Rightarrow> kv_source v \<noteq> ProjectedVol)"

definition mount_names :: "kpod \<Rightarrow> (kcontainer \<times> vol_mount) list \<Rightarrow> string set" where
  "mount_names pod ms = {vm_name m | c m. (c, m) \<in> set ms \<and> real_mount pod m}"

definition volume_tag :: "vol_plan \<Rightarrow> string \<Rightarrow> string" where
  "volume_tag p n = (case map_of (vp_tags p) n of None \<Rightarrow> [] | Some tg \<Rightarrow> tg)"

definition guest_mount :: "vol_plan \<Rightarrow> vol_mount \<Rightarrow> mount_spec" where
  "guest_mount p m = \<lparr>tag = volume_tag p (vm_name m), mount_path = vm_path m, read_only = vm_ro m \<or> forced p (vm_name m)\<rparr>"

definition device_arg :: "kpod \<Rightarrow> vol_plan \<Rightarrow> string \<Rightarrow> string" where
  "device_arg pod p n =
     volume_arg (volume_tag p n) (case vp_dirs p n of None \<Rightarrow> [] | Some d \<Rightarrow> d) (\<not> any_rw pod n \<or> forced p n)"

definition container_mounts :: "vol_plan \<Rightarrow> string \<Rightarrow> mount_spec list" where
  "container_mounts p name = (case vp_mounts p name of None \<Rightarrow> [] | Some ms \<Rightarrow> ms)"

definition mounts_for :: "kpod \<Rightarrow> (kcontainer \<times> vol_mount) list \<Rightarrow> string \<Rightarrow> vol_mount list" where
  "mounts_for pod ms name = map snd (filter (\<lambda>(c, m). kc_name c = name \<and> real_mount pod m) ms)"

definition plan_ok :: "kpod \<Rightarrow> (kcontainer \<times> vol_mount) list \<Rightarrow> vol_plan \<Rightarrow> bool" where
  "plan_ok pod ms p \<longleftrightarrow>
     dom (vp_dirs p) = mount_names pod ms \<and> set (map fst (vp_tags p)) = mount_names pod ms
     \<and> distinct (map fst (vp_tags p))
     \<and> map snd (vp_tags p) = map (\<lambda>i. ''vol'' @ nat_digits i) [0..<length (vp_tags p)]
     \<and> (\<forall>n. forced p n \<longleftrightarrow> n \<in> mount_names pod ms \<and> (\<exists>v. volume_named pod n = Some v \<and> api_volume v))
     \<and> vp_args p = concat (map (\<lambda>n. [''--volume'', device_arg pod p n]) (map fst (vp_tags p)))
     \<and> (\<forall>name. container_mounts p name = map (guest_mount p) (mounts_for pod ms name))"

lemma volume_named_name: "volume_named pod n = Some v \<Longrightarrow> kv_name v = n \<and> v \<in> set (kp_volumes pod)"
proof -
  have "foldl (\<lambda>m v. m(kv_name v \<mapsto> v)) m0 vs n = Some v \<Longrightarrow> m0 n = Some v \<or> kv_name v = n \<and> v \<in> set vs" for m0 vs
  proof (induction vs arbitrary: m0)
    case (Cons w vs)
    from Cons.IH [of "m0(kv_name w \<mapsto> w)"] Cons.prems show ?case by (auto split: if_splits)
  qed simp
  from this [of Map.empty] show "volume_named pod n = Some v \<Longrightarrow> ?thesis" by (auto simp: volume_named_def)
qed

lemma plan_ok_empty: "plan_ok pod [] no_plan"
  by (simp add: plan_ok_def no_plan_def mount_names_def mounts_for_def container_mounts_def forced_def)

lemma mount_names_snoc:
  "mount_names pod (ms @ [(c, m)]) = (if real_mount pod m then insert (vm_name m) (mount_names pod ms) else mount_names pod ms)"
  by (auto simp: mount_names_def)

lemma mounts_for_snoc:
  "mounts_for pod (ms @ [(c, m)]) name =
     mounts_for pod ms name @ (if kc_name c = name \<and> real_mount pod m then [m] else [])"
  by (simp add: mounts_for_def)

lemma mounts_for_names: "m \<in> set (mounts_for pod ms name) \<Longrightarrow> vm_name m \<in> mount_names pod ms"
  unfolding mounts_for_def mount_names_def by auto blast

lemma host_dir_forced: "host_dir h pod sd v = Inr (d, ro) \<Longrightarrow> ro = api_volume v"
  by (auto simp: host_dir_def api_volume_def Let_def split: vol_source.splits if_splits option.splits)

lemma concat_snoc: "concat (map g (xs @ [x])) = concat (map g xs) @ g x"
  by simp

text \<open>A plan with one more volume device.\<close>

definition with_volume :: "kpod \<Rightarrow> string \<Rightarrow> string \<Rightarrow> bool \<Rightarrow> vol_plan \<Rightarrow> vol_plan" where
  "with_volume pod n d ro p =
     snd (add_device pod n d (p\<lparr>vp_dirs := (vp_dirs p)(n \<mapsto> d),
                               vp_force := (if ro then (vp_force p)(n \<mapsto> True) else vp_force p)\<rparr>))"

lemma with_volume_fields:
  assumes "n \<notin> set (map fst (vp_tags p))"
  shows "vp_dirs (with_volume pod n d ro p) = (vp_dirs p)(n \<mapsto> d)"
    "vp_tags (with_volume pod n d ro p) = vp_tags p @ [(n, ''vol'' @ nat_digits (length (vp_tags p)))]"
    "vp_mounts (with_volume pod n d ro p) = vp_mounts p"
    "vp_force (with_volume pod n d ro p) = (if ro then (vp_force p)(n \<mapsto> True) else vp_force p)"
proof -
  have "map_of (vp_tags p) n = None" using assms by (simp add: map_of_eq_None_iff)
  then show "vp_dirs (with_volume pod n d ro p) = (vp_dirs p)(n \<mapsto> d)"
    "vp_tags (with_volume pod n d ro p) = vp_tags p @ [(n, ''vol'' @ nat_digits (length (vp_tags p)))]"
    "vp_mounts (with_volume pod n d ro p) = vp_mounts p"
    "vp_force (with_volume pod n d ro p) = (if ro then (vp_force p)(n \<mapsto> True) else vp_force p)"
    by (simp_all add: with_volume_def add_device_def Let_def)
qed

lemma with_volume_stable:
  assumes "n \<notin> set (map fst (vp_tags p))" and "k \<noteq> n"
  shows "volume_tag (with_volume pod n d ro p) k = volume_tag p k"
    "forced (with_volume pod n d ro p) k = forced p k"
    "device_arg pod (with_volume pod n d ro p) k = device_arg pod p k"
  using assms with_volume_fields [OF assms(1)]
  by (auto simp: volume_tag_def forced_def device_arg_def map_of_append map_add_def split: option.splits)

lemma with_volume_args:
  assumes "n \<notin> set (map fst (vp_tags p))"
  shows "vp_args (with_volume pod n d ro p) = vp_args p @ [''--volume'', device_arg pod (with_volume pod n d ro p) n]"
proof -
  have n: "map_of (vp_tags p) n = None" using assms by (simp add: map_of_eq_None_iff)
  then have "volume_tag (with_volume pod n d ro p) n = ''vol'' @ nat_digits (length (vp_tags p))"
    using with_volume_fields [OF assms] by (simp add: volume_tag_def map_add_def)
  then show ?thesis
    using n with_volume_fields [OF assms]
    by (simp add: device_arg_def) (simp add: with_volume_def add_device_def forced_def Let_def)
qed

lemma plan_ok_with_volume:
  assumes ok: "plan_ok pod ms p" and new: "n \<notin> mount_names pod ms"
    and v: "volume_named pod n = Some v" "ro = api_volume v"
  shows "dom (vp_dirs (with_volume pod n d ro p)) = insert n (mount_names pod ms)"
    "set (map fst (vp_tags (with_volume pod n d ro p))) = insert n (mount_names pod ms)"
    "distinct (map fst (vp_tags (with_volume pod n d ro p)))"
    "map snd (vp_tags (with_volume pod n d ro p))
       = map (\<lambda>i. ''vol'' @ nat_digits i) [0..<length (vp_tags (with_volume pod n d ro p))]"
    "\<forall>k. forced (with_volume pod n d ro p) k \<longleftrightarrow>
       k \<in> insert n (mount_names pod ms) \<and> (\<exists>v. volume_named pod k = Some v \<and> api_volume v)"
    "vp_args (with_volume pod n d ro p)
       = concat (map (\<lambda>n'. [''--volume'', device_arg pod (with_volume pod n d ro p) n'])
                     (map fst (vp_tags (with_volume pod n d ro p))))"
    "container_mounts (with_volume pod n d ro p) name
       = map (guest_mount (with_volume pod n d ro p)) (mounts_for pod ms name)"
proof -
  have tags: "set (map fst (vp_tags p)) = mount_names pod ms" using ok by (simp add: plan_ok_def)
  with new have nt: "n \<notin> set (map fst (vp_tags p))" by simp
  note f = with_volume_fields [OF nt] and st = with_volume_stable [OF nt]
  show "dom (vp_dirs (with_volume pod n d ro p)) = insert n (mount_names pod ms)"
    and "set (map fst (vp_tags (with_volume pod n d ro p))) = insert n (mount_names pod ms)"
    and "distinct (map fst (vp_tags (with_volume pod n d ro p)))"
    and "map snd (vp_tags (with_volume pod n d ro p))
       = map (\<lambda>i. ''vol'' @ nat_digits i) [0..<length (vp_tags (with_volume pod n d ro p))]"
    using ok nt by (simp_all add: f plan_ok_def)
  have nf: "\<not> forced p n" using ok new by (simp add: plan_ok_def)
  then have fn: "forced (with_volume pod n d ro p) n = ro" by (simp add: forced_def f)
  show "\<forall>k. forced (with_volume pod n d ro p) k \<longleftrightarrow>
       k \<in> insert n (mount_names pod ms) \<and> (\<exists>v. volume_named pod k = Some v \<and> api_volume v)"
  proof
    fix k
    show "forced (with_volume pod n d ro p) k \<longleftrightarrow>
       k \<in> insert n (mount_names pod ms) \<and> (\<exists>v. volume_named pod k = Some v \<and> api_volume v)"
      using fn v ok st(2) [of k] by (cases "k = n") (auto simp: plan_ok_def)
  qed
  have eq: "map (\<lambda>n'. [''--volume'', device_arg pod (with_volume pod n d ro p) n']) (map fst (vp_tags p))
      = map (\<lambda>n'. [''--volume'', device_arg pod p n']) (map fst (vp_tags p))"
  proof (rule map_cong [OF refl])
    fix n' assume "n' \<in> set (map fst (vp_tags p))"
    then have "n' \<noteq> n" using nt by metis
    then show "[''--volume'', device_arg pod (with_volume pod n d ro p) n'] = [''--volume'', device_arg pod p n']"
      by (simp add: st(3))
  qed
  have a: "vp_args p = concat (map (\<lambda>n'. [''--volume'', device_arg pod p n']) (map fst (vp_tags p)))"
    using ok unfolding plan_ok_def by blast
  show "vp_args (with_volume pod n d ro p)
       = concat (map (\<lambda>n'. [''--volume'', device_arg pod (with_volume pod n d ro p) n'])
                     (map fst (vp_tags (with_volume pod n d ro p))))"
  proof -
    have names: "map fst (vp_tags (with_volume pod n d ro p)) = map fst (vp_tags p) @ [n]" by (simp add: f(2))
    have "vp_args (with_volume pod n d ro p)
        = concat (map (\<lambda>n'. [''--volume'', device_arg pod (with_volume pod n d ro p) n']) (map fst (vp_tags p)))
          @ [''--volume'', device_arg pod (with_volume pod n d ro p) n]"
      by (subst eq, subst a [symmetric], rule with_volume_args [OF nt])
    then show ?thesis unfolding names concat_snoc .
  qed
  have "map (guest_mount (with_volume pod n d ro p)) (mounts_for pod ms name) = map (guest_mount p) (mounts_for pod ms name)"
  proof (rule map_cong [OF refl])
    fix m assume "m \<in> set (mounts_for pod ms name)"
    then have "vm_name m \<noteq> n" using mounts_for_names new by metis
    then show "guest_mount (with_volume pod n d ro p) m = guest_mount p m" by (simp add: guest_mount_def st(1,2))
  qed
  then show "container_mounts (with_volume pod n d ro p) name
       = map (guest_mount (with_volume pod n d ro p)) (mounts_for pod ms name)"
    using ok by (simp add: plan_ok_def container_mounts_def f)
qed

lemma plan_ok_mount:
  assumes p1: "dom (vp_dirs p) = N" "set (map fst (vp_tags p)) = N" "distinct (map fst (vp_tags p))"
      "map snd (vp_tags p) = map (\<lambda>i. ''vol'' @ nat_digits i) [0..<length (vp_tags p)]"
      "\<forall>k. forced p k \<longleftrightarrow> k \<in> N \<and> (\<exists>v. volume_named pod k = Some v \<and> api_volume v)"
      "vp_args p = concat (map (\<lambda>n'. [''--volume'', device_arg pod p n']) (map fst (vp_tags p)))"
      "\<forall>name. container_mounts p name = map (guest_mount p) (mounts_for pod ms name)"
    and N: "N = mount_names pod (ms @ [(c, m)])" and real: "real_mount pod m"
    and q: "q = p\<lparr>vp_mounts := (vp_mounts p)(kc_name c \<mapsto> container_mounts p (kc_name c) @ [guest_mount p m])\<rparr>"
  shows "plan_ok pod (ms @ [(c, m)]) q"
proof -
  have same: "volume_tag q k = volume_tag p k" "forced q k = forced p k" "device_arg pod q k = device_arg pod p k"
      "guest_mount q = guest_mount p" for k
    by (auto simp: q volume_tag_def forced_def device_arg_def guest_mount_def)
  have "container_mounts q name = container_mounts p name @ (if kc_name c = name then [guest_mount p m] else [])" for name
    by (simp add: q container_mounts_def)
  then have "container_mounts q name = map (guest_mount q) (mounts_for pod (ms @ [(c, m)]) name)" for name
    using p1(7) real by (simp add: same(4) mounts_for_snoc)
  then show ?thesis using p1(1-6) N by (simp add: plan_ok_def same) (simp add: q)
qed

lemma add_mount_ok:
  assumes "add_mount h pod sd p (c, m) = Inr p'" and ok: "plan_ok pod ms p"
  shows "plan_ok pod (ms @ [(c, m)]) p'"
proof -
  obtain v where v: "volume_named pod (vm_name m) = Some v" and "\<not> vm_subpath m"
    using assms(1) by (auto simp: add_mount_def split: option.splits if_splits)
  have name: "kv_name v = vm_name m" using volume_named_name [OF v] by simp
  show ?thesis
  proof (cases "kv_source v = ProjectedVol")
    case True
    then have "p' = p" "\<not> real_mount pod m"
      using assms(1) v \<open>\<not> vm_subpath m\<close> by (simp_all add: add_mount_def real_mount_def)
    with ok show ?thesis by (simp add: plan_ok_def mount_names_snoc mounts_for_snoc)
  next
    case False
    then have real: "real_mount pod m" using v by (simp add: real_mount_def)
    from assms(1) v \<open>\<not> vm_subpath m\<close> False obtain d p1 where mat: "materialize h pod sd v p = Inr (d, p1)"
      and p': "p' = (let (tg, p2) = add_device pod (vm_name m) d p1
                     in p2\<lparr>vp_mounts := (vp_mounts p2)(kc_name c \<mapsto> container_mounts p2 (kc_name c) @
                          [\<lparr>tag = tg, mount_path = vm_path m, read_only = vm_ro m \<or> forced p2 (vm_name m)\<rparr>])\<rparr>)"
      by (auto simp: add_mount_def name container_mounts_def Let_def case_prod_beta)
    have snoc: "mount_names pod (ms @ [(c, m)]) = insert (vm_name m) (mount_names pod ms)"
      using real by (simp add: mount_names_snoc)
    show ?thesis
    proof (cases "vm_name m \<in> mount_names pod ms")
      case True
      then have "vm_name m \<in> dom (vp_dirs p)" using ok by (simp add: plan_ok_def)
      then obtain d0 where "vp_dirs p (vm_name m) = Some d0" by blast
      then have "p1 = p" using mat by (simp add: materialize_def name)
      have "vm_name m \<in> set (map fst (vp_tags p))" using ok True by (simp add: plan_ok_def)
      then obtain tg where "map_of (vp_tags p) (vm_name m) = Some tg"
        by (metis map_of_eq_None_iff not_None_eq set_map)
      then have q: "p' = p\<lparr>vp_mounts := (vp_mounts p)(kc_name c \<mapsto> container_mounts p (kc_name c) @ [guest_mount p m])\<rparr>"
        unfolding p' \<open>p1 = p\<close> by (simp add: add_device_def guest_mount_def volume_tag_def)
      have same: "mount_names pod ms = mount_names pod (ms @ [(c, m)])" using snoc True by (simp add: insert_absorb)
      show ?thesis
        by (rule plan_ok_mount [OF _ _ _ _ _ _ _ same real q]) (use ok [unfolded plan_ok_def] in blast)+
    next
      case False
      then have "vm_name m \<notin> dom (vp_dirs p)" and nt: "vm_name m \<notin> set (map fst (vp_tags p))"
        using ok by (simp_all add: plan_ok_def)
      then have nd: "vp_dirs p (vm_name m) = None" by blast
      from mat nd obtain ro where hd: "host_dir h pod sd v = Inr (d, ro)"
        and p1: "p1 = p\<lparr>vp_dirs := (vp_dirs p)(vm_name m \<mapsto> d),
                        vp_force := (if ro then (vp_force p)(vm_name m \<mapsto> True) else vp_force p)\<rparr>"
        by (auto simp: materialize_def name)
      let ?p2 = "with_volume pod (vm_name m) d ro p"
      have ro: "ro = api_volume v" by (rule host_dir_forced [OF hd])
      have "map_of (vp_tags p) (vm_name m) = None" using nt by (simp add: map_of_eq_None_iff)
      then have "fst (add_device pod (vm_name m) d p1) = volume_tag ?p2 (vm_name m)"
        using with_volume_fields(2) [OF nt] by (simp add: add_device_def p1 volume_tag_def map_add_def Let_def)
      then have dev: "add_device pod (vm_name m) d p1 = (volume_tag ?p2 (vm_name m), ?p2)"
        unfolding with_volume_def p1 by (metis prod.collapse)
      have q: "p' = ?p2\<lparr>vp_mounts := (vp_mounts ?p2)(kc_name c \<mapsto> container_mounts ?p2 (kc_name c) @ [guest_mount ?p2 m])\<rparr>"
        unfolding p' dev by (simp add: guest_mount_def)
      note w = plan_ok_with_volume [OF ok False v ro]
      show ?thesis
        by (rule plan_ok_mount [OF w(1-6) allI [OF w(7)] snoc [symmetric] real q])
    qed
  qed
qed

lemma foldr_err_snoc_invariant:
  assumes "foldr_err f s xs = Inr s'" and "P [] s"
    and "\<And>ys s x s'. P ys s \<Longrightarrow> f s x = Inr s' \<Longrightarrow> P (ys @ [x]) s'"
  shows "P xs s'"
proof -
  have "foldr_err f s xs = Inr s' \<Longrightarrow> P ys s \<Longrightarrow> P (ys @ xs) s'" for ys s
  proof (induction xs arbitrary: ys s)
    case (Cons x xs)
    then obtain s1 where "f s x = Inr s1" "foldr_err f s1 xs = Inr s'" by auto
    with Cons.IH [of s1 "ys @ [x]"] assms(3) Cons.prems(2) show ?case by simp
  qed simp
  from this [of s "[]"] assms(1,2) show ?thesis by simp
qed

lemma resolve_volumes_ok: "resolve_volumes h pod sd = Inr p \<Longrightarrow> plan_ok pod (mounts_of pod) p"
  unfolding resolve_volumes_def
  by (erule foldr_err_snoc_invariant) (auto simp: plan_ok_empty intro: add_mount_ok)

subsection \<open>Devices\<close>

definition base_of :: "(string \<rightharpoonup> string) \<Rightarrow> kcontainer \<Rightarrow> string" where
  "base_of bases c = (case bases (kc_image c) of None \<Rightarrow> [] | Some b \<Rightarrow> b)"

definition devs_ok :: "(string \<times> string) list \<Rightarrow> bool" where
  "devs_ok devs \<longleftrightarrow> distinct (map fst devs) \<and> map snd devs = map device_name [0..<length devs]"

definition on_device :: "(string \<rightharpoonup> string) \<Rightarrow> (string \<times> string) list \<Rightarrow> kcontainer \<Rightarrow> container_spec \<Rightarrow> bool" where
  "on_device bases devs c s \<longleftrightarrow> cs_name s = kc_name c
     \<and> (\<exists>j < length devs. fst (devs ! j) = base_of bases c \<and> root_dev s = device_name j)"

lemma devs_ok_nth: "devs_ok devs \<Longrightarrow> j < length devs \<Longrightarrow> snd (devs ! j) = device_name j"
  unfolding devs_ok_def by (metis add_0 diff_zero length_upt nth_map nth_upt)

lemma on_device_mono: "on_device bases devs c s \<Longrightarrow> on_device bases (devs @ extra) c s"
  unfolding on_device_def by (fastforce simp: nth_append)

lemma container_spec_of_device:
  assumes "container_spec_of True bases cfg mb c devs = Inr (s, devs')" and "devs_ok devs"
  shows "devs_ok devs' \<and> (\<exists>extra. devs' = devs @ extra) \<and> on_device bases devs' c s"
proof (cases "map_of devs (base_of bases c)")
  case None
  let ?b = "base_of bases c"
  have d: "devs' = devs @ [(?b, device_name (length devs))]" "root_dev s = device_name (length devs)" "cs_name s = kc_name c"
    using assms(1) None by (auto simp: container_spec_of_def base_of_def Let_def split: if_splits)
  have "?b \<notin> set (map fst devs)" using None by (simp add: map_of_eq_None_iff)
  then have "devs_ok devs'" using assms(2) d(1) by (simp add: devs_ok_def)
  moreover have "on_device bases devs' c s"
    unfolding on_device_def using d by (intro conjI exI [of _ "length devs"]) simp_all
  ultimately show ?thesis using d(1) by blast
next
  case (Some dev)
  have d: "devs' = devs" "root_dev s = dev" "cs_name s = kc_name c"
    using assms(1) Some by (auto simp: container_spec_of_def base_of_def Let_def split: if_splits)
  have "(base_of bases c, dev) \<in> set devs" using Some by (rule map_of_SomeD)
  then obtain j where j: "j < length devs" "devs ! j = (base_of bases c, dev)" by (auto simp: in_set_conv_nth)
  then have "dev = device_name j" using devs_ok_nth [OF assms(2) j(1)] by simp
  with j d assms(2) show ?thesis by (auto simp: on_device_def)
qed

lemma container_specs_devices:
  "container_specs (container_spec_of True bases cfg mb) cs devs = Inr (ss, devs') \<Longrightarrow> devs_ok devs
   \<Longrightarrow> devs_ok devs' \<and> (\<exists>extra. devs' = devs @ extra) \<and> list_all2 (on_device bases devs') cs ss"
proof (induction cs arbitrary: devs ss)
  case (Cons c cs)
  from Cons.prems(1) obtain s devs1 ss' where 1: "container_spec_of True bases cfg mb c devs = Inr (s, devs1)"
      and 2: "container_specs (container_spec_of True bases cfg mb) cs devs1 = Inr (ss', devs')" and ss: "ss = s # ss'"
    by auto
  from container_spec_of_device [OF 1 Cons.prems(2)] have d1: "devs_ok devs1" "\<exists>extra. devs1 = devs @ extra" "on_device bases devs1 c s"
    by auto
  from Cons.IH [OF 2 d1(1)] have "devs_ok devs'" "\<exists>extra. devs' = devs1 @ extra" "list_all2 (on_device bases devs') cs ss'"
    by auto
  with d1 ss show ?case using on_device_mono by fastforce
qed simp

lemma device_name_inj: "i < 26 \<Longrightarrow> j < 26 \<Longrightarrow> device_name i = device_name j \<Longrightarrow> i = j"
proof -
  assume "i < 26" "j < 26" "device_name i = device_name j"
  then have "of_char (char_of (97 + i) :: char) = (of_char (char_of (97 + j) :: char) :: nat)" by (simp add: device_name_def)
  with \<open>i < 26\<close> \<open>j < 26\<close> show "i = j" by (simp add: of_char_of)
qed

lemma make_spec_devices:
  assumes "make_spec ac ip6 cfg pod bases mb = Inr (sp, images)" and "ac_block ac"
  shows "\<exists>devs. images = map fst devs \<and> devs_ok devs
     \<and> list_all2 (on_device (map_of bases) devs) (all_containers pod) (init_containers sp @ containers sp)"
proof -
  let ?f = "container_spec_of True (map_of bases) cfg mb"
  from assms obtain ics devs1 ms devs2 where
      i: "container_specs ?f (kp_inits pod) [] = Inr (ics, devs1)"
      and m: "container_specs ?f (kp_mains pod) devs1 = Inr (ms, devs2)"
      and sp: "init_containers sp = ics" "containers sp = ms" "images = map fst devs2"
    by (auto simp: make_spec_def Let_def)
  have "devs_ok []" by (simp add: devs_ok_def)
  from container_specs_devices [OF i this] have 1: "devs_ok devs1" "list_all2 (on_device (map_of bases) devs1) (kp_inits pod) ics"
    by auto
  from container_specs_devices [OF m 1(1)] obtain extra where 2: "devs_ok devs2" "devs2 = devs1 @ extra"
      "list_all2 (on_device (map_of bases) devs2) (kp_mains pod) ms"
    by auto
  have "list_all2 (on_device (map_of bases) devs2) (kp_inits pod) ics"
    using 1(2) on_device_mono 2(2) by (auto elim: list_all2_mono)
  with 2 sp show ?thesis
    by (intro exI [of _ devs2]) (simp add: all_containers_def list_all2_appendI)
qed

subsection \<open>Properties\<close>

text \<open>every container of a pod is told the block device that carries its own image.  The images
  are attached in the order returned, as \<^verbatim>\<open>/dev/vda\<close>, \<^verbatim>\<open>/dev/vdb\<close>, ...; with at most 26 of them, the spec
  of each container names the device at the position of its image, and two containers share a
  device exactly when they share an image.\<close>

theorem root_devices_match_images:
  assumes "make_spec ac ip6 cfg pod bases mb = Inr (sp, images)" and "ac_block ac" and "length images \<le> 26"
    and "i < length (all_containers pod)" and "k < length (all_containers pod)"
  shows "distinct images \<and> length (init_containers sp @ containers sp) = length (all_containers pod)
     \<and> (\<exists>j < length images. images ! j = base_of (map_of bases) (all_containers pod ! i)
          \<and> root_dev ((init_containers sp @ containers sp) ! i) = device_name j)
     \<and> (root_dev ((init_containers sp @ containers sp) ! i) = root_dev ((init_containers sp @ containers sp) ! k)
        \<longleftrightarrow> base_of (map_of bases) (all_containers pod ! i) = base_of (map_of bases) (all_containers pod ! k))"
proof -
  from make_spec_devices [OF assms(1,2)] obtain devs where d: "images = map fst devs" "devs_ok devs"
      "list_all2 (on_device (map_of bases) devs) (all_containers pod) (init_containers sp @ containers sp)" by blast
  have dist: "distinct images" using d(1,2) by (simp add: devs_ok_def)
  have at: "\<exists>j < length images. images ! j = base_of (map_of bases) (all_containers pod ! x)
      \<and> root_dev ((init_containers sp @ containers sp) ! x) = device_name j" if "x < length (all_containers pod)" for x
    using list_all2_nthD [OF d(3) that] d(1) by (auto simp: on_device_def)
  obtain ji jk where j: "ji < length images" "images ! ji = base_of (map_of bases) (all_containers pod ! i)"
      "root_dev ((init_containers sp @ containers sp) ! i) = device_name ji" "jk < length images"
      "images ! jk = base_of (map_of bases) (all_containers pod ! k)"
      "root_dev ((init_containers sp @ containers sp) ! k) = device_name jk"
    using at [OF assms(4)] at [OF assms(5)] by blast
  have "device_name ji = device_name jk \<longleftrightarrow> ji = jk"
    using device_name_inj [of ji jk] j(1,4) assms(3) by auto
  moreover have "ji = jk \<longleftrightarrow> images ! ji = images ! jk" using dist j(1,4) by (simp add: nth_eq_iff_index_eq)
  ultimately show ?thesis using dist at [OF assms(4)] j list_all2_lengthD [OF d(3)] by simp
qed

text \<open>C20: the volume plan.  Every volume some container mounts becomes exactly one device, tagged
  \<^verbatim>\<open>vol0\<close>, \<^verbatim>\<open>vol1\<close>, ... in order of first use; every container's mounts appear in the spec's order,
  each with the tag of its volume's device.\<close>

theorem volume_plan_exact:
  assumes "resolve_volumes h pod sd = Inr p"
  shows "distinct (map fst (vp_tags p)) \<and> distinct (map snd (vp_tags p))
     \<and> set (map fst (vp_tags p)) = mount_names pod (mounts_of pod)
     \<and> vp_args p = concat (map (\<lambda>n. [''--volume'', device_arg pod p n]) (map fst (vp_tags p)))
     \<and> container_mounts p name = map (guest_mount p) (mounts_for pod (mounts_of pod) name)"
proof -
  have ok: "plan_ok pod (mounts_of pod) p" by (rule resolve_volumes_ok [OF assms])
  have "distinct (map (\<lambda>i. ''vol'' @ nat_digits i) [0..<length (vp_tags p)])"
    by (simp add: distinct_map inj_on_def nat_digits_inj)
  then have "distinct (map snd (vp_tags p))" using ok unfolding plan_ok_def by metis
  with ok show ?thesis unfolding plan_ok_def by blast
qed


lemma sum_list_member: "x \<in> set xs \<Longrightarrow> (\<forall>y \<in> set xs. 0 \<le> y) \<Longrightarrow> x \<le> sum_list (xs :: int list)"
proof (induction xs)
  case (Cons a xs)
  then have "0 \<le> sum_list xs" by (intro sum_list_nonneg) simp
  with Cons show ?case by auto
qed simp

lemma raise_floor:
  "m \<le> foldl (\<lambda>m c. case f c of Some v \<Rightarrow> (if v > m then v else m) | None \<Rightarrow> m) m cs"
  "c \<in> set cs \<Longrightarrow> f c = Some v \<Longrightarrow> v \<le> foldl (\<lambda>m c. case f c of Some v \<Rightarrow> (if v > m then v else m) | None \<Rightarrow> m) (m :: int) cs"
proof (induction cs arbitrary: m)
  case (Cons x xs)
  let ?g = "\<lambda>m c. case f c of Some v \<Rightarrow> (if v > m then v else m) | None \<Rightarrow> m"
  {
    case 1
    have "m \<le> ?g m x" by (auto split: option.split)
    with Cons.IH(1) [of "?g m x"] show ?case by (simp add: order_trans)
  next
    case 2
    then have "c \<in> set xs \<or> c = x" by auto
    moreover have "v \<le> ?g m x" if "c = x" using 2 that by auto
    ultimately show ?case using Cons.IH(2) [of "?g m x"] Cons.IH(1) [of "?g m x"] 2(2) by (auto intro: order_trans)
  }
qed simp_all

text \<open>the VM is big enough: at least 256 MiB and one CPU, at least the memory limit (or the
  256 MiB default) of all main containers together, and at least that of any init container.\<close>

theorem vm_big_enough:
  assumes "\<forall>c \<in> set (kp_mains pod). (case kc_mem c of Some m \<Rightarrow> 0 \<le> m | None \<Rightarrow> True)"
    and "i \<in> set (kp_inits pod)" "kc_mem i = Some lim" and "c \<in> set (kp_mains pod)"
  shows "256 \<le> vm_mem pod \<and> 1 \<le> vm_cpus pod \<and> lim div mib \<le> vm_mem pod
     \<and> sum_list (map main_mem (kp_mains pod)) \<le> vm_mem pod \<and> main_mem c \<le> vm_mem pod"
proof -
  let ?s = "sum_list (map main_mem (kp_mains pod))"
  let ?f = "\<lambda>c. map_option (\<lambda>v. v div mib) (kc_mem c)"
  let ?m = "foldl (\<lambda>m c. case ?f c of Some v \<Rightarrow> (if v > m then v else m) | None \<Rightarrow> m) ?s (kp_inits pod)"
  have eq: "(\<lambda>m c. case ?f c of Some v \<Rightarrow> (if v > m then v else m) | None \<Rightarrow> m)
      = (\<lambda>m c. case kc_mem c of Some v \<Rightarrow> (if v div mib > m then v div mib else m) | None \<Rightarrow> m)"
    by (intro ext) (simp split: option.split)
  have vm: "vm_mem pod = (if ?m < 256 then 256 else ?m)" by (simp only: vm_mem_def eq Let_def)
  have "?s \<le> ?m" by (rule raise_floor(1))
  moreover have "lim div mib \<le> ?m" using raise_floor(2) [OF assms(2), of ?f "lim div mib" ?s] assms(3) by simp
  moreover have "main_mem c \<le> ?s"
    using assms(1,4) by (intro sum_list_member) (auto simp: main_mem_def mib_def pos_imp_zdiv_nonneg_iff split: option.splits)
  ultimately show ?thesis by (auto simp: vm vm_cpus_def Let_def)
qed

subsection \<open>A pod with an init container and two volumes\<close>

definition web_mount :: "string \<Rightarrow> string \<Rightarrow> bool \<Rightarrow> vol_mount" where
  "web_mount n path ro = \<lparr>vm_name = n, vm_path = path, vm_ro = ro, vm_subpath = False\<rparr>"

definition setup_container :: kcontainer where
  "setup_container = (a_container ''setup'')\<lparr>kc_image := ''tools'', kc_mem := Some (512 * mib),
     kc_mounts := [web_mount ''data'' ''/out'' False]\<rparr>"

definition web_container :: kcontainer where
  "web_container = (a_container ''web'')\<lparr>kc_image := ''nginx'', kc_mem := Some (128 * mib),
     kc_mounts := [web_mount ''conf'' ''/etc/web'' False, web_mount ''data'' ''/data'' True]\<rparr>"

definition demo_pod :: kpod where
  "demo_pod = (a_pod [setup_container] [web_container])\<lparr>kp_volumes :=
     [\<lparr>kv_name = ''conf'', kv_source = ConfigMapVol\<rparr>, \<lparr>kv_name = ''data'', kv_source = EmptyDir\<rparr>]\<rparr>"

definition good_host :: host where
  "good_host = \<lparr>h_is_dir = (\<lambda>_. True), h_mkdir = (\<lambda>_. None), h_fetch = (\<lambda>_ _. None)\<rparr>"

definition demo_plan :: vol_plan where
  "demo_plan = \<lparr>vp_dirs = [''data'' \<mapsto> ''/pods/p/volumes/data'', ''conf'' \<mapsto> ''/pods/p/volumes/conf''],
     vp_force = [''conf'' \<mapsto> True], vp_tags = [(''data'', ''vol0''), (''conf'', ''vol1'')],
     vp_args = [''--volume'', ''vol0=/pods/p/volumes/data'', ''--volume'', ''vol1=/pods/p/volumes/conf:ro''],
     vp_mounts = [''setup'' \<mapsto> [\<lparr>tag = ''vol0'', mount_path = ''/out'', read_only = False\<rparr>],
       ''web'' \<mapsto> [\<lparr>tag = ''vol1'', mount_path = ''/etc/web'', read_only = True\<rparr>,
                \<lparr>tag = ''vol0'', mount_path = ''/data'', read_only = True\<rparr>]]\<rparr>"

lemma demo_mounts: "mounts_of demo_pod = [(setup_container, web_mount ''data'' ''/out'' False),
    (web_container, web_mount ''conf'' ''/etc/web'' False), (web_container, web_mount ''data'' ''/data'' True)]"
  by (simp add: mounts_of_def all_containers_def demo_pod_def a_pod_def setup_container_def web_container_def a_container_def)

lemma demo_volumes:
  "volume_named demo_pod ''conf'' = Some \<lparr>kv_name = ''conf'', kv_source = ConfigMapVol\<rparr>"
  "volume_named demo_pod ''data'' = Some \<lparr>kv_name = ''data'', kv_source = EmptyDir\<rparr>"
  "\<not> is_static demo_pod" "any_rw demo_pod ''data''" "any_rw demo_pod ''conf''"
  by (simp_all add: volume_named_def demo_pod_def a_pod_def is_static_def any_rw_def all_containers_def
      setup_container_def web_container_def web_mount_def a_container_def)

lemma demo_dirs:
  "path_join [''/pods/p'', ''volumes'', ''conf''] = ''/pods/p/volumes/conf''"
  "path_join [''/pods/p'', ''volumes'', ''data''] = ''/pods/p/volumes/data''"
  by code_simp+

lemma demo_tags: "nat_digits 0 = ''0''" "nat_digits (Suc 0) = ''1''"
  by code_simp+

lemma demo_names: "kc_name setup_container = ''setup''" "kc_name web_container = ''web''"
  by (simp_all add: setup_container_def web_container_def a_container_def)

lemma demo_planned: "resolve_volumes good_host demo_pod ''/pods/p'' = Inr demo_plan"
proof -
  have d: "host_dir good_host demo_pod ''/pods/p'' \<lparr>kv_name = ''data'', kv_source = EmptyDir\<rparr> = Inr (''/pods/p/volumes/data'', False)"
    and c: "host_dir good_host demo_pod ''/pods/p'' \<lparr>kv_name = ''conf'', kv_source = ConfigMapVol\<rparr> = Inr (''/pods/p/volumes/conf'', True)"
    using demo_volumes(3) by (simp_all add: host_dir_def volume_dir_def good_host_def demo_dirs Let_def)
  show ?thesis
    unfolding resolve_volumes_def demo_mounts
    by (simp add: add_mount_def web_mount_def demo_volumes materialize_def d c add_device_def forced_def demo_tags
        demo_names no_plan_def volume_arg_def demo_plan_def Let_def fun_upd_twist)
qed

definition demo_bases :: "(string \<times> string) list" where
  "demo_bases = [(''tools'', ''/img/tools''), (''nginx'', ''/img/nginx'')]"

definition demo_guest :: "kcontainer \<Rightarrow> string \<Rightarrow> container_spec" where
  "demo_guest c dev = \<lparr>cs_name = kc_name c, argv = [''/bin/true''], cs_env = [], cwd = [], tty = False,
     root_dev = dev, mounts = container_mounts demo_plan (kc_name c)\<rparr>"

definition demo_spec :: pod_spec where
  "demo_spec = \<lparr>restart_policy = ''Always'', init_containers = [demo_guest setup_container ''/dev/vda''],
     containers = [demo_guest web_container ''/dev/vdb''], net = Some gvproxy_net, net6 = None, svc = None\<rparr>"

lemma demo_base: "map_of demo_bases ''tools'' = Some ''/img/tools''" "map_of demo_bases ''nginx'' = Some ''/img/nginx''"
  by (simp_all add: demo_bases_def)

lemma demo_pod_parts: "kp_inits demo_pod = [setup_container]" "kp_mains demo_pod = [web_container]"
  "policy_of demo_pod = ''Always''"
  by (simp_all add: demo_pod_def a_pod_def policy_of_def)

lemma demo_guests:
  "container_spec_of True (map_of demo_bases) (\<lambda>_. None) (vp_mounts demo_plan) setup_container []
     = Inr (demo_guest setup_container ''/dev/vda'', [(''/img/tools'', ''/dev/vda'')])"
  "container_spec_of True (map_of demo_bases) (\<lambda>_. None) (vp_mounts demo_plan) web_container [(''/img/tools'', ''/dev/vda'')]
     = Inr (demo_guest web_container ''/dev/vdb'', [(''/img/tools'', ''/dev/vda''), (''/img/nginx'', ''/dev/vdb'')])"
proof -
  have "device_name 0 = ''/dev/vda''" "device_name (Suc 0) = ''/dev/vdb''" by code_simp+
  note facts = this demo_base container_spec_of_def container_argv_def setup_container_def web_container_def
    a_container_def env_of_def image_env_def image_working_dir_def demo_guest_def container_mounts_def Let_def
  show "container_spec_of True (map_of demo_bases) (\<lambda>_. None) (vp_mounts demo_plan) setup_container []
     = Inr (demo_guest setup_container ''/dev/vda'', [(''/img/tools'', ''/dev/vda'')])"
    by (simp add: facts)
  show "container_spec_of True (map_of demo_bases) (\<lambda>_. None) (vp_mounts demo_plan) web_container [(''/img/tools'', ''/dev/vda'')]
     = Inr (demo_guest web_container ''/dev/vdb'', [(''/img/tools'', ''/dev/vda''), (''/img/nginx'', ''/dev/vdb'')])"
    by (simp add: facts)
qed

lemma demo_made: "make_spec \<lparr>ac_block = True, ac_gvproxy = True, ac_vmnet = False, ac_svc_cidr = []\<rparr> []
     (\<lambda>_. None) demo_pod demo_bases (vp_mounts demo_plan) = Inr (demo_spec, [''/img/tools'', ''/img/nginx''])"
  by (simp add: make_spec_def demo_pod_parts demo_guests demo_spec_def Let_def)

lemma root_devices_match_images_witness:
  "\<exists>j < 2. [''/img/tools'', ''/img/nginx''] ! j = ''/img/nginx''
     \<and> root_dev ((init_containers demo_spec @ containers demo_spec) ! 1) = device_name j"
proof -
  have l: "all_containers demo_pod = [setup_container, web_container]"
    by (simp add: all_containers_def demo_pod_parts)
  have b: "base_of (map_of demo_bases) web_container = ''/img/nginx''"
    by (simp add: base_of_def web_container_def demo_base)
  show ?thesis using root_devices_match_images [OF demo_made, of 1 1]
    by (simp add: l b numeral_2_eq_2)
qed

lemma volume_plan_exact_witness:
  "container_mounts demo_plan ''web'' = map (guest_mount demo_plan) (mounts_for demo_pod (mounts_of demo_pod) ''web'')
   \<and> distinct (map snd (vp_tags demo_plan))"
  using volume_plan_exact [OF demo_planned, of "''web''"] by blast


lemma vm_big_enough_witness: "512 \<le> vm_mem demo_pod \<and> 1 \<le> vm_cpus demo_pod"
proof -
  have "setup_container \<in> set (kp_inits demo_pod)" "web_container \<in> set (kp_mains demo_pod)"
    by (simp_all add: demo_pod_def a_pod_def)
  moreover have "\<forall>c \<in> set (kp_mains demo_pod). (case kc_mem c of Some m \<Rightarrow> 0 \<le> m | None \<Rightarrow> True)"
    by (simp add: demo_pod_def a_pod_def web_container_def a_container_def mib_def)
  moreover have "kc_mem setup_container = Some (512 * mib)" by (simp add: setup_container_def)
  ultimately show ?thesis using vm_big_enough [of demo_pod setup_container "512 * mib" web_container]
    by (simp add: mib_def)
qed

end
