(* ===== verification/Vm_Boot.thy ===== *)
theory Vm_Boot imports Agent_Plan Go_Net begin

text \<open>
  Starting a pod's VM: the middle of \<^verbatim>\<open>runPod\<close>'s loop (\<^verbatim>\<open>poc/agent/main.go\<close>), with the addresses and
  sockets of \<^verbatim>\<open>poc/agent/ipv6.go\<close> and the port forwards of \<^verbatim>\<open>poc/agent/hostports.go\<close>.  A start is a
  sequence of host actions, each of which may fail; \<open>boot_host\<close> says how the host answers them, and the
  model returns the actions in order with the error or the running VM.
\<close>

subsection \<open>Names and addresses\<close>

text \<open>\<^verbatim>\<open>execSockPath\<close>, \<^verbatim>\<open>netSockPath\<close>, \<^verbatim>\<open>vmnetSockPath\<close>, \<^verbatim>\<open>gvproxyAPISockPath\<close> differ in the suffix only.\<close>

definition sock_path :: "string \<Rightarrow> string \<Rightarrow> string" where
  "sock_path ending uid = path_join [''/tmp'', ''podvm-'' @ take 8 uid @ ending]"

text \<open>\<^verbatim>\<open>podIP6\<close> over SHA-256 as a parameter: the node's prefix, then eight bytes of the UID's hash, of
  which 0 and 1 are avoided.\<close>

definition pod_ip6 :: "(bytes \<Rightarrow> bytes) \<Rightarrow> bytes \<Rightarrow> string \<Rightarrow> bytes" where
  "pod_ip6 sha net_prefix uid =
     (let host = be_val (take 8 (sha (string_bytes uid)));
          host' = (if host < 2 then host + 2 else host)
      in put_at 8 (be_bytes 8 host') net_prefix)"

definition collect_host_ports :: "kpod \<Rightarrow> (int \<times> int) list" where
  "collect_host_ports pod =
     concat (map (\<lambda>c. map (\<lambda>p. (cp_host p, if cp_port p = 0 then cp_host p else cp_port p))
                 (filter (\<lambda>p. cp_host p \<noteq> 0 \<and> (cp_proto p = [] \<or> cp_proto p = ''TCP'')) (kc_ports c)))
       (kp_mains pod))"

subsection \<open>Forwards\<close>

text \<open>One POST to gvproxy: a transport error, or a status code and its line with the trimmed body.\<close>

datatype post_result = PostError string | PostStatus int string

text \<open>\<^verbatim>\<open>exposeHostPorts\<close>: up to twenty attempts for each port; the last error of the first port that never
  succeeds.  \<open>post i a\<close> is the answer to attempt \<open>a\<close> for port \<open>i\<close>.\<close>

fun expose_port :: "nat \<Rightarrow> (nat \<Rightarrow> post_result) \<Rightarrow> nat \<Rightarrow> int \<times> int \<Rightarrow> string option \<Rightarrow> string option" where
  "expose_port 0 post a p last_err = last_err"
| "expose_port (Suc k) post a p last_err =
     (case post a of
        PostStatus code line \<Rightarrow>
          if code = 200 then None
          else expose_port k post (Suc a) p
                 (Some (''expose '' @ int_digits (fst p) @ ''->'' @ int_digits (snd p) @ '': '' @ line))
      | PostError e \<Rightarrow> expose_port k post (Suc a) p (Some e))"

fun expose_host_ports :: "(nat \<Rightarrow> nat \<Rightarrow> post_result) \<Rightarrow> nat \<Rightarrow> (int \<times> int) list \<Rightarrow> string option" where
  "expose_host_ports post i [] = None"
| "expose_host_ports post i (p # ps) =
     (case expose_port 20 (post i) 0 p None of Some e \<Rightarrow> Some e | None \<Rightarrow> expose_host_ports post (Suc i) ps)"

subsection \<open>A start\<close>

datatype proc = Gvproxy | VmnetHelper | Harness

datatype boot_action =
    OpenLog
  | CloseLog
  | RemoveFile string
  | StartProc proc "string list"
  | KillProc proc
  | SetIp string
  | ServeSvc

text \<open>What \<^verbatim>\<open>startVmnetHelper\<close> gets from the helper: it did not start, it printed no usable line in time
  (an error, which may be the timeout), or it printed a MAC, possibly empty.\<close>

datatype vmnet_result = VmnetNoStart string | VmnetBad string | VmnetMac string

record boot_host =
  bh_log :: "string option"
  bh_gvlog :: "string option"
  bh_gvstart :: "string option"
  bh_netsock :: "string option"
  bh_post :: "nat \<Rightarrow> nat \<Rightarrow> post_result"
  bh_vmnet :: vmnet_result
  bh_vmsock :: "string option"
  bh_svc :: "string option"
  bh_harness :: "string option"

record boot_cfg =
  bc_kernel :: string
  bc_gvproxy :: bool
  bc_vmnet :: bool

text \<open>The arguments before the networks.\<close>

definition base_args :: "boot_cfg \<Rightarrow> kpod \<Rightarrow> string \<Rightarrow> string \<Rightarrow> string list \<Rightarrow> string list \<Rightarrow> string list" where
  "base_args bc pod dir rootfs vol_args images =
     [''--kernel'', bc_kernel bc, ''--rootfs'', rootfs, ''--cpus'', int_digits (vm_cpus pod), ''--mem'', int_digits (vm_mem pod),
      ''--log'', path_join [dir, ''vmm.log''], ''--vsock-exec'', sock_path ''.sock'' (kp_uid pod)]
     @ vol_args @ concat (map (\<lambda>img. [''--root-image'', img @ ''.erofs'']) images)"

text \<open>gvproxy: the actions, and the arguments it adds or the error.  Its caller closes the log.\<close>

definition boot_gvproxy :: "boot_host \<Rightarrow> kpod \<Rightarrow> boot_action list \<times> (string + string list)" where
  "boot_gvproxy bh pod =
     (let net_sock = sock_path ''.net'' (kp_uid pod); api_sock = sock_path ''.gvapi'' (kp_uid pod);
          ports = collect_host_ports pod;
          acts = [RemoveFile net_sock]
      in case bh_gvlog bh of
           Some e \<Rightarrow> (acts, Inl e)
         | None \<Rightarrow>
             let gv_args = [''-listen-vfkit'', ''unixgram://'' @ net_sock, ''-ssh-port'', ''-1'']
                   @ (if ports \<noteq> [] then [''-listen'', ''unix://'' @ api_sock] else []);
                 acts1 = acts @ (if ports \<noteq> [] then [RemoveFile api_sock] else [])
             in case bh_gvstart bh of
                  Some e \<Rightarrow> (acts1, Inl (''starting gvproxy: '' @ e))
                | None \<Rightarrow>
                    let acts2 = acts1 @ [StartProc Gvproxy gv_args]
                    in case bh_netsock bh of
                         Some e \<Rightarrow> (acts2 @ [KillProc Gvproxy], Inl e)
                       | None \<Rightarrow>
                           (case expose_host_ports (bh_post bh) 0 ports of
                              Some e \<Rightarrow> (acts2 @ [KillProc Gvproxy], Inl (''hostPort forward: '' @ e))
                            | None \<Rightarrow> (acts2, Inr [''--net-socket'', net_sock])))"

definition vmnet_args :: "string \<Rightarrow> string \<Rightarrow> string list" where
  "vmnet_args sock uid = [''--socket'', sock, ''--interface-id'', uid, ''--operation-mode'', ''shared'']"

text \<open>\<^verbatim>\<open>startVmnetHelper\<close>: the MAC, or the error after the helper, if it started, has been killed.\<close>

definition start_vmnet :: "vmnet_result \<Rightarrow> string \<Rightarrow> string \<Rightarrow> boot_action list \<times> (string + string)" where
  "start_vmnet r sock uid =
     (case r of
        VmnetNoStart e \<Rightarrow> ([], Inl (''starting vmnet-helper: '' @ e))
      | VmnetBad e \<Rightarrow> ([StartProc VmnetHelper (vmnet_args sock uid), KillProc VmnetHelper], Inl e)
      | VmnetMac mac \<Rightarrow>
          if mac = []
          then ([StartProc VmnetHelper (vmnet_args sock uid), KillProc VmnetHelper], Inl ''vmnet-helper reported no MAC'')
          else ([StartProc VmnetHelper (vmnet_args sock uid)], Inr mac))"

definition boot_vmnet :: "boot_host \<Rightarrow> string \<Rightarrow> string \<Rightarrow> boot_action list \<times> (string + string list)" where
  "boot_vmnet bh ip uid =
     (let sock = sock_path ''.vm'' uid; (acts, r) = start_vmnet (bh_vmnet bh) sock uid; acts0 = RemoveFile sock # acts
      in case r of
           Inl e \<Rightarrow> (acts0, Inl e)
         | Inr mac \<Rightarrow>
             (case bh_vmsock bh of
                Some e \<Rightarrow> (acts0 @ [KillProc VmnetHelper], Inl e)
              | None \<Rightarrow>
                  (case bh_svc bh of
                     Some e \<Rightarrow> (acts0 @ [SetIp ip, RemoveFile (sock_path ''.svc'' uid), KillProc VmnetHelper], Inl e)
                   | None \<Rightarrow> (acts0 @ [SetIp ip, RemoveFile (sock_path ''.svc'' uid), ServeSvc],
                       Inr [''--net2-socket'', sock, ''--net2-mac'', mac, ''--vsock-svc'', sock_path ''.svc'' uid]))))"

text \<open>The whole start, from the log file to the harness process.\<close>

definition boot_vm :: "boot_cfg \<Rightarrow> boot_host \<Rightarrow> kpod \<Rightarrow> string \<Rightarrow> string \<Rightarrow> string \<Rightarrow> string list \<Rightarrow> string list
    \<Rightarrow> boot_action list \<times> (string + string list)" where
  "boot_vm bc bh pod ip dir rootfs vol_args images =
     (case bh_log bh of
        Some e \<Rightarrow> ([], Inl e)
      | None \<Rightarrow>
          let (acts1, r1) = (if bc_gvproxy bc then boot_gvproxy bh pod else ([], Inr []))
          in case r1 of
               Inl e \<Rightarrow> (OpenLog # acts1 @ [CloseLog], Inl e)
             | Inr net_args \<Rightarrow>
                 let undo1 = (if bc_gvproxy bc then [KillProc Gvproxy] else []);
                     (acts2, r2) = (if bc_vmnet bc then boot_vmnet bh ip (kp_uid pod) else ([], Inr []))
                 in case r2 of
                      Inl e \<Rightarrow> (OpenLog # acts1 @ acts2 @ [CloseLog] @ undo1, Inl e)
                    | Inr net2_args \<Rightarrow>
                        let args = base_args bc pod dir rootfs vol_args images @ net_args @ net2_args @ [''--'', ''/execd''];
                            undo2 = (if bc_vmnet bc then [KillProc VmnetHelper] else [])
                        in case bh_harness bh of
                             Some e \<Rightarrow> (OpenLog # acts1 @ acts2 @ [CloseLog] @ undo1 @ undo2, Inl e)
                           | None \<Rightarrow> (OpenLog # acts1 @ acts2 @ [StartProc Harness args], Inr args))"

subsection \<open>What a start leaves behind\<close>

fun act_proc :: "proc set \<Rightarrow> boot_action \<Rightarrow> proc set" where
  "act_proc ps (StartProc p args) = insert p ps"
| "act_proc ps (KillProc p) = ps - {p}"
| "act_proc ps _ = ps"

fun act_log :: "bool \<Rightarrow> boot_action \<Rightarrow> bool" where
  "act_log b OpenLog = True"
| "act_log b CloseLog = False"
| "act_log b _ = b"

definition running_procs :: "boot_action list \<Rightarrow> proc set" where
  "running_procs acts = foldl act_proc {} acts"

definition log_open :: "boot_action list \<Rightarrow> bool" where
  "log_open acts = foldl act_log False acts"

lemma gvproxy_outcome:
  "boot_gvproxy bh pod = (acts, r) \<Longrightarrow> foldl act_log b acts = b
     \<and> foldl act_proc {} acts = (case r of Inl e \<Rightarrow> {} | Inr args \<Rightarrow> {Gvproxy})"
  by (auto simp: boot_gvproxy_def Let_def split: option.splits if_splits)

lemma vmnet_outcome:
  "boot_vmnet bh ip uid = (acts, r) \<Longrightarrow> foldl act_log b acts = b
     \<and> (VmnetHelper \<notin> ps \<longrightarrow> foldl act_proc ps acts = (case r of Inl e \<Rightarrow> ps | Inr args \<Rightarrow> insert VmnetHelper ps))"
  by (auto simp: boot_vmnet_def start_vmnet_def Let_def split: option.splits if_splits vmnet_result.splits)

text \<open>C35: A start that fails leaves nothing behind: whatever step fails, every helper process that was
  started has been killed and the log file closed, so that a retry starts from scratch.\<close>

theorem failed_start_cleans_up:
  assumes "boot_vm bc bh pod ip dir rootfs vol_args images = (acts, Inl e)"
  shows "running_procs acts = {} \<and> \<not> log_open acts"
proof -
  obtain acts1 r1 where g: "(if bc_gvproxy bc then boot_gvproxy bh pod else ([], Inr [])) = (acts1, r1)" by force
  have p1: "foldl act_log b acts1 = b" "foldl act_proc {} acts1 = (case r1 of Inl e \<Rightarrow> {} | Inr a \<Rightarrow> if bc_gvproxy bc then {Gvproxy} else {})" for b
    using g gvproxy_outcome [of bh pod acts1 r1] by (auto split: if_splits sum.splits)
  obtain acts2 r2 where v: "(if bc_vmnet bc then boot_vmnet bh ip (kp_uid pod) else ([], Inr [])) = (acts2, r2)" by force
  have p2: "foldl act_log b acts2 = b" "VmnetHelper \<notin> ps \<Longrightarrow> foldl act_proc ps acts2
      = (case r2 of Inl e \<Rightarrow> ps | Inr a \<Rightarrow> if bc_vmnet bc then insert VmnetHelper ps else ps)" for b ps
    using v vmnet_outcome [of bh ip "kp_uid pod" acts2 r2] by (auto split: if_splits sum.splits)
  let ?undo1 = "if bc_gvproxy bc then [KillProc Gvproxy] else []"
  let ?undo2 = "if bc_vmnet bc then [KillProc VmnetHelper] else []"
  have "acts = [] \<or> r1 = Inl e \<and> acts = OpenLog # acts1 @ [CloseLog]
      \<or> (\<exists>n. r1 = Inr n) \<and> r2 = Inl e \<and> acts = OpenLog # acts1 @ acts2 @ [CloseLog] @ ?undo1
      \<or> (\<exists>n. r1 = Inr n) \<and> (\<exists>n. r2 = Inr n) \<and> acts = OpenLog # acts1 @ acts2 @ [CloseLog] @ ?undo1 @ ?undo2"
    using assms unfolding boot_vm_def g v
    by (cases "bc_gvproxy bc"; cases "bc_vmnet bc") (auto simp: Let_def split: option.splits sum.splits)
  then show ?thesis
  proof (elim disjE conjE exE)
    assume "r1 = Inl e" "acts = OpenLog # acts1 @ [CloseLog]"
    then show ?thesis by (simp add: running_procs_def log_open_def p1)
  next
    fix n assume "r1 = Inr n" "r2 = Inl e" "acts = OpenLog # acts1 @ acts2 @ [CloseLog] @ ?undo1"
    then show ?thesis by (simp add: running_procs_def log_open_def p1 p2)
  next
    fix n n' assume "r1 = Inr n" "r2 = Inr n'" "acts = OpenLog # acts1 @ acts2 @ [CloseLog] @ ?undo1 @ ?undo2"
    then show ?thesis by (auto simp: running_procs_def log_open_def p1 p2)
  qed (simp add: running_procs_def log_open_def)
qed

text \<open>A start that succeeds leaves exactly the helpers the agent is configured for and the harness
  running, and passes the harness every attached image in device order, the volumes, the networks
  that were set up and the guest's init.\<close>

theorem started_vm:
  assumes "boot_vm bc bh pod ip dir rootfs vol_args images = (acts, Inr args)"
  shows "running_procs acts = {Harness} \<union> (if bc_gvproxy bc then {Gvproxy} else {}) \<union> (if bc_vmnet bc then {VmnetHelper} else {})
     \<and> last acts = StartProc Harness args
     \<and> (\<exists>nets. args = base_args bc pod dir rootfs vol_args images @ nets @ [''--'', ''/execd''])"
proof -
  obtain acts1 r1 where g: "(if bc_gvproxy bc then boot_gvproxy bh pod else ([], Inr [])) = (acts1, r1)" by force
  have p1: "foldl act_proc {} acts1 = (case r1 of Inl e \<Rightarrow> {} | Inr a \<Rightarrow> if bc_gvproxy bc then {Gvproxy} else {})"
    using g gvproxy_outcome [of bh pod acts1 r1] by (auto split: if_splits sum.splits)
  obtain acts2 r2 where v: "(if bc_vmnet bc then boot_vmnet bh ip (kp_uid pod) else ([], Inr [])) = (acts2, r2)" by force
  have p2: "VmnetHelper \<notin> ps \<Longrightarrow> foldl act_proc ps acts2
      = (case r2 of Inl e \<Rightarrow> ps | Inr a \<Rightarrow> if bc_vmnet bc then insert VmnetHelper ps else ps)" for ps
    using v vmnet_outcome [of bh ip "kp_uid pod" acts2 r2] by (auto split: if_splits sum.splits)
  obtain net_args net2_args where r: "r1 = Inr net_args" "r2 = Inr net2_args"
      "acts = OpenLog # acts1 @ acts2 @ [StartProc Harness args]"
      "args = base_args bc pod dir rootfs vol_args images @ net_args @ net2_args @ [''--'', ''/execd'']"
    using assms unfolding boot_vm_def g v by (auto simp: Let_def split: option.splits sum.splits)
  have "running_procs acts = insert Harness (foldl act_proc (foldl act_proc {} acts1) acts2)"
    by (simp add: running_procs_def r(3))
  also have "\<dots> = {Harness} \<union> (if bc_gvproxy bc then {Gvproxy} else {}) \<union> (if bc_vmnet bc then {VmnetHelper} else {})"
    using p1 p2 [of "if bc_gvproxy bc then {Gvproxy} else {}"] by (auto simp: r(1,2))
  finally show ?thesis using r(3,4) by auto
qed

subsection \<open>Forwards and addresses\<close>

lemma expose_port_iff:
  "last_err \<noteq> None \<or> 0 < k \<Longrightarrow> expose_port k post a p last_err = None \<longleftrightarrow> (\<exists>b line. a \<le> b \<and> b < a + k \<and> post b = PostStatus 200 line)"
proof (induction k arbitrary: a last_err)
  case (Suc k)
  have first: "(\<exists>b line. a \<le> b \<and> b < a + Suc k \<and> post b = PostStatus 200 line)
      \<longleftrightarrow> (\<exists>line. post a = PostStatus 200 line) \<or> (\<exists>b line. Suc a \<le> b \<and> b < Suc a + k \<and> post b = PostStatus 200 line)"
    (is "?l \<longleftrightarrow> ?h \<or> ?t")
  proof
    assume ?l
    then obtain b line where "a \<le> b" "b < a + Suc k" "post b = PostStatus 200 line" by blast
    then show "?h \<or> ?t" by (cases "b = a") (simp, intro disjI2 exI [of _ b], simp)
  next
    assume "?h \<or> ?t"
    then show ?l
    proof
      assume ?h then show ?l by (intro exI [of _ a]) simp
    next
      assume ?t
      then obtain b line where "Suc a \<le> b" "b < Suc a + k" "post b = PostStatus 200 line" by blast
      then show ?l by (intro exI [of _ b]) simp
    qed
  qed
  define later where "later \<longleftrightarrow> (\<exists>b line. Suc a \<le> b \<and> b < Suc a + k \<and> post b = PostStatus 200 line)"
  have rest: "expose_port k post (Suc a) p (Some e) = None \<longleftrightarrow> later" for e
    unfolding later_def by (rule Suc.IH) simp
  show ?case unfolding first later_def [symmetric]
    by (cases "post a") (simp_all add: rest)
qed auto

text \<open>The host ports of a pod are forwarded exactly if gvproxy accepts each of them within its twenty
  attempts.\<close>

theorem ports_forwarded_iff:
  "expose_host_ports post 0 ports = None \<longleftrightarrow>
     (\<forall>i < length ports. \<exists>a < 20. \<exists>line. post i a = PostStatus 200 line)"
proof -
  have "expose_host_ports post k ports = None \<longleftrightarrow> (\<forall>i < length ports. \<exists>a < 20. \<exists>line. post (k + i) a = PostStatus 200 line)" for k
  proof (induction ports arbitrary: k)
    case (Cons p ports)
    have "expose_port 20 (post k) 0 p None = None \<longleftrightarrow> (\<exists>a < 20. \<exists>line. post k a = PostStatus 200 line)"
      using expose_port_iff [of None 20 "post k" 0 p] by auto
    then show ?case using Cons.IH [of "Suc k"] by (auto simp: less_Suc_eq_0_disj split: option.split)
  qed simp
  from this [of 0] show ?thesis by simp
qed

text \<open>A pod's address lies in the node's /64, is the same whenever it is derived, and is neither the
  subnet's anycast address nor the host's.\<close>

theorem pod_address_in_node_prefix:
  assumes "length net_prefix = 16" and "8 \<le> length (sha (string_bytes uid))"
  shows "length (pod_ip6 sha net_prefix uid) = 16 \<and> take 8 (pod_ip6 sha net_prefix uid) = take 8 net_prefix
    \<and> 2 \<le> be_val (drop 8 (pod_ip6 sha net_prefix uid))"
proof -
  let ?h = "be_val (take 8 (sha (string_bytes uid)))"
  have "length (rev (take 8 (sha (string_bytes uid)))) = 8" using assms(2) by simp
  then have "?h < 256 ^ 8" using le_val_bound [of "rev (take 8 (sha (string_bytes uid)))"] by (simp only: be_val_def)
  then have b: "(if ?h < 2 then ?h + 2 else ?h) < 256 ^ 8" by simp
  have "pod_ip6 sha net_prefix uid = take 8 net_prefix @ be_bytes 8 (if ?h < 2 then ?h + 2 else ?h)"
    using assms(1) by (simp add: pod_ip6_def put_at_def Let_def)
  then show ?thesis using be.dec_enc_small [OF b] assms(1) by simp
qed

subsection \<open>Devices, from the image to the guest\<close>


subsection \<open>A start in detail\<close>

definition busy_host :: boot_host where
  "busy_host = \<lparr>bh_log = None, bh_gvlog = None, bh_gvstart = None, bh_netsock = None, bh_post = (\<lambda>_ _. PostStatus 200 []),
     bh_vmnet = VmnetMac ''5a:94:ef:00:00:01'', bh_vmsock = None, bh_svc = None, bh_harness = Some ''exec format error''\<rparr>"

definition both_nets :: boot_cfg where
  "both_nets = \<lparr>bc_kernel = ''/k'', bc_gvproxy = True, bc_vmnet = True\<rparr>"

lemma demo_boot_parts: "collect_host_ports demo_pod = []"
  by (simp add: collect_host_ports_def demo_pod_parts web_container_def a_container_def)

lemma failed_start_cleans_up_witness:
  "running_procs (fst (boot_vm both_nets busy_host demo_pod ''fd00::7'' ''/d'' ''/d/rootfs'' [] [])) = {}"
proof -
  have "\<exists>acts. boot_vm both_nets busy_host demo_pod ''fd00::7'' ''/d'' ''/d/rootfs'' [] [] = (acts, Inl ''exec format error'')"
    by (simp add: boot_vm_def both_nets_def busy_host_def boot_gvproxy_def boot_vmnet_def start_vmnet_def demo_boot_parts Let_def)
  then show ?thesis using failed_start_cleans_up by fastforce
qed

definition ready_host :: boot_host where
  "ready_host = busy_host\<lparr>bh_harness := None\<rparr>"

lemma demo_started: "\<exists>acts args. boot_vm both_nets ready_host demo_pod ''fd00::7'' ''/d'' ''/d/rootfs'' []
    [''/img/tools'', ''/img/nginx''] = (acts, Inr args)"
  by (simp add: boot_vm_def both_nets_def ready_host_def busy_host_def boot_gvproxy_def boot_vmnet_def start_vmnet_def demo_boot_parts Let_def)

lemma started_vm_witness:
  "running_procs (fst (boot_vm both_nets ready_host demo_pod ''fd00::7'' ''/d'' ''/d/rootfs'' [] [''/img/tools'', ''/img/nginx'']))
     = {Harness, Gvproxy, VmnetHelper}"
proof -
  obtain acts args where "boot_vm both_nets ready_host demo_pod ''fd00::7'' ''/d'' ''/d/rootfs'' [] [''/img/tools'', ''/img/nginx''] = (acts, Inr args)"
    using demo_started by blast
  then show ?thesis using started_vm [of both_nets ready_host demo_pod "''fd00::7''" "''/d''" "''/d/rootfs''" "[]" _ acts args]
    by (auto simp: both_nets_def)
qed


lemma ports_forwarded_iff_witness:
  "expose_host_ports (\<lambda>i a. if a = 3 then PostStatus 200 [] else PostError ''refused'') 0 [(6443, 6443)] = None"
  by (rule ports_forwarded_iff [THEN iffD2]) (auto intro!: exI [of _ 3])

lemma pod_address_in_node_prefix_witness:
  "2 \<le> be_val (drop 8 (pod_ip6 (\<lambda>_. replicate 32 0) (replicate 16 253) ''uid''))"
  using pod_address_in_node_prefix [of "replicate 16 253" "\<lambda>_. replicate 32 0" "''uid''"] by simp

end
