(* ===== verification/Pki.thy ===== *)
theory Pki imports Go_Net begin

text \<open>
  The PKI reconciler (\<^verbatim>\<open>poc/pki/main.go\<close>): spec files, the key, certificate and kubeconfig files next to
  them, the drift check and the passes of \<^verbatim>\<open>main\<close>.  Cryptography is symbolic: a key pair is an
  algorithm and a fresh number, a certificate records the public key that verifies its signature.  A
  PEM file is what it decodes to.  Orders inside a certificate's SETs are not kept by DER; the code
  compares them as multisets, and so the model loses nothing by keeping the spec's order.
\<close>

subsection \<open>Material\<close>

datatype key_alg = Rsa2048 | EcdsaP256

datatype pkey = PKey key_alg nat

datatype ext_usage = ServerAuth | ClientAuth

record cert =
  c_cn :: string
  c_orgs :: "string list"
  c_dns :: "string list"
  c_ips :: "bytes list"
  c_isca :: bool
  c_eku :: "ext_usage list"
  c_pub :: pkey
  c_signer :: pkey
  c_not_after :: int

text \<open>File contents; \<open>KubeconfFile\<close> has what is formatted into the text: CA file, server, context, user,
  client certificate and key files.\<close>

datatype content =
    KeyFile pkey
  | CertFile cert
  | PubFile pkey
  | KubeconfFile content string string string content content
  | OtherFile bytes

record pki_spec =
  ps_name :: string
  ps_kind :: string
  ps_ca :: bool
  ps_issuer :: string
  ps_cn :: string
  ps_orgs :: "string list"
  ps_dns :: "string list"
  ps_ips :: "string list"
  ps_usages :: "string list"
  ps_duration :: string
  ps_alg :: string
  ps_server :: string
  ps_ca_ref :: string
  ps_client_ref :: string

text \<open>The clock (nanoseconds), \<^verbatim>\<open>time.ParseDuration\<close>, and the file system's answer to a write.\<close>

record pki_env =
  pe_now :: int
  pe_duration :: "string \<Rightarrow> string + int"
  pe_write :: "string \<Rightarrow> string option"

type_synonym store = "string \<rightharpoonup> content"

text \<open>The store, by path below the root, and the supply of fresh keys.\<close>

record pki_st =
  files :: store
  next_key :: nat

definition pki_path :: "string \<Rightarrow> string \<Rightarrow> string" where
  "pki_path name ext = path_clean (name @ ext)"

definition load_key :: "store \<Rightarrow> string \<Rightarrow> pkey option" where
  "load_key fs p = (case fs p of Some (KeyFile k) \<Rightarrow> Some k | _ \<Rightarrow> None)"

definition load_cert :: "store \<Rightarrow> string \<Rightarrow> cert option" where
  "load_cert fs p = (case fs p of Some (CertFile c) \<Rightarrow> Some c | _ \<Rightarrow> None)"

definition write_file :: "pki_env \<Rightarrow> string \<Rightarrow> content \<Rightarrow> pki_st \<Rightarrow> string + pki_st" where
  "write_file env p c st = (case pe_write env p of Some e \<Rightarrow> Inl e | None \<Rightarrow> Inr (st\<lparr>files := (files st)(p \<mapsto> c)\<rparr>))"

definition alg_name :: "string \<Rightarrow> string" where
  "alg_name a = (if a = [] then ''rsa2048'' else a)"

definition generate_key :: "string \<Rightarrow> pki_st \<Rightarrow> string + (pkey \<times> pki_st)" where
  "generate_key a st =
     (if alg_name a = ''rsa2048'' then Inr (PKey Rsa2048 (next_key st), st\<lparr>next_key := Suc (next_key st)\<rparr>)
      else if alg_name a = ''ecdsa-p256'' then Inr (PKey EcdsaP256 (next_key st), st\<lparr>next_key := Suc (next_key st)\<rparr>)
      else Inl (''unknown algorithm '' @ a))"

subsection \<open>Key pairs\<close>

definition reconcile_key_pair :: "pki_env \<Rightarrow> pki_spec \<Rightarrow> pki_st \<Rightarrow> string + pki_st" where
  "reconcile_key_pair env s st =
     (let kp = pki_path (ps_name s) ''.key''; pp = pki_path (ps_name s) ''.pub''
      in case load_key (files st) kp of
           Some k \<Rightarrow> if files st pp = Some (PubFile k) then Inr st else write_file env pp (PubFile k) st
         | None \<Rightarrow>
             and_then (generate_key (ps_alg s) st) (\<lambda>(k, st1).
             and_then (write_file env kp (KeyFile k) st1) (\<lambda>st2. write_file env pp (PubFile k) st2)))"

subsection \<open>Certificates\<close>

text \<open>\<^verbatim>\<open>stringSetEqual\<close>: equal length, and equal element by element once sorted.\<close>

definition string_set_equal :: "string list \<Rightarrow> string list \<Rightarrow> bool" where
  "string_set_equal a b =
     (if length a \<noteq> length b then False
      else list_all (\<lambda>i. sort a ! i = sort b ! i) [0..<length a])"

definition want_usages :: "pki_spec \<Rightarrow> ext_usage list" where
  "want_usages s =
     (if ps_ca s then []
      else if ps_usages s = [] then [ServerAuth, ClientAuth]
      else concat (map (\<lambda>u. if u = ''server auth'' then [ServerAuth] else if u = ''client auth'' then [ClientAuth] else [])
             (ps_usages s)))"

definition usages_equal :: "ext_usage list \<Rightarrow> pki_spec \<Rightarrow> bool" where
  "usages_equal have_usages s =
     (let want = want_usages s
      in if length have_usages \<noteq> length want then False else list_all (\<lambda>u. u \<in> set have_usages) want)"

text \<open>\<^verbatim>\<open>CheckSignatureFrom\<close>: the parent is a CA and its key verifies the signature.\<close>

definition signed_from :: "cert \<Rightarrow> cert \<Rightarrow> bool" where
  "signed_from c parent \<longleftrightarrow> c_isca parent \<and> c_signer c = c_pub parent"

datatype drift =
    NoDrift
  | Missing
  | KeyMissing
  | KeyMismatch
  | CommonNameDrift
  | OrganizationsDrift
  | IsCaDrift
  | DnsNamesDrift
  | IpAddressesDrift
  | UsagesDrift
  | IssuerDrift
  | SelfSignatureDrift
  | ExpiresSoon

definition month :: int where
  "month = 30 * 24 * 3600 * 10 ^ 9"

definition cert_drift :: "int \<Rightarrow> store \<Rightarrow> pki_spec \<Rightarrow> cert option \<Rightarrow> drift" where
  "cert_drift now fs s issuer =
     (case load_cert fs (pki_path (ps_name s) ''.crt'') of
        None \<Rightarrow> Missing
      | Some c \<Rightarrow>
          (case load_key fs (pki_path (ps_name s) ''.key'') of
             None \<Rightarrow> KeyMissing
           | Some k \<Rightarrow>
               if c_pub c \<noteq> k then KeyMismatch
               else if c_cn c \<noteq> ps_cn s then CommonNameDrift
               else if \<not> string_set_equal (c_orgs c) (ps_orgs s) then OrganizationsDrift
               else if c_isca c \<noteq> ps_ca s then IsCaDrift
               else if \<not> string_set_equal (c_dns c) (ps_dns s) then DnsNamesDrift
               else if \<not> string_set_equal (map show_ip (c_ips c)) (map show_ip (List.map_filter parse_ip (ps_ips s)))
                 then IpAddressesDrift
               else if \<not> usages_equal (c_eku c) s then UsagesDrift
               else if (case issuer of Some p \<Rightarrow> \<not> signed_from c p | None \<Rightarrow> False) then IssuerDrift
               else if issuer = None \<and> \<not> signed_from c c then SelfSignatureDrift
               else if c_not_after c - now < month then ExpiresSoon
               else NoDrift))"

definition find_spec :: "pki_spec list \<Rightarrow> string \<Rightarrow> pki_spec option" where
  "find_spec specs name = find (\<lambda>s. ps_name s = name) specs"

definition issuer_of :: "pki_spec list \<Rightarrow> store \<Rightarrow> pki_spec \<Rightarrow> string + (cert \<times> pkey) option" where
  "issuer_of specs fs s =
     (let ref = ps_issuer s
      in if ps_ca s \<and> ref = [] then Inr None
         else if ref = [] then Inl ''non-CA certificate needs issuerRef''
         else case find_spec specs ref of
                None \<Rightarrow> Inl (''issuerRef '' @ ref @ '' is not a CA Certificate spec'')
              | Some i \<Rightarrow>
                  if ps_kind i \<noteq> ''Certificate'' \<or> \<not> ps_ca i then Inl (''issuerRef '' @ ref @ '' is not a CA Certificate spec'')
                  else (case load_cert fs (pki_path ref ''.crt'') of
                          None \<Rightarrow> Inl (''issuer '' @ ref @ '' not materialized'')
                        | Some c \<Rightarrow>
                            (case load_key fs (pki_path ref ''.key'') of
                               None \<Rightarrow> Inl (''issuer '' @ ref @ '' key'')
                             | Some k \<Rightarrow> Inr (Some (c, k)))))"

definition default_duration :: int where
  "default_duration = 10 * 365 * 24 * 3600 * 10 ^ 9"

definition spec_duration :: "pki_env \<Rightarrow> pki_spec \<Rightarrow> string + int" where
  "spec_duration env s =
     (if ps_duration s = [] then Inr default_duration
      else case pe_duration env (ps_duration s) of Inl e \<Rightarrow> Inl (''duration: '' @ e) | Inr d \<Rightarrow> Inr d)"

definition add_ip :: "bytes list \<Rightarrow> string \<Rightarrow> string + bytes list" where
  "add_ip ips ip = (case parse_ip ip of None \<Rightarrow> Inl (''bad ipAddress '' @ ip) | Some p \<Rightarrow> Inr (ips @ [p]))"

text \<open>\<^verbatim>\<open>certTemplate\<close>, with the keys still to be filled in; the end of validity is encoded in whole seconds.\<close>

definition cert_template :: "pki_env \<Rightarrow> pki_spec \<Rightarrow> pkey \<Rightarrow> pkey \<Rightarrow> string + cert" where
  "cert_template env s pub signer =
     and_then (spec_duration env s) (\<lambda>d.
     and_then (foldr_err add_ip [] (ps_ips s)) (\<lambda>ips.
       Inr \<lparr>c_cn = ps_cn s, c_orgs = ps_orgs s, c_dns = ps_dns s, c_ips = ips, c_isca = ps_ca s,
            c_eku = want_usages s, c_pub = pub, c_signer = signer,
            c_not_after = (pe_now env + d) div 10 ^ 9 * 10 ^ 9\<rparr>))"

definition ia5 :: "string \<Rightarrow> bool" where
  "ia5 s = list_all (\<lambda>c. (of_char c :: nat) < 128) s"

text \<open>\<^verbatim>\<open>x509.CreateCertificate\<close> refuses names that are not IA5 and a signer that is not the parent's key.\<close>

definition create_certificate :: "cert \<Rightarrow> (cert \<times> pkey) option \<Rightarrow> string + cert" where
  "create_certificate c issuer =
     (if \<not> list_all ia5 (c_dns c) then Inl ''x509: cannot be encoded as an IA5String''
      else case issuer of
             Some (p, k) \<Rightarrow> if c_pub p \<noteq> k then Inl ''x509: provided PrivateKey does not match parent PublicKey'' else Inr c
           | None \<Rightarrow> Inr c)"

definition ensure_key :: "pki_env \<Rightarrow> string \<Rightarrow> pki_st \<Rightarrow> string + (pkey \<times> pki_st)" where
  "ensure_key env p st =
     (case load_key (files st) p of
        Some k \<Rightarrow> Inr (k, st)
      | None \<Rightarrow> and_then (generate_key ''ecdsa-p256'' st) (\<lambda>(k, st1).
                and_then (write_file env p (KeyFile k) st1) (\<lambda>st2. Inr (k, st2))))"

definition reconcile_certificate :: "pki_env \<Rightarrow> pki_spec list \<Rightarrow> pki_spec \<Rightarrow> pki_st \<Rightarrow> string + pki_st" where
  "reconcile_certificate env specs s st =
     and_then (issuer_of specs (files st) s) (\<lambda>issuer.
       if cert_drift (pe_now env) (files st) s (map_option fst issuer) = NoDrift then Inr st
       else and_then (ensure_key env (pki_path (ps_name s) ''.key'') st) (\<lambda>(k, st1).
            and_then (cert_template env s k (case issuer of Some (p, ik) \<Rightarrow> ik | None \<Rightarrow> k)) (\<lambda>tmpl.
            and_then (create_certificate tmpl issuer) (\<lambda>c.
              write_file env (pki_path (ps_name s) ''.crt'') (CertFile c) st1))))"

subsection \<open>Kubeconfigs\<close>

definition kubeconfig_content :: "store \<Rightarrow> pki_spec \<Rightarrow> string + content" where
  "kubeconfig_content fs s =
     (if ps_server s = [] \<or> ps_ca_ref s = [] \<or> ps_client_ref s = []
      then Inl ''kubeconfig needs server, certificateAuthorityRef, clientCertificateRef''
      else case fs (pki_path (ps_ca_ref s) ''.crt'') of
             None \<Rightarrow> Inl (''open '' @ ps_ca_ref s @ ''.crt'')
           | Some ca \<Rightarrow>
        (case fs (pki_path (ps_client_ref s) ''.crt'') of
             None \<Rightarrow> Inl (''open '' @ ps_client_ref s @ ''.crt'')
           | Some crt \<Rightarrow>
        (case fs (pki_path (ps_client_ref s) ''.key'') of
             None \<Rightarrow> Inl (''open '' @ ps_client_ref s @ ''.key'')
           | Some key \<Rightarrow>
        (case load_cert fs (pki_path (ps_client_ref s) ''.crt'') of
             None \<Rightarrow> Inl (ps_client_ref s @ ''.crt: no certificate'')
           | Some c \<Rightarrow> Inr (KubeconfFile ca (ps_server s) (path_base (ps_name s)) (c_cn c) crt key)))))"

definition reconcile_kubeconfig :: "pki_env \<Rightarrow> pki_spec \<Rightarrow> pki_st \<Rightarrow> string + pki_st" where
  "reconcile_kubeconfig env s st =
     and_then (kubeconfig_content (files st) s) (\<lambda>c.
       let out = pki_path (ps_name s) ''.kubeconfig''
       in if files st out = Some c then Inr st else write_file env out c st)"

subsection \<open>A run\<close>

definition reconcile_spec :: "pki_env \<Rightarrow> pki_spec list \<Rightarrow> pki_st \<Rightarrow> pki_spec \<Rightarrow> string + pki_st" where
  "reconcile_spec env specs st s =
     (if ps_kind s = ''KeyPair'' then reconcile_key_pair env s st
      else if ps_kind s = ''Certificate'' then reconcile_certificate env specs s st
      else if ps_kind s = ''Kubeconfig'' then reconcile_kubeconfig env s st
      else Inr st)"

definition passes :: "(pki_spec \<Rightarrow> bool) list" where
  "passes = [\<lambda>s. ps_kind s = ''KeyPair'', \<lambda>s. ps_kind s = ''Certificate'' \<and> ps_ca s,
             \<lambda>s. ps_kind s = ''Certificate'' \<and> \<not> ps_ca s, \<lambda>s. ps_kind s = ''Kubeconfig'']"

text \<open>The specs in the order they are reconciled.\<close>

definition schedule_specs :: "pki_spec list \<Rightarrow> pki_spec list" where
  "schedule_specs specs = concat (map (\<lambda>p. filter p specs) passes)"

definition run_pki :: "pki_env \<Rightarrow> pki_spec list \<Rightarrow> pki_st \<Rightarrow> string + pki_st" where
  "run_pki env specs st = foldr_err (reconcile_spec env specs) st (schedule_specs specs)"

text \<open>\<^verbatim>\<open>loadSpecs\<close>: what the walk meets, in order.  \<open>w_read\<close>: the read failed, or the file is not YAML of a
  spec (\<open>None\<close>), or its apiVersion and spec.\<close>

record walk_entry =
  w_path :: string
  w_err :: "string option"
  w_dir :: bool
  w_read :: "string + (string \<times> pki_spec) option"

definition pki_api_version :: string where
  "pki_api_version = ''kube-on-macos.io/v1alpha1''"

definition load_one :: "pki_spec list \<Rightarrow> walk_entry \<Rightarrow> string + pki_spec list" where
  "load_one specs e =
     (case w_err e of
        Some err \<Rightarrow> Inl err
      | None \<Rightarrow>
          if w_dir e \<or> \<not> has_suffix (w_path e) ''.yaml'' then Inr specs
          else (case w_read e of
                  Inl err \<Rightarrow> Inl err
                | Inr None \<Rightarrow> Inr specs
                | Inr (Some (v, s)) \<Rightarrow>
                    if v \<noteq> pki_api_version then Inr specs
                    else if ps_kind s \<notin> {''Certificate'', ''KeyPair'', ''Kubeconfig''}
                      then Inl (w_path e @ '': unknown kind '' @ ps_kind s)
                    else Inr (specs @ [s\<lparr>ps_name := trim_suffix (w_path e) ''.yaml''\<rparr>])))"

definition load_specs :: "walk_entry list \<Rightarrow> string + pki_spec list" where
  "load_specs walk = and_then (foldr_err load_one [] walk) (\<lambda>specs. Inr (sort_key ps_name specs))"

definition pki_main :: "pki_env \<Rightarrow> walk_entry list \<Rightarrow> pki_st \<Rightarrow> string + pki_st" where
  "pki_main env walk st =
     and_then (load_specs walk) (\<lambda>specs.
       if specs = [] then Inl ''no pki specs found'' else run_pki env specs st)"

end
