(* ===== verification/Pki_Props.thy ===== *)
theory Pki_Props imports Pki "HOL-Library.Product_Lexorder" begin

text \<open>
  What a run of the PKI reconciler achieves: every spec is settled when it ends, so a second run
  changes nothing; and the cases in which it does not get there.
\<close>

subsection \<open>Comparisons\<close>

lemma string_set_equal_iff: "string_set_equal a b \<longleftrightarrow> mset a = mset b"
proof -
  have "mset a = mset b \<longleftrightarrow> sort a = sort b"
    by (metis mset_sort properties_for_sort sorted_sort)
  also have "\<dots> \<longleftrightarrow> length a = length b \<and> (\<forall>i < length a. sort a ! i = sort b ! i)"
    by (simp add: list_eq_iff_nth_eq)
  finally show ?thesis by (auto simp: string_set_equal_def list_all_iff)
qed

lemma add_ips: "foldr_err add_ip ips0 ips = Inr r \<Longrightarrow> r = ips0 @ List.map_filter parse_ip ips"
proof (induction ips arbitrary: ips0)
  case (Cons ip ips)
  have "add_ip ips0 ip = (case parse_ip ip of None \<Rightarrow> Inl (''bad ipAddress '' @ ip) | Some p \<Rightarrow> Inr (ips0 @ [p]))"
    by (rule add_ip_def)
  with Cons.prems obtain p where p: "parse_ip ip = Some p" "foldr_err add_ip (ips0 @ [p]) ips = Inr r"
    by (cases "parse_ip ip") auto
  from Cons.IH [OF p(2)] p(1) show ?case by (simp add: List.map_filter_simps)
qed (simp add: List.map_filter_simps)

subsection \<open>Settled specs\<close>

text \<open>A spec whose material is as it should be.\<close>

definition settled :: "int \<Rightarrow> pki_spec list \<Rightarrow> store \<Rightarrow> pki_spec \<Rightarrow> bool" where
  "settled now specs fs s \<longleftrightarrow>
     (if ps_kind s = ''KeyPair'' then
        (\<exists>k. load_key fs (pki_path (ps_name s) ''.key'') = Some k \<and> fs (pki_path (ps_name s) ''.pub'') = Some (PubFile k))
      else if ps_kind s = ''Certificate'' then
        (\<exists>iss. issuer_of specs fs s = Inr iss \<and> cert_drift now fs s (map_option fst iss) = NoDrift)
      else if ps_kind s = ''Kubeconfig'' then
        (\<exists>c. kubeconfig_content fs s = Inr c \<and> fs (pki_path (ps_name s) ''.kubeconfig'') = Some c)
      else True)"

lemma settled_stays: "settled (pe_now env) specs (files st) s \<Longrightarrow> reconcile_spec env specs st s = Inr st"
  by (auto simp: settled_def reconcile_spec_def reconcile_key_pair_def reconcile_certificate_def
      reconcile_kubeconfig_def Let_def split: if_splits)

text \<open>The paths a spec writes and reads.\<close>

definition writes :: "pki_spec \<Rightarrow> string set" where
  "writes s =
     (if ps_kind s = ''KeyPair'' then {pki_path (ps_name s) ''.key'', pki_path (ps_name s) ''.pub''}
      else if ps_kind s = ''Certificate'' then {pki_path (ps_name s) ''.key'', pki_path (ps_name s) ''.crt''}
      else if ps_kind s = ''Kubeconfig'' then {pki_path (ps_name s) ''.kubeconfig''} else {})"

definition issuer_reads :: "pki_spec list \<Rightarrow> pki_spec \<Rightarrow> string set" where
  "issuer_reads specs s =
     (if ps_kind s \<noteq> ''Certificate'' \<or> ps_issuer s = [] \<or> find_spec specs (ps_issuer s) = None then {}
      else {pki_path (ps_issuer s) ''.crt'', pki_path (ps_issuer s) ''.key''})"

definition ref_reads :: "pki_spec \<Rightarrow> string set" where
  "ref_reads s =
     (if ps_kind s \<noteq> ''Kubeconfig'' then {}
      else {pki_path (ps_ca_ref s) ''.crt'', pki_path (ps_client_ref s) ''.crt'', pki_path (ps_client_ref s) ''.key''})"

definition reads :: "pki_spec list \<Rightarrow> pki_spec \<Rightarrow> string set" where
  "reads specs s = writes s \<union> issuer_reads specs s \<union> ref_reads s"

lemma write_file_Inr: "write_file env p c st = Inr st' \<longleftrightarrow> pe_write env p = None \<and> st' = st\<lparr>files := (files st)(p \<mapsto> c)\<rparr>"
  by (auto simp: write_file_def split: option.split)

lemma generate_key_files: "generate_key a st = Inr (k, st1) \<Longrightarrow> files st1 = files st"
  by (auto simp: generate_key_def split: if_splits)

lemma ensure_key_Inr:
  assumes "ensure_key env p st = Inr (k, st1)"
  shows "load_key (files st1) p = Some k \<and> (\<forall>q. q \<noteq> p \<longrightarrow> files st1 q = files st q)"
  using assms generate_key_files
  by (auto simp: ensure_key_def write_file_Inr load_key_def split: option.splits content.splits)

lemma key_pair_frame:
  assumes "reconcile_key_pair env s st = Inr st'" and "p \<noteq> pki_path (ps_name s) ''.key''" and "p \<noteq> pki_path (ps_name s) ''.pub''"
  shows "files st' p = files st p"
  using assms by (auto simp: reconcile_key_pair_def write_file_Inr Let_def split: if_splits option.splits dest: generate_key_files)

lemma certificate_frame:
  assumes "reconcile_certificate env specs s st = Inr st'" and "p \<noteq> pki_path (ps_name s) ''.key''" and "p \<noteq> pki_path (ps_name s) ''.crt''"
  shows "files st' p = files st p"
  using assms by (auto simp: reconcile_certificate_def write_file_Inr split: if_splits dest: ensure_key_Inr)

lemma kubeconfig_frame:
  assumes "reconcile_kubeconfig env s st = Inr st'" and "p \<noteq> pki_path (ps_name s) ''.kubeconfig''"
  shows "files st' p = files st p"
  using assms by (auto simp: reconcile_kubeconfig_def write_file_Inr Let_def split: if_splits)

lemma reconcile_frame:
  "reconcile_spec env specs st s = Inr st' \<Longrightarrow> p \<notin> writes s \<Longrightarrow> files st' p = files st p"
  unfolding reconcile_spec_def writes_def
  by (simp split: if_splits add: key_pair_frame certificate_frame kubeconfig_frame)

lemma issuer_of_cong:
  assumes "\<forall>p \<in> issuer_reads specs s. fs p = fs' p" and "ps_kind s = ''Certificate''"
  shows "issuer_of specs fs s = issuer_of specs fs' s"
proof (cases "ps_issuer s = [] \<or> find_spec specs (ps_issuer s) = None")
  case True then show ?thesis by (auto simp: issuer_of_def Let_def)
next
  case False
  then have e: "fs (pki_path (ps_issuer s) ''.crt'') = fs' (pki_path (ps_issuer s) ''.crt'')"
    "fs (pki_path (ps_issuer s) ''.key'') = fs' (pki_path (ps_issuer s) ''.key'')"
    using assms by (auto simp: issuer_reads_def)
  show ?thesis unfolding issuer_of_def Let_def load_key_def load_cert_def e ..
qed

lemma cert_drift_cong:
  assumes "fs (pki_path (ps_name s) ''.crt'') = fs' (pki_path (ps_name s) ''.crt'')"
    and "fs (pki_path (ps_name s) ''.key'') = fs' (pki_path (ps_name s) ''.key'')"
  shows "cert_drift now fs s iss = cert_drift now fs' s iss"
  unfolding cert_drift_def load_key_def load_cert_def assms ..

lemma kubeconfig_cong:
  assumes "\<forall>p \<in> ref_reads s. fs p = fs' p" and "ps_kind s = ''Kubeconfig''"
  shows "kubeconfig_content fs s = kubeconfig_content fs' s"
proof -
  have e: "fs (pki_path (ps_ca_ref s) ''.crt'') = fs' (pki_path (ps_ca_ref s) ''.crt'')"
    "fs (pki_path (ps_client_ref s) ''.crt'') = fs' (pki_path (ps_client_ref s) ''.crt'')"
    "fs (pki_path (ps_client_ref s) ''.key'') = fs' (pki_path (ps_client_ref s) ''.key'')"
    using assms by (simp_all add: ref_reads_def)
  show ?thesis unfolding kubeconfig_content_def load_cert_def e ..
qed

lemma settled_cong:
  assumes "settled now specs fs s" and "\<forall>p \<in> reads specs s. fs p = fs' p"
  shows "settled now specs fs' s"
proof -
  have w: "p \<in> writes s \<Longrightarrow> fs' p = fs p" and i: "\<forall>p \<in> issuer_reads specs s. fs' p = fs p"
    and r: "\<forall>p \<in> ref_reads s. fs' p = fs p" for p
    using assms(2) by (auto simp: reads_def)
  consider "ps_kind s = ''KeyPair''" | "ps_kind s = ''Certificate''" | "ps_kind s = ''Kubeconfig''"
    | "ps_kind s \<notin> {''KeyPair'', ''Certificate'', ''Kubeconfig''}" by blast
  then show ?thesis
  proof cases
    case 1
    then show ?thesis using assms(1) w
      by (simp add: settled_def writes_def load_key_def)
  next
    case 2
    then have "cert_drift now fs' s iss = cert_drift now fs s iss" for iss
      by (intro cert_drift_cong w) (simp_all add: writes_def)
    then show ?thesis using 2 assms(1) issuer_of_cong [OF i] by (simp add: settled_def)
  next
    case 3
    then show ?thesis using assms(1) kubeconfig_cong [OF r] w by (simp add: settled_def writes_def)
  qed (simp add: settled_def)
qed

subsection \<open>A reconciled spec is settled\<close>

text \<open>Validity of at least thirty days, and a second for the rounding of the encoding.\<close>

definition long_enough :: "pki_env \<Rightarrow> pki_spec \<Rightarrow> bool" where
  "long_enough env s \<longleftrightarrow> (case spec_duration env s of Inl _ \<Rightarrow> True | Inr d \<Rightarrow> month + 10 ^ 9 \<le> d)"

lemma key_pair_settles:
  assumes "reconcile_key_pair env s st = Inr st'"
    and "pki_path (ps_name s) ''.key'' \<noteq> pki_path (ps_name s) ''.pub''"
  shows "\<exists>k. load_key (files st') (pki_path (ps_name s) ''.key'') = Some k
     \<and> files st' (pki_path (ps_name s) ''.pub'') = Some (PubFile k)"
  using assms by (auto simp: reconcile_key_pair_def write_file_Inr load_key_def Let_def split: if_splits option.splits content.splits)

lemma map_filter_all: "foldr_err add_ip [] ips = Inr r \<Longrightarrow> r = List.map_filter parse_ip ips"
  using add_ips [of "[]"] by simp

lemma usages_equal_want: "usages_equal (want_usages s) s"
  by (simp add: usages_equal_def Let_def list_all_iff)

lemma certificate_settles:
  assumes r: "reconcile_certificate env specs s st = Inr st'" and d: "long_enough env s"
    and i: "issuer_of specs (files st) s = Inr iss" and same: "issuer_of specs (files st') s = Inr iss"
    and ca: "\<And>c k. iss = Some (c, k) \<Longrightarrow> c_isca c"
    and diff: "pki_path (ps_name s) ''.key'' \<noteq> pki_path (ps_name s) ''.crt''"
  shows "cert_drift (pe_now env) (files st') s (map_option fst iss) = NoDrift"
proof (cases "cert_drift (pe_now env) (files st) s (map_option fst iss) = NoDrift")
  case True
  then show ?thesis using r i by (simp add: reconcile_certificate_def)
next
  case False
  let ?key = "pki_path (ps_name s) ''.key''" and ?crt = "pki_path (ps_name s) ''.crt''"
  obtain k st1 t c where k: "ensure_key env ?key st = Inr (k, st1)"
      and t: "cert_template env s k (case iss of Some (p, ik) \<Rightarrow> ik | None \<Rightarrow> k) = Inr t"
      and c: "create_certificate t iss = Inr c" and w: "st' = st1\<lparr>files := (files st1)(?crt \<mapsto> CertFile c)\<rparr>"
    using r i False by (auto simp: reconcile_certificate_def write_file_Inr)
  obtain dur ips where dur: "spec_duration env s = Inr dur" and ips: "foldr_err add_ip [] (ps_ips s) = Inr ips"
      and tv: "t = \<lparr>c_cn = ps_cn s, c_orgs = ps_orgs s, c_dns = ps_dns s, c_ips = ips, c_isca = ps_ca s,
            c_eku = want_usages s, c_pub = k, c_signer = (case iss of Some (p, ik) \<Rightarrow> ik | None \<Rightarrow> k),
            c_not_after = (pe_now env + dur) div 10 ^ 9 * 10 ^ 9\<rparr>"
    using t by (auto simp: cert_template_def)
  have ct: "c = t" and ik: "\<And>p q. iss = Some (p, q) \<Longrightarrow> c_pub p = q"
    using c by (auto simp: create_certificate_def split: if_splits option.splits prod.splits)
  have load: "load_cert (files st') ?crt = Some t" "load_key (files st') ?key = Some k"
    using w ct diff ensure_key_Inr [OF k] by (simp_all add: load_cert_def load_key_def)
  have long: "\<not> c_not_after t - pe_now env < month"
  proof -
    have "month + 10 ^ 9 \<le> dur" using d dur by (simp add: long_enough_def)
    moreover have "(pe_now env + dur) - 10 ^ 9 < (pe_now env + dur) div 10 ^ 9 * 10 ^ 9"
      by (metis add.commute add_diff_cancel_left' diff_less_eq div_mult_mod_eq pos_mod_bound zero_less_numeral zero_less_power add_less_cancel_left)
    ultimately show ?thesis unfolding tv by simp
  qed
  have ipseq: "ips = List.map_filter parse_ip (ps_ips s)" using map_filter_all ips by blast
  have drift: "(case map_option fst iss of Some p \<Rightarrow> \<not> signed_from t p | None \<Rightarrow> False) = False"
    using ca ik by (cases iss) (auto simp: signed_from_def tv)
  have "map_option fst iss = None \<Longrightarrow> ps_ca s"
    using i by (auto simp: issuer_of_def Let_def split: if_splits option.splits)
  then have self: "\<not> (map_option fst iss = None \<and> \<not> signed_from t t)"
    by (cases iss) (auto simp: signed_from_def tv)
  have same_spec: "c_pub t = k" "c_cn t = ps_cn s" "string_set_equal (c_orgs t) (ps_orgs s)" "c_isca t = ps_ca s"
      "string_set_equal (c_dns t) (ps_dns s)" "usages_equal (c_eku t) s"
      "string_set_equal (map show_ip (c_ips t)) (map show_ip (List.map_filter parse_ip (ps_ips s)))"
    using ipseq by (simp_all add: tv string_set_equal_iff usages_equal_want)
  show ?thesis
    unfolding cert_drift_def load option.case drift same_spec(1,2,4)
    using self long by (simp only: same_spec simp_thms if_True if_False)
qed

lemma kubeconfig_settles:
  assumes "reconcile_kubeconfig env s st = Inr st'" and "pki_path (ps_name s) ''.kubeconfig'' \<notin> ref_reads s"
    and "ps_kind s = ''Kubeconfig''"
  shows "\<exists>c. kubeconfig_content (files st') s = Inr c \<and> files st' (pki_path (ps_name s) ''.kubeconfig'') = Some c"
proof -
  obtain c where c: "kubeconfig_content (files st) s = Inr c" using assms(1) by (auto simp: reconcile_kubeconfig_def)
  have "\<forall>p \<in> ref_reads s. files st p = files st' p"
    using kubeconfig_frame [OF assms(1)] assms(2) by metis
  then have "kubeconfig_content (files st') s = Inr c" using kubeconfig_cong [OF _ assms(3)] c by metis
  moreover have "files st' (pki_path (ps_name s) ''.kubeconfig'') = Some c"
    using assms(1) c by (auto simp: reconcile_kubeconfig_def write_file_Inr Let_def split: if_splits)
  ultimately show ?thesis by blast
qed

subsection \<open>Order\<close>

definition undisturbed :: "pki_spec list \<Rightarrow> pki_spec list \<Rightarrow> bool" where
  "undisturbed specs ss \<longleftrightarrow> sorted_wrt (\<lambda>x y. writes y \<inter> reads specs x = {}) ss"

lemma undisturbed_append: "undisturbed specs (xs @ ys) \<longleftrightarrow> undisturbed specs xs \<and> undisturbed specs ys
    \<and> (\<forall>x \<in> set xs. \<forall>y \<in> set ys. writes y \<inter> reads specs x = {})"
  by (auto simp: undisturbed_def sorted_wrt_append)

text \<open>The issuer of a certificate comes before it.\<close>

fun issuers_before :: "pki_spec list \<Rightarrow> pki_spec list \<Rightarrow> pki_spec list \<Rightarrow> bool" where
  "issuers_before specs seen [] = True"
| "issuers_before specs seen (s # ss) =
     ((ps_kind s = ''Certificate'' \<and> ps_issuer s \<noteq> [] \<longrightarrow>
        (case find_spec specs (ps_issuer s) of
           None \<Rightarrow> True
         | Some i \<Rightarrow> ps_kind i = ''Certificate'' \<and> ps_ca i \<longrightarrow> i \<in> set seen))
      \<and> issuers_before specs (seen @ [s]) ss)"

definition own_paths_apart :: "pki_spec list \<Rightarrow> pki_spec \<Rightarrow> bool" where
  "own_paths_apart specs s \<longleftrightarrow>
     pki_path (ps_name s) ''.key'' \<noteq> pki_path (ps_name s) ''.pub''
     \<and> pki_path (ps_name s) ''.key'' \<noteq> pki_path (ps_name s) ''.crt''
     \<and> pki_path (ps_name s) ''.kubeconfig'' \<notin> ref_reads s \<and> writes s \<inter> issuer_reads specs s = {}"

lemma settled_issuer_ca:
  assumes "settled now specs fs i" and "ps_kind i = ''Certificate''" and "ps_ca i"
    and "load_cert fs (pki_path (ps_name i) ''.crt'') = Some c"
  shows "c_isca c"
proof -
  have "\<exists>iss. issuer_of specs fs i = Inr iss \<and> cert_drift now fs i (map_option fst iss) = NoDrift"
    using assms(1,2) by (simp add: settled_def)
  then obtain iss where "issuer_of specs fs i = Inr iss" "cert_drift now fs i (map_option fst iss) = NoDrift" by blast
  then show ?thesis using assms(3,4) by (auto simp: cert_drift_def split: option.splits if_splits)
qed

lemma find_spec_name: "find_spec specs n = Some i \<Longrightarrow> i \<in> set specs \<and> ps_name i = n"
  by (auto simp: find_spec_def find_Some_iff)

lemma reconcile_settles:
  assumes r: "reconcile_spec env specs st s = Inr st'" and apart: "own_paths_apart specs s" and d: "long_enough env s"
    and seen: "\<forall>x \<in> set seen. settled (pe_now env) specs (files st) x" and before: "issuers_before specs seen [s]"
  shows "settled (pe_now env) specs (files st') s"
proof -
  consider "ps_kind s = ''KeyPair''" | "ps_kind s = ''Certificate''" | "ps_kind s = ''Kubeconfig''"
    | "ps_kind s \<notin> {''KeyPair'', ''Certificate'', ''Kubeconfig''}" by blast
  then show ?thesis
  proof cases
    case 1
    then show ?thesis using r apart key_pair_settles [of env s st st'] by (simp add: settled_def reconcile_spec_def own_paths_apart_def)
  next
    case 2
    then have rc: "reconcile_certificate env specs s st = Inr st'" using r by (simp add: reconcile_spec_def)
    then obtain iss where i: "issuer_of specs (files st) s = Inr iss" by (auto simp: reconcile_certificate_def)
    have "\<forall>p \<in> issuer_reads specs s. files st p = files st' p"
      using reconcile_frame [OF r] apart unfolding own_paths_apart_def by (metis disjoint_iff)
    then have same: "issuer_of specs (files st') s = Inr iss" using issuer_of_cong [OF _ 2] i by metis
    have ca: "c_isca c" if iss: "iss = Some (c, k)" for c k
    proof -
      obtain x where x: "find_spec specs (ps_issuer s) = Some x" "ps_kind x = ''Certificate''" "ps_ca x" "ps_issuer s \<noteq> []"
          "load_cert (files st) (pki_path (ps_issuer s) ''.crt'') = Some c"
        using i iss by (auto simp: issuer_of_def Let_def split: if_splits option.splits)
      then have "settled (pe_now env) specs (files st) x" using before 2 seen by auto
      then show ?thesis using settled_issuer_ca [OF _ x(2,3)] x(1,5) find_spec_name by metis
    qed
    have "cert_drift (pe_now env) (files st') s (map_option fst iss) = NoDrift"
      using certificate_settles [OF rc d i same ca] apart by (simp add: own_paths_apart_def)
    then show ?thesis using 2 same by (simp add: settled_def)
  next
    case 3
    then show ?thesis using r apart kubeconfig_settles [of env s st st'] by (simp add: settled_def reconcile_spec_def own_paths_apart_def)
  qed (simp add: settled_def)
qed

lemma run_settles:
  assumes "foldr_err (reconcile_spec env specs) st todo = Inr st'"
    and "\<forall>x \<in> set seen. settled (pe_now env) specs (files st) x"
    and "undisturbed specs (seen @ todo)" and "issuers_before specs seen todo"
    and "\<forall>s \<in> set todo. own_paths_apart specs s \<and> long_enough env s"
  shows "\<forall>x \<in> set (seen @ todo). settled (pe_now env) specs (files st') x"
  using assms
proof (induction todo arbitrary: st seen)
  case (Cons s ss)
  obtain st1 where r: "reconcile_spec env specs st s = Inr st1" and rest: "foldr_err (reconcile_spec env specs) st1 ss = Inr st'"
    using Cons.prems(1) by auto
  have new: "settled (pe_now env) specs (files st1) s"
    using reconcile_settles [OF r _ _ Cons.prems(2)] Cons.prems(4,5) by simp
  have old: "settled (pe_now env) specs (files st1) x" if x: "x \<in> set seen" for x
  proof (rule settled_cong)
    show "settled (pe_now env) specs (files st) x" using Cons.prems(2) x by blast
    have "writes s \<inter> reads specs x = {}" using Cons.prems(3) x by (auto simp: undisturbed_append)
    then show "\<forall>p \<in> reads specs x. files st p = files st1 p" using reconcile_frame [OF r] by (metis disjoint_iff)
  qed
  have "\<forall>x \<in> set ((seen @ [s]) @ ss). settled (pe_now env) specs (files st') x"
    using Cons.prems new old by (intro Cons.IH [OF rest]) auto
  then show ?case by simp
qed simp

lemma settled_run: "\<forall>x \<in> set todo. settled (pe_now env) specs (files st) x
    \<Longrightarrow> foldr_err (reconcile_spec env specs) st todo = Inr st"
  by (induction todo) (simp_all add: settled_stays)

subsection \<open>The schedule of a well-formed set of specs\<close>

definition extensions :: "string list" where
  "extensions = [''.key'', ''.pub'', ''.crt'', ''.kubeconfig'']"

definition clean_name :: "string \<Rightarrow> bool" where
  "clean_name n \<longleftrightarrow> (\<forall>e \<in> set extensions. path_clean (n @ e) = n @ e)"

text \<open>Sorted by name, as \<^verbatim>\<open>loadSpecs\<close> leaves them, and every reference resolves: an issuer is a CA certificate
  of another name, the issuer of a CA comes before it in name order, a kubeconfig refers to specs.\<close>

definition pki_ok :: "pki_env \<Rightarrow> pki_spec list \<Rightarrow> bool" where
  "pki_ok env specs \<longleftrightarrow>
     sorted_wrt (<) (map ps_name specs)
     \<and> (\<forall>s \<in> set specs. clean_name (ps_name s) \<and> long_enough env s
          \<and> (ps_kind s = ''Certificate'' \<and> ps_issuer s \<noteq> [] \<longrightarrow>
               list_ex (\<lambda>i. ps_name i = ps_issuer s \<and> ps_kind i = ''Certificate'' \<and> ps_ca i) specs
               \<and> ps_issuer s \<noteq> ps_name s \<and> (ps_ca s \<longrightarrow> ps_issuer s < ps_name s))
          \<and> (ps_kind s = ''Kubeconfig'' \<longrightarrow>
               ps_ca_ref s \<in> set (map ps_name specs) \<and> ps_client_ref s \<in> set (map ps_name specs)))"

lemma clean_path: "clean_name n \<Longrightarrow> e \<in> set extensions \<Longrightarrow> pki_path n e = n @ e"
  by (simp add: clean_name_def pki_path_def)

lemma clean_path_ext [simp]:
  assumes "clean_name n"
  shows "pki_path n ''.key'' = n @ ''.key''" "pki_path n ''.pub'' = n @ ''.pub''"
    "pki_path n ''.crt'' = n @ ''.crt''" "pki_path n ''.kubeconfig'' = n @ ''.kubeconfig''"
  using clean_path [OF assms] by (simp_all add: extensions_def)

lemma ext_eq [simp]:
  "m @ ''.key'' \<noteq> n @ ''.pub''" "m @ ''.key'' \<noteq> n @ ''.crt''" "m @ ''.key'' \<noteq> n @ ''.kubeconfig''"
  "m @ ''.pub'' \<noteq> n @ ''.key''" "m @ ''.pub'' \<noteq> n @ ''.crt''" "m @ ''.pub'' \<noteq> n @ ''.kubeconfig''"
  "m @ ''.crt'' \<noteq> n @ ''.key''" "m @ ''.crt'' \<noteq> n @ ''.pub''" "m @ ''.crt'' \<noteq> n @ ''.kubeconfig''"
  "m @ ''.kubeconfig'' \<noteq> n @ ''.key''" "m @ ''.kubeconfig'' \<noteq> n @ ''.pub''" "m @ ''.kubeconfig'' \<noteq> n @ ''.crt''"
  by (auto dest: arg_cong [where f = last] arg_cong [where f = "\<lambda>s. last (butlast s)"] simp: butlast_append)

text \<open>The passes of \<^verbatim>\<open>main\<close> in the order it makes them, and the place of a spec in the whole run: its pass,
  then its name.  Both are linear orders, so what precedes what is decided by the order laws.\<close>

datatype pki_pass = KeyPairs | CaCerts | LeafCerts | OtherSpecs

primrec pass_index :: "pki_pass \<Rightarrow> nat" where
  "pass_index KeyPairs = 0"
| "pass_index CaCerts = 1"
| "pass_index LeafCerts = 2"
| "pass_index OtherSpecs = 3"

instantiation pki_pass :: linorder
begin

definition less_eq_pki_pass :: "pki_pass \<Rightarrow> pki_pass \<Rightarrow> bool" where
  "less_eq_pki_pass a b \<longleftrightarrow> pass_index a \<le> pass_index b"

definition less_pki_pass :: "pki_pass \<Rightarrow> pki_pass \<Rightarrow> bool" where
  "less_pki_pass a b \<longleftrightarrow> pass_index a < pass_index b"

instance
proof
  fix a b :: pki_pass
  show "a = b" if "a \<le> b" "b \<le> a"
    using that by (cases a; cases b) (simp_all add: less_eq_pki_pass_def)
qed (auto simp: less_eq_pki_pass_def less_pki_pass_def)

end

lemma pass_order [simp]:
  fixes a b :: pki_pass
  shows "a \<le> b \<longleftrightarrow> pass_index a \<le> pass_index b" and "a < b \<longleftrightarrow> pass_index a < pass_index b"
  by (simp_all add: less_eq_pki_pass_def less_pki_pass_def)

fun pass_of :: "pki_spec \<Rightarrow> pki_pass" where
  "pass_of s = (if ps_kind s = ''KeyPair'' then KeyPairs else if ps_kind s = ''Certificate'' \<and> ps_ca s then CaCerts
                else if ps_kind s = ''Certificate'' then LeafCerts else OtherSpecs)"

definition comes_before :: "pki_spec \<Rightarrow> pki_spec \<Rightarrow> bool" where
  "comes_before x y \<longleftrightarrow> (pass_of x, ps_name x) < (pass_of y, ps_name y)"

lemma comes_before_asym: "comes_before x y \<Longrightarrow> comes_before y x \<Longrightarrow> False" "comes_before x x \<Longrightarrow> False"
  unfolding comes_before_def by (blast dest: order_less_asym) simp

lemma schedule_sorted:
  assumes "sorted_wrt (<) (map ps_name specs)"
  shows "sorted_wrt comes_before (schedule_specs specs)"
proof -
  have one: "sorted_wrt comes_before (filter P specs)" if P: "\<And>x y. P x \<Longrightarrow> P y \<Longrightarrow> pass_of x = pass_of y" for P
  proof (rule sorted_wrt_mono_rel)
    show "sorted_wrt (\<lambda>x y. ps_name x < ps_name y) (filter P specs)"
      using assms by (simp add: sorted_wrt_map sorted_wrt_filter)
    show "comes_before x y" if "x \<in> set (filter P specs)" "y \<in> set (filter P specs)" "ps_name x < ps_name y" for x y
      using that P [of x y] by (simp add: comes_before_def del: pass_of.simps)
  qed
  show ?thesis
    by (auto simp: schedule_specs_def passes_def sorted_wrt_append intro!: one) (auto simp: comes_before_def)
qed

lemma schedule_subset: "x \<in> set (schedule_specs specs) \<Longrightarrow> x \<in> set specs"
  by (auto simp: schedule_specs_def passes_def)

lemma schedule_covers: "x \<in> set specs \<Longrightarrow> ps_kind x \<in> {''KeyPair'', ''Certificate'', ''Kubeconfig''} \<Longrightarrow> x \<in> set (schedule_specs specs)"
  by (auto simp: schedule_specs_def passes_def)

lemma pki_ok_spec:
  assumes "pki_ok env specs" and "s \<in> set specs"
  shows "clean_name (ps_name s)" "long_enough env s"
  using assms by (auto simp: pki_ok_def)

lemma pki_ok_unique:
  assumes "pki_ok env specs" and "x \<in> set specs" and "y \<in> set specs" and "ps_name x = ps_name y"
  shows "x = y"
proof -
  have "distinct (map ps_name specs)" using assms(1) by (auto simp: pki_ok_def strict_sorted_iff)
  then show ?thesis using assms(2-4) by (simp add: distinct_map inj_on_def)
qed

lemma pki_ok_issuer:
  assumes "pki_ok env specs" and "s \<in> set specs" and "ps_kind s = ''Certificate''" and "ps_issuer s \<noteq> []"
  obtains i where "i \<in> set specs" "ps_name i = ps_issuer s" "ps_kind i = ''Certificate''" "ps_ca i"
    "find_spec specs (ps_issuer s) = Some i" "comes_before i s" "ps_issuer s \<noteq> ps_name s"
proof -
  have "list_ex (\<lambda>i. ps_name i = ps_issuer s \<and> ps_kind i = ''Certificate'' \<and> ps_ca i) specs" "ps_issuer s \<noteq> ps_name s"
    and lt: "ps_ca s \<Longrightarrow> ps_issuer s < ps_name s" using assms by (auto simp: pki_ok_def)
  then obtain i where i: "i \<in> set specs" "ps_name i = ps_issuer s" "ps_kind i = ''Certificate''" "ps_ca i" "ps_issuer s \<noteq> ps_name s"
    by (auto simp: list_ex_iff)
  have "find_spec specs (ps_issuer s) \<noteq> None" using i by (auto simp: find_spec_def find_None_iff)
  then obtain j where "find_spec specs (ps_issuer s) = Some j" by blast
  then have "find_spec specs (ps_issuer s) = Some i" using find_spec_name pki_ok_unique [OF assms(1)] i(1,2) by metis
  moreover have "comes_before i s" using i assms(3) lt by (auto simp: comes_before_def)
  ultimately show ?thesis using that i by blast
qed

lemma find_spec_inj:
  assumes "inj_on ps_name (set specs)" and "i \<in> set specs"
  shows "find_spec specs (ps_name i) = Some i"
proof -
  have "find_spec specs (ps_name i) \<noteq> None" using assms(2) by (auto simp: find_spec_def find_None_iff)
  then obtain j where "find_spec specs (ps_name i) = Some j" by blast
  then show ?thesis using find_spec_name assms by (metis inj_onD)
qed

lemma pki_ok_refs:
  assumes "pki_ok env specs" and "s \<in> set specs" and "ps_kind s = ''Kubeconfig''"
  shows "clean_name (ps_ca_ref s)" "clean_name (ps_client_ref s)"
proof -
  have "ps_ca_ref s \<in> ps_name ` set specs" "ps_client_ref s \<in> ps_name ` set specs"
    using assms by (simp_all add: pki_ok_def)
  then show "clean_name (ps_ca_ref s)" "clean_name (ps_client_ref s)"
    using pki_ok_spec(1) [OF assms(1)] by (metis imageE)+
qed

lemma own_paths_apart_ok:
  assumes ok: "pki_ok env specs" and s: "s \<in> set specs"
  shows "own_paths_apart specs s"
proof -
  have "pki_path (ps_name s) ''.kubeconfig'' \<notin> ref_reads s"
  proof (cases "ps_kind s = ''Kubeconfig''")
    case True
    then have "clean_name (ps_ca_ref s)" "clean_name (ps_client_ref s)" using pki_ok_refs [OF ok s] by auto
    then show ?thesis using pki_ok_spec(1) [OF ok s] by (simp add: ref_reads_def)
  qed (simp add: ref_reads_def)
  moreover have "writes s \<inter> issuer_reads specs s = {}"
  proof (cases "ps_kind s = ''Certificate'' \<and> ps_issuer s \<noteq> []")
    case True
    then obtain i where i: "i \<in> set specs" "ps_name i = ps_issuer s" "ps_issuer s \<noteq> ps_name s"
      using pki_ok_issuer [OF ok s] by metis
    have "clean_name (ps_issuer s)" using pki_ok_spec(1) [OF ok i(1)] i(2) by simp
    then show ?thesis using pki_ok_spec(1) [OF ok s] True i(3) by (auto simp: writes_def issuer_reads_def)
  qed (auto simp: issuer_reads_def)
  ultimately show ?thesis using pki_ok_spec(1) [OF ok s] by (simp add: own_paths_apart_def)
qed

lemma writes_names:
  assumes "pki_ok env specs" and "y \<in> set specs" and "p \<in> writes y"
  obtains e where "p = ps_name y @ e" "e \<in> set extensions" "e = ''.kubeconfig'' \<longleftrightarrow> ps_kind y = ''Kubeconfig''"
  using assms pki_ok_spec(1) [OF assms(1,2)] that
  by (auto simp: writes_def extensions_def split: if_splits)

lemma later_leaves_alone:
  assumes ok: "pki_ok env specs" and x: "x \<in> set specs" and y: "y \<in> set specs" and b: "comes_before x y"
  shows "writes y \<inter> reads specs x = {}"
proof -
  have cx: "clean_name (ps_name x)" and cy: "clean_name (ps_name y)" using pki_ok_spec(1) ok x y by auto
  have ne: "ps_name x \<noteq> ps_name y" using pki_ok_unique [OF ok x y] b comes_before_asym(2) by metis
  have "writes y \<inter> writes x = {}" using ne cx cy by (auto simp: writes_def split: if_splits)
  moreover have "writes y \<inter> issuer_reads specs x = {}"
  proof (cases "ps_kind x = ''Certificate'' \<and> ps_issuer x \<noteq> []")
    case True
    then obtain i where i: "i \<in> set specs" "ps_name i = ps_issuer x" "comes_before i x"
      using pki_ok_issuer [OF ok x] by metis
    have ci: "clean_name (ps_issuer x)" using pki_ok_spec(1) [OF ok i(1)] i(2) by simp
    have "y \<noteq> i" using i(3) b comes_before_asym(1) by blast
    then have "ps_name y \<noteq> ps_issuer x" using pki_ok_unique [OF ok y i(1)] i(2) by metis
    then show ?thesis using ci cy by (auto simp: writes_def issuer_reads_def split: if_splits)
  qed (auto simp: issuer_reads_def)
  moreover have "writes y \<inter> ref_reads x = {}"
  proof (cases "ps_kind x = ''Kubeconfig''")
    case True
    then have c: "clean_name (ps_ca_ref x)" "clean_name (ps_client_ref x)" using pki_ok_refs [OF ok x] by auto
    have "pass_of y = OtherSpecs" using True b by (auto simp: comes_before_def split: if_splits)
    then have "ps_kind y \<noteq> ''KeyPair''" "ps_kind y \<noteq> ''Certificate''" by (auto split: if_splits)
    then show ?thesis using c cy True by (auto simp: writes_def ref_reads_def)
  qed (simp add: ref_reads_def)
  ultimately show ?thesis by (auto simp: reads_def)
qed

lemma schedule_undisturbed:
  assumes "pki_ok env specs"
  shows "undisturbed specs (schedule_specs specs)"
  unfolding undisturbed_def
proof (rule sorted_wrt_mono_rel)
  show "sorted_wrt comes_before (schedule_specs specs)"
    using assms by (simp add: schedule_sorted pki_ok_def)
qed (rule later_leaves_alone [OF assms]; simp add: schedule_subset)

lemma sorted_issuers_before:
  assumes "pki_ok env specs" and "sorted_wrt comes_before (seen @ todo)"
    and "set (seen @ todo) = {s \<in> set specs. ps_kind s \<in> {''KeyPair'', ''Certificate'', ''Kubeconfig''}}"
  shows "issuers_before specs seen todo"
  using assms
proof (induction todo arbitrary: seen)
  case (Cons s ss)
  have s: "s \<in> set specs" using Cons.prems(3) by auto
  have "i \<in> set seen" if iss: "ps_kind s = ''Certificate''" "ps_issuer s \<noteq> []" "find_spec specs (ps_issuer s) = Some i" for i
  proof -
    obtain j where "j \<in> set specs" "ps_kind j = ''Certificate''" "find_spec specs (ps_issuer s) = Some j" "comes_before j s"
      using pki_ok_issuer [OF Cons.prems(1) s iss(1,2)] by metis
    then have "i \<in> set specs" "ps_kind i = ''Certificate''" "comes_before i s" using iss(3) by simp_all
    then have "i \<in> set (seen @ s # ss)" using Cons.prems(3) by blast
    then show ?thesis using Cons.prems(2) \<open>comes_before i s\<close> comes_before_asym
      by (auto simp: sorted_wrt_append)
  qed
  moreover have "issuers_before specs (seen @ [s]) ss" using Cons.prems by (intro Cons.IH) auto
  ultimately show ?case by (auto split: option.split)
qed simp

lemma schedule_set: "set (schedule_specs specs) = {s \<in> set specs. ps_kind s \<in> {''KeyPair'', ''Certificate'', ''Kubeconfig''}}"
  using schedule_subset schedule_covers by (fastforce simp: schedule_specs_def passes_def)

lemma run_settles_all:
  assumes "pki_ok env specs" and "run_pki env specs st = Inr st'" and "s \<in> set specs"
  shows "settled (pe_now env) specs (files st') s"
proof -
  have "issuers_before specs [] (schedule_specs specs)"
    using sorted_issuers_before [OF assms(1), of "[]" "schedule_specs specs"] schedule_set [of specs]
      schedule_sorted assms(1) by (simp add: pki_ok_def)
  moreover have "\<forall>s \<in> set (schedule_specs specs). own_paths_apart specs s \<and> long_enough env s"
    using own_paths_apart_ok [OF assms(1)] pki_ok_spec(2) [OF assms(1)] schedule_subset by metis
  ultimately have "\<forall>x \<in> set (schedule_specs specs). settled (pe_now env) specs (files st') x"
    using run_settles [of env specs st "schedule_specs specs" st' "[]"] assms(2) schedule_undisturbed [OF assms(1)]
    by (simp add: run_pki_def)
  then show ?thesis using schedule_set [of specs] assms(3) by (auto simp: settled_def)
qed

subsection \<open>Properties\<close>

text \<open>The extended usages a spec asks for: none for a CA, both when it names none.\<close>

definition asked_usage :: "pki_spec \<Rightarrow> ext_usage \<Rightarrow> bool" where
  "asked_usage s u \<longleftrightarrow> \<not> ps_ca s \<and>
     (ps_usages s = [] \<or> (case u of ServerAuth \<Rightarrow> ''server auth'' \<in> set (ps_usages s) | ClientAuth \<Rightarrow> ''client auth'' \<in> set (ps_usages s)))"

lemma want_usages_asked: "u \<in> set (want_usages s) \<longleftrightarrow> asked_usage s u"
  by (cases u) (auto simp: want_usages_def asked_usage_def split: if_splits)

lemma want_usages_distinct: "distinct (ps_usages s) \<Longrightarrow> distinct (want_usages s)"
proof -
  have "distinct us \<Longrightarrow> distinct (concat (map (\<lambda>u. if u = ''server auth'' then [ServerAuth] else if u = ''client auth'' then [ClientAuth] else []) us))" for us
    by (induction us) auto
  then show "distinct (ps_usages s) \<Longrightarrow> distinct (want_usages s)" by (simp add: want_usages_def)
qed

lemma usages_equal_asked:
  assumes "usages_equal us s"
  shows "asked_usage s u \<Longrightarrow> u \<in> set us" and "distinct (ps_usages s) \<Longrightarrow> u \<in> set us \<Longrightarrow> asked_usage s u"
proof -
  have e: "length us = length (want_usages s)" "set (want_usages s) \<subseteq> set us"
    using assms by (auto simp: usages_equal_def Let_def list_all_iff split: if_splits)
  then show "asked_usage s u \<Longrightarrow> u \<in> set us" using want_usages_asked by blast
  assume "distinct (ps_usages s)" and u: "u \<in> set us"
  then have "card (set us) \<le> card (set (want_usages s))"
    using distinct_card [OF want_usages_distinct] card_length [of us] e(1) by simp
  then have "set (want_usages s) = set us" using e(2) by (intro card_seteq) simp_all
  then show "asked_usage s u" using u want_usages_asked by blast
qed

text \<open>C2: A successful run converges.  The specs are sorted by distinct clean names, what an issuer or a
  kubeconfig refers to is among them, an intermediate CA sorts after its issuer and no duration is below
  thirty days and a second (\<open>pki_ok\<close>).  Then afterwards every certificate spec has a certificate on disk
  that carries the public key of the key file beside it, the spec's subject, DNS names and IP addresses
  (compared as they print, in any order) and the usages it asks for (exactly those, unless the spec lists a
  usage twice), the signature of its issuer's current certificate (or its own when it has no issuer), and at
  least thirty days of validity.\<close>

theorem pki_run_converges:
  assumes "pki_ok env specs" and "run_pki env specs st = Inr st'" and "s \<in> set specs" and "ps_kind s = ''Certificate''"
  shows "\<exists>c k signer. load_cert (files st') (pki_path (ps_name s) ''.crt'') = Some c
    \<and> load_key (files st') (pki_path (ps_name s) ''.key'') = Some k \<and> c_pub c = k
    \<and> c_cn c = ps_cn s \<and> mset (c_orgs c) = mset (ps_orgs s) \<and> mset (c_dns c) = mset (ps_dns s)
    \<and> mset (map show_ip (c_ips c)) = mset (List.map_filter (\<lambda>ip. map_option show_ip (parse_ip ip)) (ps_ips s))
    \<and> c_isca c = ps_ca s \<and> (\<forall>u. asked_usage s u \<longrightarrow> u \<in> set (c_eku c))
    \<and> (distinct (ps_usages s) \<longrightarrow> (\<forall>u \<in> set (c_eku c). asked_usage s u))
    \<and> (if ps_issuer s = [] then signer = c
       else load_cert (files st') (pki_path (ps_issuer s) ''.crt'') = Some signer)
    \<and> signed_from c signer \<and> 30 * 24 * 3600 * 1000000000 \<le> c_not_after c - pe_now env"
proof -
  have "settled (pe_now env) specs (files st') s" by (rule run_settles_all [OF assms(1-3)])
  then obtain iss where i: "issuer_of specs (files st') s = Inr iss"
    and d: "cert_drift (pe_now env) (files st') s (map_option fst iss) = NoDrift"
    using assms(4) by (auto simp: settled_def)
  obtain c k where ck: "load_cert (files st') (pki_path (ps_name s) ''.crt'') = Some c"
      "load_key (files st') (pki_path (ps_name s) ''.key'') = Some k" "c_pub c = k"
      "c_cn c = ps_cn s" "mset (c_orgs c) = mset (ps_orgs s)" "mset (c_dns c) = mset (ps_dns s)" "c_isca c = ps_ca s"
      "30 * 24 * 3600 * 1000000000 \<le> c_not_after c - pe_now env"
    and ips: "mset (map show_ip (c_ips c)) = mset (map show_ip (List.map_filter parse_ip (ps_ips s)))"
    and us: "usages_equal (c_eku c) s"
    and sg: "case map_option fst iss of Some p \<Rightarrow> signed_from c p | None \<Rightarrow> signed_from c c"
    using d by (auto simp: cert_drift_def string_set_equal_iff month_def split: option.splits if_splits)
  have ips': "map show_ip (List.map_filter parse_ip xs) = List.map_filter (\<lambda>ip. map_option show_ip (parse_ip ip)) xs" for xs
    by (induction xs) (auto simp: List.map_filter_simps split: option.split)
  have "\<exists>signer. (if ps_issuer s = [] then signer = c else load_cert (files st') (pki_path (ps_issuer s) ''.crt'') = Some signer)
      \<and> signed_from c signer"
    using i sg by (cases iss) (auto simp: issuer_of_def Let_def split: if_splits option.splits)
  then show ?thesis using ck ips usages_equal_asked [OF us] unfolding ips' by blast
qed

text \<open>C27: A run is idempotent: repeated at once it succeeds and leaves every file and the key supply as
  they are, whatever the file system would answer to a write.\<close>

theorem pki_run_idempotent:
  assumes "pki_ok env specs" and "run_pki env specs st = Inr st'" and "pe_now env' = pe_now env"
  shows "run_pki env' specs st' = Inr st'"
  unfolding run_pki_def
  by (rule settled_run) (use run_settles_all [OF assms(1,2)] schedule_subset assms(3) in auto)

text \<open>An intermediate CA that sorts before its issuer: while the issuer has no certificate on disk, the
  run fails.\<close>

theorem early_intermediate_fails:
  assumes "sorted_wrt (<) (map ps_name specs)" and "s \<in> set specs" and "i \<in> set specs"
    and "ps_kind s = ''Certificate''" "ps_ca s" "ps_kind i = ''Certificate''" "ps_ca i"
    and "ps_issuer s = ps_name i" and "ps_name i \<noteq> []" and "ps_name s < ps_name i"
    and "\<forall>x \<in> set specs. clean_name (ps_name x)"
    and "files st (pki_path (ps_name i) ''.crt'') = None"
  shows "\<exists>e. run_pki env specs st = Inl e"
proof -
  have ord: "comes_before s i" using assms(4-7,10) by (simp add: comes_before_def)
  have dist: "inj_on ps_name (set specs)" using assms(1) by (simp add: strict_sorted_iff distinct_map)
  obtain xs ys where split: "schedule_specs specs = xs @ s # ys"
    using schedule_covers [OF assms(2)] assms(4) by (auto dest: split_list)
  have sorted: "sorted_wrt comes_before (xs @ s # ys)" using schedule_sorted [OF assms(1)] split by simp
  have apart: "pki_path (ps_name i) ''.crt'' \<notin> writes x" if x: "x \<in> set xs" for x
  proof -
    have "x \<in> set specs" using x split schedule_subset [of x specs] by simp
    moreover have "x \<noteq> i" using sorted ord comes_before_asym x by (metis sorted_wrt_append list.set_intros(1))
    ultimately have "ps_name x \<noteq> ps_name i" "clean_name (ps_name x)" "clean_name (ps_name i)"
      using dist assms(3,11) by (auto dest: inj_onD)
    then show ?thesis by (auto simp: writes_def)
  qed
  show ?thesis
  proof (cases "foldr_err (reconcile_spec env specs) st xs")
    case (Inl e)
    then show ?thesis by (simp add: run_pki_def split foldr_err_append)
  next
    case (Inr st1)
    have "files st1 (pki_path (ps_name i) ''.crt'') = None"
      by (rule foldr_err_invariant [OF Inr, where P = "\<lambda>st. files st (pki_path (ps_name i) ''.crt'') = None"])
         (use assms(12) apart reconcile_frame in auto)
    moreover have "find_spec specs (ps_name i) = Some i" using dist assms(3)
      by (rule find_spec_inj)
    ultimately have "issuer_of specs (files st1) s = Inl (''issuer '' @ ps_name i @ '' not materialized'')"
      using assms(6-9) by (simp add: issuer_of_def Let_def load_cert_def)
    then show ?thesis using assms(4) Inr
      by (simp add: run_pki_def split foldr_err_append reconcile_spec_def reconcile_certificate_def)
  qed
qed

text \<open>A certificate issued for less than thirty days never settles: from the moment it is written its
  validity counts as about to expire, so the next run issues it again.\<close>

theorem short_duration_never_settles:
  assumes "reconcile_certificate env specs s st = Inr st'"
    and "files st' (pki_path (ps_name s) ''.crt'') \<noteq> files st (pki_path (ps_name s) ''.crt'')"
    and "spec_duration env s = Inr d" and "d < month" and "pe_now env \<le> later"
    and "clean_name (ps_name s)"
  shows "cert_drift later (files st') s issuer \<noteq> NoDrift"
proof -
  obtain k k' st1 t c iss where k: "ensure_key env (pki_path (ps_name s) ''.key'') st = Inr (k, st1)"
      and t: "cert_template env s k k' = Inr t" and c: "create_certificate t iss = Inr c"
      and w: "st' = st1\<lparr>files := (files st1)(pki_path (ps_name s) ''.crt'' \<mapsto> CertFile c)\<rparr>"
    using assms(1,2) by (auto simp: reconcile_certificate_def write_file_Inr split: if_splits)
  have "c_not_after t = (pe_now env + d) div 10 ^ 9 * 10 ^ 9" using t assms(3) by (auto simp: cert_template_def)
  moreover have "c = t" using c by (auto simp: create_certificate_def split: if_splits option.splits prod.splits)
  moreover have "(pe_now env + d) div 10 ^ 9 * 10 ^ 9 \<le> pe_now env + d" by simp
  ultimately have "c_not_after c - later < month" using assms(4,5) by simp
  moreover have "load_cert (files st') (pki_path (ps_name s) ''.crt'') = Some c" using w by (simp add: load_cert_def)
  ultimately show ?thesis by (auto simp: cert_drift_def split: option.splits)
qed

subsection \<open>Witnesses\<close>

definition demo_env :: pki_env where
  "demo_env = \<lparr>pe_now = 0, pe_duration = (\<lambda>_. Inr (3600 * 10 ^ 9)), pe_write = (\<lambda>_. None)\<rparr>"

definition demo_ca :: pki_spec where
  "demo_ca = \<lparr>ps_name = ''a'', ps_kind = ''Certificate'', ps_ca = True, ps_issuer = [], ps_cn = ''ca'', ps_orgs = [],
     ps_dns = [], ps_ips = [], ps_usages = [], ps_duration = [], ps_alg = [], ps_server = [], ps_ca_ref = [], ps_client_ref = []\<rparr>"

definition demo_leaf :: pki_spec where
  "demo_leaf = demo_ca\<lparr>ps_name := ''b'', ps_ca := False, ps_issuer := ''a'', ps_cn := ''b'', ps_dns := [''b'', ''a''],
     ps_ips := [''10.0.0.1''], ps_usages := [''client auth'']\<rparr>"

definition demo_start :: pki_st where
  "demo_start = \<lparr>files = Map.empty, next_key = 0\<rparr>"

definition demo_intermediate :: pki_spec where
  "demo_intermediate = demo_ca\<lparr>ps_name := ''Z'', ps_issuer := ''a''\<rparr>"

definition demo_short :: pki_spec where
  "demo_short = demo_ca\<lparr>ps_duration := ''1h''\<rparr>"

lemma demo_run: obtains st' where "run_pki demo_env [demo_ca, demo_leaf] demo_start = Inr st'"
proof -
  have "case run_pki demo_env [demo_ca, demo_leaf] demo_start of Inr _ \<Rightarrow> True | Inl _ \<Rightarrow> False" by code_simp
  then show ?thesis using that by (cases "run_pki demo_env [demo_ca, demo_leaf] demo_start") auto
qed

lemma demo_ok: "pki_ok demo_env [demo_ca, demo_leaf]"
  by code_simp

lemma pki_run_converges_witness:
  "\<exists>st' c. run_pki demo_env [demo_ca, demo_leaf] demo_start = Inr st'
     \<and> load_cert (files st') ''b.crt'' = Some c \<and> c_cn c = ''b'' \<and> mset (map show_ip (c_ips c)) = {# ''10.0.0.1'' #}
     \<and> set (c_eku c) = {ClientAuth} \<and> 30 * 24 * 3600 * 1000000000 \<le> c_not_after c"
proof -
  obtain st' where r: "run_pki demo_env [demo_ca, demo_leaf] demo_start = Inr st'" by (rule demo_run)
  have d: "pki_path (ps_name demo_leaf) ''.crt'' = ''b.crt''" "ps_cn demo_leaf = ''b''" "pe_now demo_env = 0"
    "ps_kind demo_leaf = ''Certificate''" "List.map_filter (\<lambda>ip. map_option show_ip (parse_ip ip)) (ps_ips demo_leaf) = [''10.0.0.1'']"
    "distinct (ps_usages demo_leaf)" "asked_usage demo_leaf ClientAuth" "\<not> asked_usage demo_leaf ServerAuth" by code_simp+
  then have all: "asked_usage demo_leaf u \<longleftrightarrow> u = ClientAuth" for u by (cases u) simp_all
  have leaf: "demo_leaf \<in> set [demo_ca, demo_leaf]" by simp
  obtain c where c: "load_cert (files st') (pki_path (ps_name demo_leaf) ''.crt'') = Some c" "c_cn c = ps_cn demo_leaf"
      "mset (map show_ip (c_ips c)) = mset (List.map_filter (\<lambda>ip. map_option show_ip (parse_ip ip)) (ps_ips demo_leaf))"
      "30 * 24 * 3600 * 1000000000 \<le> c_not_after c - pe_now demo_env" "\<forall>u. asked_usage demo_leaf u \<longrightarrow> u \<in> set (c_eku c)"
      "distinct (ps_usages demo_leaf) \<longrightarrow> (\<forall>u \<in> set (c_eku c). asked_usage demo_leaf u)"
    using pki_run_converges [OF demo_ok r leaf d(4)] by blast
  have "set (c_eku c) = {ClientAuth}" using c(5,6) all d(6) by auto
  moreover have "mset (map show_ip (c_ips c)) = {# ''10.0.0.1'' #}" unfolding c(3) d(5) by simp
  ultimately show ?thesis using r c(1,2,4) unfolding d(1-3) by auto
qed

lemma pki_run_idempotent_witness:
  "\<exists>st'. run_pki demo_env [demo_ca, demo_leaf] demo_start = Inr st'
     \<and> run_pki (demo_env\<lparr>pe_write := \<lambda>_. Some ''read-only file system''\<rparr>) [demo_ca, demo_leaf] st' = Inr st'"
proof -
  obtain st' where r: "run_pki demo_env [demo_ca, demo_leaf] demo_start = Inr st'" by (rule demo_run)
  then show ?thesis using pki_run_idempotent [OF demo_ok r, of "demo_env\<lparr>pe_write := \<lambda>_. Some ''read-only file system''\<rparr>"]
    by simp
qed

lemma early_intermediate_fails_witness:
  "\<exists>e. run_pki demo_env [demo_intermediate, demo_ca] demo_start = Inl e"
proof (rule early_intermediate_fails [where s = demo_intermediate and i = demo_ca])
  show "\<forall>x \<in> set [demo_intermediate, demo_ca]. clean_name (ps_name x)" by code_simp
qed (code_simp | simp add: demo_start_def)+

lemma short_duration_never_settles_witness:
  "\<exists>st'. reconcile_certificate demo_env [demo_short] demo_short demo_start = Inr st'
     \<and> cert_drift 0 (files st') demo_short None \<noteq> NoDrift"
proof -
  have "case reconcile_certificate demo_env [demo_short] demo_short demo_start of Inr st' \<Rightarrow> files st' ''a.crt'' \<noteq> None | Inl _ \<Rightarrow> False"
    by code_simp
  then obtain st' where r: "reconcile_certificate demo_env [demo_short] demo_short demo_start = Inr st'" "files st' ''a.crt'' \<noteq> None"
    by (cases "reconcile_certificate demo_env [demo_short] demo_short demo_start") auto
  have p: "pki_path (ps_name demo_short) ''.crt'' = ''a.crt''" "clean_name (ps_name demo_short)" by code_simp+
  have d: "spec_duration demo_env demo_short = Inr (3600 * 10 ^ 9)" "(3600 * 10 ^ 9 :: int) < month" "pe_now demo_env = 0"
    by code_simp+
  have "files demo_start ''a.crt'' = None" by (simp add: demo_start_def)
  then have "cert_drift 0 (files st') demo_short None \<noteq> NoDrift"
    using short_duration_never_settles [OF r(1) _ d(1,2) _ p(2), of 0 None] p(1) r(2) d(3) by simp
  then show ?thesis using r by blast
qed

end
