(* ===== verification/Host_Fs.thy ===== *)
theory Host_Fs imports Go_Strings begin

text \<open>
  What the agent uses of the host's file system: names are resolved through symbolic links as the kernel does, hard
  links share an object, and each call answers with an error number or the new state.  Paths are absolute; \<open>hf_denied\<close>
  are the places at which the host refuses a change.
\<close>

datatype errno = ENOENT | ENOTDIR | EISDIR | EEXIST | ENOTEMPTY | ELOOP | EPERM | EINVAL

datatype hnode = HDir nat | HFile nat bytes | HLink string

record hfs =
  hf_names :: "(string list \<times> nat) list"
  hf_objs :: "nat \<Rightarrow> hnode"
  hf_next :: nat
  hf_denied :: "string list \<Rightarrow> bool"
  hf_umask :: nat

type_synonym 'a hcall = "errno + 'a"

text \<open>The object at a resolved path; the root is always there.\<close>

definition h_at :: "hfs \<Rightarrow> string list \<Rightarrow> hnode option" where
  "h_at fs p = (if p = [] then Some (HDir 0x1ED) else map_option (hf_objs fs) (map_of (hf_names fs) p))"

fun is_hdir :: "hnode option \<Rightarrow> bool" where
  "is_hdir (Some (HDir m)) = True"
| "is_hdir _ = False"

text \<open>Resolution of the components \<open>cs\<close> from the directory \<open>cur\<close>; \<open>last\<close> tells whether a symbolic link in
  the last place is followed, and \<open>k\<close> how many links may be.  The last component need not exist.\<close>

fun h_walk :: "nat \<Rightarrow> bool \<Rightarrow> hfs \<Rightarrow> string list \<Rightarrow> string list \<Rightarrow> string list hcall" where
  "h_walk k follow fs cur [] = Inr cur"
| "h_walk k follow fs cur (c # cs) =
     (if c = [] \<or> c = ''.'' then h_walk k follow fs cur cs
      else if c = ''..'' then h_walk k follow fs (butlast cur) cs
      else case h_at fs (cur @ [c]) of
             None \<Rightarrow> if cs = [] then Inr (cur @ [c]) else Inl ENOENT
           | Some (HDir m) \<Rightarrow> h_walk k follow fs (cur @ [c]) cs
           | Some (HFile m b) \<Rightarrow> if cs = [] then Inr (cur @ [c]) else Inl ENOTDIR
           | Some (HLink t) \<Rightarrow>
               if cs = [] \<and> \<not> follow then Inr (cur @ [c])
               else (case k of
                       0 \<Rightarrow> Inl ELOOP
                     | Suc j \<Rightarrow> h_walk j follow fs (if is_rooted t then [] else cur) (split_on (CHR ''/'') t @ cs)))"

definition max_links :: nat where "max_links = 32"

definition h_resolve :: "bool \<Rightarrow> hfs \<Rightarrow> string \<Rightarrow> string list hcall" where
  "h_resolve follow fs p = h_walk max_links follow fs [] (split_on (CHR ''/'') p)"

definition h_stat :: "hfs \<Rightarrow> string \<Rightarrow> hnode hcall" where
  "h_stat fs p = and_then (h_resolve True fs p) (\<lambda>r. case h_at fs r of None \<Rightarrow> Inl ENOENT | Some n \<Rightarrow> Inr n)"

definition h_lstat :: "hfs \<Rightarrow> string \<Rightarrow> hnode hcall" where
  "h_lstat fs p = and_then (h_resolve False fs p) (\<lambda>r. case h_at fs r of None \<Rightarrow> Inl ENOENT | Some n \<Rightarrow> Inr n)"

subsection \<open>Changes at a resolved path\<close>

definition h_create :: "string list \<Rightarrow> hnode \<Rightarrow> hfs \<Rightarrow> hfs hcall" where
  "h_create r n fs =
     (if hf_denied fs r then Inl EPERM
      else Inr (fs\<lparr>hf_names := (r, hf_next fs) # hf_names fs, hf_objs := (hf_objs fs)(hf_next fs := n),
                   hf_next := Suc (hf_next fs)\<rparr>))"

definition h_set :: "string list \<Rightarrow> hnode \<Rightarrow> hfs \<Rightarrow> hfs hcall" where
  "h_set r n fs =
     (if hf_denied fs r then Inl EPERM
      else case map_of (hf_names fs) r of
             None \<Rightarrow> Inl ENOENT
           | Some i \<Rightarrow> Inr (fs\<lparr>hf_objs := (hf_objs fs)(i := n)\<rparr>))"

text \<open>The permission bits (with setuid, setgid and sticky) \<open>m\<close> without those of the umask \<open>u\<close>.\<close>

definition mode_bits :: "nat \<Rightarrow> nat \<Rightarrow> nat" where
  "mode_bits m u = unat (and (word_of_nat m) (not (word_of_nat u)) :: 12 word)"

definition masked :: "hfs \<Rightarrow> nat \<Rightarrow> nat" where
  "masked fs m = mode_bits m (hf_umask fs)"

definition h_mkdir :: "string \<Rightarrow> nat \<Rightarrow> hfs \<Rightarrow> hfs hcall" where
  "h_mkdir p m fs =
     and_then (h_resolve False fs p) (\<lambda>r.
       if h_at fs r \<noteq> None then Inl EEXIST else h_create r (HDir (masked fs m)) fs)"

text \<open>\<^verbatim>\<open>os.MkdirAll\<close>: done when the directory is there, otherwise the parent first; a lost race is no error.\<close>

fun h_mkdir_all :: "nat \<Rightarrow> string \<Rightarrow> nat \<Rightarrow> hfs \<Rightarrow> hfs hcall" where
  "h_mkdir_all k p m fs =
     (case h_stat fs p of
        Inr (HDir _) \<Rightarrow> Inr fs
      | Inr _ \<Rightarrow> Inl ENOTDIR
      | Inl _ \<Rightarrow>
          and_then (case k of 0 \<Rightarrow> Inr fs | Suc j \<Rightarrow> h_mkdir_all j (path_dir p) m fs) (\<lambda>fs1.
            case h_mkdir p m fs1 of
              Inr fs2 \<Rightarrow> Inr fs2
            | Inl e \<Rightarrow> (case h_lstat fs1 p of Inr (HDir _) \<Rightarrow> Inr fs1 | _ \<Rightarrow> Inl e)))"

declare h_mkdir_all.simps [simp del]

text \<open>\<^verbatim>\<open>os.OpenFile(p, O_CREATE|O_WRONLY|O_TRUNC, m)\<close> and the write of the whole content.\<close>

definition h_write :: "string \<Rightarrow> bytes \<Rightarrow> nat \<Rightarrow> hfs \<Rightarrow> hfs hcall" where
  "h_write p content m fs =
     and_then (h_resolve True fs p) (\<lambda>r.
       case h_at fs r of
         Some (HDir _) \<Rightarrow> Inl EISDIR
       | Some (HFile m0 _) \<Rightarrow> h_set r (HFile m0 content) fs
       | Some (HLink _) \<Rightarrow> Inl ELOOP
       | None \<Rightarrow> h_create r (HFile (masked fs m) content) fs)"

text \<open>\<^verbatim>\<open>os.Remove\<close>: a directory goes only when it is empty.\<close>

definition h_unlink :: "string list \<Rightarrow> hfs \<Rightarrow> hfs hcall" where
  "h_unlink r fs =
     (if hf_denied fs r then Inl EPERM
      else Inr (fs\<lparr>hf_names := filter (\<lambda>(q, i). q \<noteq> r) (hf_names fs)\<rparr>))"

definition h_remove :: "string \<Rightarrow> hfs \<Rightarrow> hfs hcall" where
  "h_remove p fs =
     and_then (h_resolve False fs p) (\<lambda>r.
       case h_at fs r of
         None \<Rightarrow> Inl ENOENT
       | Some (HDir _) \<Rightarrow> if r = [] \<or> list_ex (\<lambda>(q, i). strict_prefix r q) (hf_names fs) then Inl ENOTEMPTY else h_unlink r fs
       | Some _ \<Rightarrow> h_unlink r fs)"

text \<open>\<^verbatim>\<open>os.RemoveAll\<close>: nothing there is no error.\<close>

definition h_remove_all :: "string \<Rightarrow> hfs \<Rightarrow> hfs hcall" where
  "h_remove_all p fs =
     (case h_resolve False fs p of
        Inl ENOENT \<Rightarrow> Inr fs
      | Inl e \<Rightarrow> Inl e
      | Inr r \<Rightarrow>
          if r = [] then Inl EINVAL
          else if list_ex (\<lambda>(q, i). prefix r q \<and> hf_denied fs q) (hf_names fs) then Inl EPERM
          else Inr (fs\<lparr>hf_names := filter (\<lambda>(q, i). \<not> prefix r q) (hf_names fs)\<rparr>))"

definition h_symlink :: "string \<Rightarrow> string \<Rightarrow> hfs \<Rightarrow> hfs hcall" where
  "h_symlink target p fs =
     and_then (h_resolve False fs p) (\<lambda>r. if h_at fs r \<noteq> None then Inl EEXIST else h_create r (HLink target) fs)"

text \<open>\<^verbatim>\<open>os.Link\<close> of the agent's host follows links in \<open>src\<close>; a directory cannot be linked.\<close>

definition h_link :: "string \<Rightarrow> string \<Rightarrow> hfs \<Rightarrow> hfs hcall" where
  "h_link src p fs =
     and_then (h_resolve True fs src) (\<lambda>s.
       and_then (h_resolve False fs p) (\<lambda>r.
         if h_at fs r \<noteq> None then Inl EEXIST
         else if hf_denied fs r then Inl EPERM
         else case map_of (hf_names fs) s of
                None \<Rightarrow> if s = [] then Inl EPERM else Inl ENOENT
              | Some i \<Rightarrow> if is_hdir (Some (hf_objs fs i)) then Inl EPERM
                          else Inr (fs\<lparr>hf_names := (r, i) # hf_names fs\<rparr>)))"

definition h_chmod :: "string \<Rightarrow> nat \<Rightarrow> hfs \<Rightarrow> hfs hcall" where
  "h_chmod p m fs =
     and_then (h_resolve True fs p) (\<lambda>r.
       case h_at fs r of
         None \<Rightarrow> Inl ENOENT
       | Some (HDir _) \<Rightarrow> h_set r (HDir m) fs
       | Some (HFile _ b) \<Rightarrow> h_set r (HFile m b) fs
       | Some (HLink _) \<Rightarrow> Inl ELOOP)"

definition h_rename :: "string \<Rightarrow> string \<Rightarrow> hfs \<Rightarrow> hfs hcall" where
  "h_rename a b fs =
     and_then (h_resolve False fs a) (\<lambda>ra. and_then (h_resolve False fs b) (\<lambda>rb.
       if h_at fs ra = None then Inl ENOENT
       else if hf_denied fs ra \<or> hf_denied fs rb then Inl EPERM
       else if ra = rb then Inr fs
       else if ra = [] \<or> rb = [] \<or> prefix ra rb then Inl EINVAL
       else if is_hdir (h_at fs rb) \<and> \<not> is_hdir (h_at fs ra) then Inl EISDIR
       else if is_hdir (h_at fs ra) \<and> h_at fs rb \<noteq> None \<and> \<not> is_hdir (h_at fs rb) then Inl ENOTDIR
       else if list_ex (\<lambda>(q, i). strict_prefix rb q) (hf_names fs) then Inl ENOTEMPTY
       else Inr (fs\<lparr>hf_names := map (\<lambda>(q, i). (if prefix ra q then rb @ drop (length ra) q else q, i))
                                  (filter (\<lambda>(q, i). q \<noteq> rb) (hf_names fs))\<rparr>)))"

text \<open>A call whose error the code ignores.\<close>

definition attempt :: "(hfs \<Rightarrow> hfs hcall) \<Rightarrow> hfs \<Rightarrow> hfs" where
  "attempt f fs = (case f fs of Inl _ \<Rightarrow> fs | Inr fs' \<Rightarrow> fs')"

subsection \<open>Resolution without links\<close>

fun is_link :: "hnode option \<Rightarrow> bool" where
  "is_link (Some (HLink t)) = True"
| "is_link _ = False"

definition no_link_on :: "hfs \<Rightarrow> string list \<Rightarrow> string list \<Rightarrow> bool" where
  "no_link_on fs cur cs = list_all (\<lambda>q. q = [] \<or> \<not> is_link (h_at fs (cur @ q))) (prefixes cs)"

lemma no_link_on_iff: "no_link_on fs cur cs \<longleftrightarrow> (\<forall>q. q \<noteq> [] \<and> prefix q cs \<longrightarrow> (\<forall>t. h_at fs (cur @ q) \<noteq> Some (HLink t)))"
  by (auto simp: no_link_on_def list_all_iff elim!: is_link.elims)

lemma h_walk_plain:
  assumes "\<forall>c \<in> set cs. plain_comp c" and "no_link_on fs cur cs" and "h_walk k follow fs cur cs = Inr r"
  shows "r = cur @ cs"
  using assms
proof (induction cs arbitrary: cur)
  case (Cons c cs)
  have c: "c \<noteq> []" "c \<noteq> ''.''" "c \<noteq> ''..''" using Cons.prems(1) by (auto simp: plain_comp_def good_comp_def)
  have "no_link_on fs (cur @ [c]) cs"
    unfolding no_link_on_iff
  proof clarify
    fix q t
    assume "q \<noteq> []" "prefix q cs" "h_at fs ((cur @ [c]) @ q) = Some (HLink t)"
    then show False using Cons.prems(2) [unfolded no_link_on_iff, rule_format, of "c # q" t] by simp
  qed
  moreover have "h_at fs (cur @ [c]) \<noteq> Some (HLink t)" for t
    using Cons.prems(2) [unfolded no_link_on_iff, rule_format, of "[c]" t] by simp
  ultimately show ?case using Cons.IH [of "cur @ [c]"] Cons.prems(1,3) c
    by (auto split: option.splits hnode.splits if_splits)
qed simp

lemma h_walk_dirs:
  assumes "\<forall>c \<in> set cs. plain_comp c" and "\<forall>q. q \<noteq> [] \<and> strict_prefix q cs \<longrightarrow> is_hdir (h_at fs (cur @ q))"
    and "no_link_on fs cur cs"
  shows "h_walk k follow fs cur cs = Inr (cur @ cs)"
  using assms
proof (induction cs arbitrary: cur)
  case (Cons c cs)
  have c: "c \<noteq> []" "c \<noteq> ''.''" "c \<noteq> ''..''" using Cons.prems(1) by (auto simp: plain_comp_def good_comp_def)
  have "no_link_on fs (cur @ [c]) cs"
    unfolding no_link_on_iff
  proof clarify
    fix q t
    assume "q \<noteq> []" "prefix q cs" "h_at fs ((cur @ [c]) @ q) = Some (HLink t)"
    then show False using Cons.prems(3) [unfolded no_link_on_iff, rule_format, of "c # q" t] by simp
  qed
  moreover have "\<forall>q. q \<noteq> [] \<and> strict_prefix q cs \<longrightarrow> is_hdir (h_at fs ((cur @ [c]) @ q))"
    using Cons.prems(2) [rule_format, of "c # q" for q] by simp
  ultimately have rest: "h_walk k follow fs (cur @ [c]) cs = Inr (cur @ [c] @ cs)"
    using Cons.IH [of "cur @ [c]"] Cons.prems(1) by simp
  have "h_at fs (cur @ [c]) \<noteq> Some (HLink t)" for t
    using Cons.prems(3) [unfolded no_link_on_iff, rule_format, of "[c]" t] by simp
  moreover have "cs \<noteq> [] \<Longrightarrow> is_hdir (h_at fs (cur @ [c]))"
    using Cons.prems(2) [rule_format, of "[c]"] by (cases cs) auto
  ultimately show ?case using c rest
    by (cases "cs = []") (auto split: option.split hnode.split elim!: is_hdir.elims)
qed simp

lemma h_walk_through_dirs:
  assumes "\<forall>c \<in> set cs. plain_comp c" and "no_link_on fs cur cs" and "h_walk k follow fs cur cs = Inr r"
    and "is_hdir (h_at fs cur)" and "strict_prefix q cs"
  shows "is_hdir (h_at fs (cur @ q))"
  using assms
proof (induction cs arbitrary: cur q)
  case (Cons c cs)
  have c: "c \<noteq> []" "c \<noteq> ''.''" "c \<noteq> ''..''" using Cons.prems(1) by (auto simp: plain_comp_def good_comp_def)
  show ?case
  proof (cases q)
    case (Cons d q')
    then have q: "d = c" "strict_prefix q' cs" "cs \<noteq> []" using Cons.prems(5) by (auto simp: strict_prefix_def)
    have nl: "no_link_on fs (cur @ [c]) cs"
      unfolding no_link_on_iff
    proof clarify
      fix x t
      assume "x \<noteq> []" "prefix x cs" "h_at fs ((cur @ [c]) @ x) = Some (HLink t)"
      then show False using Cons.prems(2) [unfolded no_link_on_iff, rule_format, of "c # x" t] by simp
    qed
    have "h_at fs (cur @ [c]) \<noteq> Some (HLink t)" for t
      using Cons.prems(2) [unfolded no_link_on_iff, rule_format, of "[c]" t] by simp
    then have "is_hdir (h_at fs (cur @ [c]))" "h_walk k follow fs (cur @ [c]) cs = Inr r"
      using Cons.prems(3) c q(3) by (auto split: option.splits hnode.splits)
    then show ?thesis using Cons.IH [OF _ nl _ _ q(2)] Cons.prems(1) Cons q(1) by simp
  qed (use Cons.prems(4) in simp)
qed simp

lemma h_walk_missing:
  assumes "\<forall>c \<in> set cs. plain_comp c" and "no_link_on fs cur cs" and "h_walk k follow fs cur cs = Inl ENOENT"
  shows "\<exists>q. strict_prefix q cs \<and> h_at fs (cur @ q) = None"
  using assms
proof (induction cs arbitrary: cur)
  case (Cons c cs)
  have c: "c \<noteq> []" "c \<noteq> ''.''" "c \<noteq> ''..''" using Cons.prems(1) by (auto simp: plain_comp_def good_comp_def)
  have nl: "no_link_on fs (cur @ [c]) cs"
    unfolding no_link_on_iff
  proof clarify
    fix x t
    assume "x \<noteq> []" "prefix x cs" "h_at fs ((cur @ [c]) @ x) = Some (HLink t)"
    then show False using Cons.prems(2) [unfolded no_link_on_iff, rule_format, of "c # x" t] by simp
  qed
  have "h_at fs (cur @ [c]) \<noteq> Some (HLink t)" for t
    using Cons.prems(2) [unfolded no_link_on_iff, rule_format, of "[c]" t] by simp
  then consider "cs \<noteq> []" "h_at fs (cur @ [c]) = None" | "h_walk k follow fs (cur @ [c]) cs = Inl ENOENT"
    using Cons.prems(3) c by (auto split: option.splits hnode.splits if_splits)
  then show ?case
  proof cases
    case 1
    then show ?thesis by (intro exI [of _ "[c]"]) (simp add: strict_prefix_def)
  next
    case 2
    then obtain q where "strict_prefix q cs" "h_at fs ((cur @ [c]) @ q) = None"
      using Cons.IH [OF _ nl] Cons.prems(1) by auto
    then show ?thesis by (intro exI [of _ "c # q"]) simp
  qed
qed simp

lemma h_resolve_abs:
  assumes "\<forall>c \<in> set cs. plain_comp c"
  shows "h_resolve follow fs (abs_path cs) = h_walk max_links follow fs [] cs"
  by (simp add: h_resolve_def split_abs_path [OF assms])

lemma h_resolve_plain:
  assumes "\<forall>c \<in> set cs. plain_comp c" and "no_link_on fs [] cs" and "h_resolve follow fs (abs_path cs) = Inr r"
  shows "r = cs"
  using h_walk_plain [OF assms(1,2)] assms(3) by (simp add: h_resolve_abs [OF assms(1)])

subsection \<open>What the changes do\<close>

definition hf_ok :: "hfs \<Rightarrow> bool" where
  "hf_ok fs \<longleftrightarrow> (\<forall>(q, i) \<in> set (hf_names fs). i < hf_next fs)"

lemma hf_ok_name: "hf_ok fs \<Longrightarrow> map_of (hf_names fs) q = Some i \<Longrightarrow> i < hf_next fs"
  by (auto simp: hf_ok_def dest!: map_of_SomeD)

lemma h_create_at:
  assumes "h_create r n fs = Inr fs'" and "hf_ok fs" and "r \<noteq> []"
  shows "hf_ok fs'" "h_at fs' q = (if q = r then Some n else h_at fs q)"
    "map_of (hf_names fs') q = (if q = r then Some (hf_next fs) else map_of (hf_names fs) q)"
proof -
  have fs': "fs' = fs\<lparr>hf_names := (r, hf_next fs) # hf_names fs, hf_objs := (hf_objs fs)(hf_next fs := n),
      hf_next := Suc (hf_next fs)\<rparr>"
    using assms(1) by (auto simp: h_create_def split: if_splits)
  show "hf_ok fs'" using assms(2) unfolding fs' hf_ok_def by fastforce
  show "map_of (hf_names fs') q = (if q = r then Some (hf_next fs) else map_of (hf_names fs) q)" by (simp add: fs')
  show "h_at fs' q = (if q = r then Some n else h_at fs q)"
    using assms(3) hf_ok_name [OF assms(2), of q] by (cases "map_of (hf_names fs) q") (auto simp: fs' h_at_def)
qed

lemma h_set_at:
  assumes "h_set r n fs = Inr fs'"
  shows "hf_names fs' = hf_names fs" "hf_next fs' = hf_next fs" "hf_ok fs' = hf_ok fs" "r \<noteq> [] \<Longrightarrow> h_at fs' r = Some n"
    "q \<noteq> [] \<Longrightarrow> map_of (hf_names fs) q \<noteq> map_of (hf_names fs) r \<Longrightarrow> h_at fs' q = h_at fs q" "h_at fs' [] = h_at fs []"
  using assms by (auto simp: h_set_def hf_ok_def h_at_def map_option_case split: if_splits option.splits)

lemma is_hdir_iff: "is_hdir x \<longleftrightarrow> (\<exists>m. x = Some (HDir m))"
  by (auto elim: is_hdir.elims)

lemma no_link_on_Nil [simp]: "no_link_on fs cur []"
  by (simp add: no_link_on_def)

lemma no_link_on_prefix: "no_link_on fs [] cs \<Longrightarrow> prefix q cs \<Longrightarrow> no_link_on fs [] q"
  unfolding no_link_on_iff by (meson prefix_order.trans)

lemma no_link_on_create:
  assumes "h_create r (HDir m) fs = Inr fs'" and "hf_ok fs" and "r \<noteq> []" and "no_link_on fs [] cs"
  shows "no_link_on fs' [] cs"
  using assms(4) h_create_at(2) [OF assms(1-3)] by (auto simp: no_link_on_iff)

lemma h_stat_Inr:
  assumes "\<forall>c \<in> set cs. plain_comp c" and "no_link_on fs [] cs" and "h_stat fs (abs_path cs) = Inr n"
  shows "h_at fs cs = Some n"
  using assms h_resolve_plain by (fastforce simp: h_stat_def split: option.splits)

lemma h_lstat_Inr:
  assumes "\<forall>c \<in> set cs. plain_comp c" and "no_link_on fs [] cs" and "h_lstat fs (abs_path cs) = Inr n"
  shows "h_at fs cs = Some n"
  using assms h_resolve_plain by (fastforce simp: h_lstat_def split: option.splits)

text \<open>\<^verbatim>\<open>MkdirAll\<close> does nothing but create missing directories on the path, and the directory is there afterwards.\<close>

lemma h_mkdir_last:
  assumes "(case h_mkdir (abs_path cs) m fs of Inr fs2 \<Rightarrow> Inr fs2
      | Inl e \<Rightarrow> (case h_lstat fs (abs_path cs) of Inr (HDir _) \<Rightarrow> Inr fs | _ \<Rightarrow> Inl e)) = Inr fs'"
    and plain: "\<forall>c \<in> set cs. plain_comp c" and link: "no_link_on fs [] cs" and ok: "hf_ok fs" and "Q fs"
    and step: "\<And>fs2. cs \<noteq> [] \<Longrightarrow> h_at fs cs = None \<Longrightarrow> \<forall>q. strict_prefix q cs \<longrightarrow> is_hdir (h_at fs q) \<Longrightarrow> h_create cs (HDir (masked fs m)) fs = Inr fs2 \<Longrightarrow> Q fs2"
  shows "Q fs' \<and> hf_ok fs' \<and> no_link_on fs' [] cs \<and> is_hdir (h_at fs' cs)"
proof (cases "h_mkdir (abs_path cs) m fs")
  case (Inl e)
  then obtain m0 where "h_lstat fs (abs_path cs) = Inr (HDir m0)" "fs' = fs"
    using assms(1) by (auto split: sum.splits hnode.splits)
  then show ?thesis using assms h_lstat_Inr [OF plain link] by simp
next
  case (Inr fs2)
  then obtain r where r: "h_resolve False fs (abs_path cs) = Inr r" "h_at fs r = None" "h_create r (HDir (masked fs m)) fs = Inr fs2"
    by (auto simp: h_mkdir_def split: if_splits)
  have cs: "r = cs" using h_resolve_plain [OF plain link r(1)] .
  then have ne: "cs \<noteq> []" using r(2) by (auto simp: h_at_def)
  have dirs: "\<forall>q. strict_prefix q cs \<longrightarrow> is_hdir (h_at fs q)"
    using h_walk_through_dirs [OF plain link, of max_links False cs] r(1) cs h_resolve_abs [OF plain] by (simp add: h_at_def)
  have "fs' = fs2" using Inr assms(1) by simp
  then show ?thesis
    using step [OF ne _ dirs] r cs ne h_create_at [OF _ ok ne] no_link_on_create [OF _ ok ne link] by auto
qed

lemma h_mkdir_all_induct:
  assumes "h_mkdir_all k (abs_path cs) m fs = Inr fs'" and "\<forall>c \<in> set cs. plain_comp c" and "no_link_on fs [] cs"
    and "hf_ok fs" and "Q fs"
    and step: "\<And>fs1 fs2 r. Q fs1 \<Longrightarrow> hf_ok fs1 \<Longrightarrow> prefix r cs \<Longrightarrow> r \<noteq> [] \<Longrightarrow> h_at fs1 r = None
       \<Longrightarrow> \<forall>q. strict_prefix q r \<longrightarrow> is_hdir (h_at fs1 q) \<Longrightarrow> h_create r (HDir (masked fs1 m)) fs1 = Inr fs2 \<Longrightarrow> Q fs2"
  shows "Q fs' \<and> hf_ok fs' \<and> no_link_on fs' [] cs \<and> is_hdir (h_at fs' cs)"
  using assms
proof (induction k arbitrary: cs fs' Q)
  case (0 cs)
  show ?case
  proof (cases "h_stat fs (abs_path cs)")
    case (Inr n)
    then show ?thesis using 0 h_stat_Inr [OF 0(2,3) Inr]
      by (subst (asm) h_mkdir_all.simps) (auto split: hnode.splits)
  next
    case (Inl e)
    have last: "(case h_mkdir (abs_path cs) m fs of Inr fs2 \<Rightarrow> Inr fs2
      | Inl e \<Rightarrow> (case h_lstat fs (abs_path cs) of Inr (HDir _) \<Rightarrow> Inr fs | _ \<Rightarrow> Inl e)) = Inr fs'"
      using 0(1) Inl by (subst (asm) h_mkdir_all.simps) simp
    show ?thesis by (rule h_mkdir_last [where Q = Q, OF last 0(2-5)]) (rule 0(6) [OF 0(5,4)]; simp)
  qed
next
  case (Suc k cs)
  show ?case
  proof (cases "h_stat fs (abs_path cs)")
    case (Inr n)
    then show ?thesis using Suc.prems h_stat_Inr [OF Suc.prems(2,3) Inr]
      by (subst (asm) h_mkdir_all.simps) (auto split: hnode.splits)
  next
    case (Inl e)
    then have "cs \<noteq> []" using h_walk.simps(1) by (auto simp: h_stat_def h_resolve_abs h_at_def)
    then obtain ds c where ds: "cs = ds @ [c]" by (metis rev_exhaust)
    obtain fs1 where up: "h_mkdir_all k (abs_path ds) m fs = Inr fs1"
      and last: "(case h_mkdir (abs_path cs) m fs1 of Inr fs2 \<Rightarrow> Inr fs2
      | Inl e \<Rightarrow> (case h_lstat fs1 (abs_path cs) of Inr (HDir _) \<Rightarrow> Inr fs1 | _ \<Rightarrow> Inl e)) = Inr fs'"
      using Suc.prems(1) Inl path_dir_abs [of ds c] Suc.prems(2) ds by (subst (asm) h_mkdir_all.simps) auto
    have pl: "\<forall>c \<in> set ds. plain_comp c" using Suc.prems(2) ds by simp
    let ?Q = "\<lambda>fs. Q fs \<and> no_link_on fs [] cs"
    have nl: "no_link_on fs [] ds" using no_link_on_prefix [OF Suc.prems(3)] ds by simp
    have "?Q fs1 \<and> hf_ok fs1 \<and> no_link_on fs1 [] ds \<and> is_hdir (h_at fs1 ds)"
    proof (rule Suc.IH [where Q = ?Q, OF up pl nl Suc.prems(4)])
      show "?Q fs" using Suc.prems by simp
    next
      fix fs1 fs2 r
      assume a: "?Q fs1" "hf_ok fs1" "prefix r ds" "r \<noteq> []" "h_at fs1 r = None" "\<forall>q. strict_prefix q r \<longrightarrow> is_hdir (h_at fs1 q)" "h_create r (HDir (masked fs1 m)) fs1 = Inr fs2"
      then show "?Q fs2" using Suc.prems(6) [of fs1 r fs2] ds no_link_on_create [OF a(7,2,4)] by auto
    qed
    then have q: "Q fs1" "no_link_on fs1 [] cs" "hf_ok fs1" by auto
    show ?thesis by (rule h_mkdir_last [where Q = Q, OF last Suc.prems(2) q(2,3,1)]) (rule Suc.prems(6) [OF q(1,3)]; simp)
  qed
qed

end
