(* ===== verification/Volumes.thy ===== *)
theory Volumes imports Host_Fs Go_Bytes begin

text \<open>
  ConfigMap and Secret volumes (\<^verbatim>\<open>poc/agent/volumes.go\<close>): their keys become files of a host directory that is
  rebuilt whenever the pod starts.  The API server is a parameter; a Go map is the list of its pairs in the order in
  which it is ranged over.
\<close>

datatype vol_error = VolIo errno | KeyMissing string | ApiUnready string | ApiFailed string

definition io :: "'a hcall \<Rightarrow> vol_error + 'a" where
  "io r = (case r of Inl e \<Rightarrow> Inl (VolIo e) | Inr x \<Rightarrow> Inr x)"

lemma io_Inr [simp]: "io r = Inr x \<longleftrightarrow> r = Inr x"
  by (auto simp: io_def split: sum.split)

definition fresh_dir :: "string \<Rightarrow> hfs \<Rightarrow> hfs hcall" where
  "fresh_dir dir fs = and_then (h_remove_all dir fs) (\<lambda>fs1. h_mkdir_all (length dir) dir 0x1ED fs1)"

record key_item =
  ki_key :: string
  ki_path :: string
  ki_mode :: "int option"

text \<open>\<^verbatim>\<open>os.FileMode\<close> of an int32, as far as a new file's permissions go.\<close>

definition file_mode :: "int \<Rightarrow> nat" where
  "file_mode m = nat (m mod 512)"

definition volume_target :: "string \<Rightarrow> string \<Rightarrow> string" where
  "volume_target dir rel = path_join [dir, path_clean (CHR ''/'' # rel)]"

definition write_key :: "string \<Rightarrow> string \<Rightarrow> bytes \<Rightarrow> nat \<Rightarrow> hfs \<Rightarrow> hfs hcall" where
  "write_key dir rel content m fs =
     (let target = volume_target dir rel
      in and_then (h_mkdir_all (length target) (path_dir target) 0x1ED fs) (h_write target content m))"

definition default_mode :: "int option \<Rightarrow> nat" where
  "default_mode m = (case m of None \<Rightarrow> 0x1A4 | Some d \<Rightarrow> file_mode d)"

definition write_item :: "string \<Rightarrow> (string \<times> bytes) list \<Rightarrow> nat \<Rightarrow> hfs \<Rightarrow> key_item \<Rightarrow> vol_error + hfs" where
  "write_item dir data m fs it =
     (case map_of data (ki_key it) of
        None \<Rightarrow> Inl (KeyMissing (ki_key it))
      | Some v \<Rightarrow> io (write_key dir (ki_path it) v (case ki_mode it of None \<Rightarrow> m | Some im \<Rightarrow> file_mode im) fs))"

definition write_volume_keys :: "string \<Rightarrow> (string \<times> bytes) list \<Rightarrow> key_item list \<Rightarrow> int option \<Rightarrow> hfs \<Rightarrow> vol_error + hfs" where
  "write_volume_keys dir data items defm fs =
     and_then (io (fresh_dir dir fs)) (\<lambda>fs1.
       let m = default_mode defm
       in if items = [] then foldr_err (\<lambda>fs (k, v). io (write_key dir k v m fs)) fs1 data
          else foldr_err (write_item dir data m) fs1 items)"

record volume_source =
  vs_name :: string
  vs_optional :: "bool option"
  vs_items :: "key_item list"
  vs_mode :: "int option"

text \<open>The answer of the API server: the object, or the error and whether it says that there is none.\<close>

datatype 'o api_answer = Found 'o | NotThere string | ApiError string

definition materialize_volume :: "bool \<Rightarrow> string \<Rightarrow> volume_source \<Rightarrow> (string \<times> bytes) list api_answer \<Rightarrow> string \<Rightarrow> hfs
    \<Rightarrow> vol_error + hfs" where
  "materialize_volume client what src ans dir fs =
     (if \<not> client then Inl (ApiUnready (what @ vs_name src))
      else case ans of
             Found data \<Rightarrow> write_volume_keys dir data (vs_items src) (vs_mode src) fs
           | NotThere e \<Rightarrow> if vs_optional src = Some True then io (fresh_dir dir fs) else Inl (ApiFailed (what @ vs_name src @ e))
           | ApiError e \<Rightarrow> Inl (ApiFailed (what @ vs_name src @ e)))"

text \<open>A ConfigMap has text and binary data, a key of the latter winning.\<close>

definition config_map_data :: "(string \<times> string) list \<times> (string \<times> bytes) list \<Rightarrow> (string \<times> bytes) list" where
  "config_map_data cm =
     (case cm of (data, bin) \<Rightarrow>
        fold (\<lambda>(k, v) d. AList.update k v d) bin (fold (\<lambda>(k, v) d. AList.update k (string_bytes v) d) data []))"

definition materialize_config_map where
  "materialize_config_map client src ans =
     materialize_volume client ''configMap '' src
       (case ans of Found cm \<Rightarrow> Found (config_map_data cm) | NotThere e \<Rightarrow> NotThere e | ApiError e \<Rightarrow> ApiError e)"

definition materialize_secret where
  "materialize_secret client src ans = materialize_volume client ''secret '' src ans"

subsection \<open>Below a directory\<close>

text \<open>\<open>D\<close> is a directory without links or hard links below it, reached without links; \<open>at0\<close> is what was outside.\<close>

definition volume_inv :: "string list \<Rightarrow> (string list \<Rightarrow> hnode option) \<Rightarrow> hfs \<Rightarrow> bool" where
  "volume_inv D at0 fs \<longleftrightarrow>
     (\<forall>p. \<not> prefix D p \<longrightarrow> h_at fs p = at0 p)
     \<and> (\<forall>p. prefix p D \<longrightarrow> is_hdir (h_at fs p))
     \<and> (\<forall>p. prefix D p \<longrightarrow> \<not> is_link (h_at fs p))
     \<and> (\<forall>p q i. prefix D p \<longrightarrow> map_of (hf_names fs) p = Some i \<longrightarrow> map_of (hf_names fs) q = Some i \<longrightarrow> p = q)"

lemma volume_invD:
  assumes "volume_inv D at0 fs"
  shows "\<not> prefix D p \<Longrightarrow> h_at fs p = at0 p" "prefix p D \<Longrightarrow> is_hdir (h_at fs p)" "prefix D p \<Longrightarrow> \<not> is_link (h_at fs p)"
    "prefix D p \<Longrightarrow> map_of (hf_names fs) p = Some i \<Longrightarrow> map_of (hf_names fs) q = Some i \<Longrightarrow> p = q"
  using assms unfolding volume_inv_def by blast+

lemma volume_inv_no_link:
  assumes "volume_inv D at0 fs" and "prefix D cs"
  shows "no_link_on fs [] cs"
  unfolding no_link_on_iff
proof clarify
  fix q t
  assume q: "prefix q cs" "h_at fs ([] @ q) = Some (HLink t)"
  then consider "prefix q D" | "prefix D q" using assms(2) prefix_same_cases by blast
  then show False using volume_invD(2,3) [OF assms(1), of q] q(2) by cases auto
qed

lemma volume_inv_create:
  assumes "volume_inv D at0 fs" and "hf_ok fs" and c: "h_create r n fs = Inr fs'" and "strict_prefix D r" and "\<not> is_link (Some n)"
    and "h_at fs r = None"
  shows "volume_inv D at0 fs'"
proof -
  have r: "r \<noteq> []" "prefix D r" "\<not> prefix r D" using assms(4) by (auto simp: strict_prefix_def)
  note at = h_create_at(2) [OF c assms(2) r(1)] and names = h_create_at(3) [OF c assms(2) r(1)]
  have "p = q" if "prefix D p" "map_of (hf_names fs') p = Some i" "map_of (hf_names fs') q = Some i" for p q i
  proof -
    have "map_of (hf_names fs) x \<noteq> Some (hf_next fs)" for x using hf_ok_name [OF assms(2)] by fastforce
    then show ?thesis using that assms(1) unfolding volume_inv_def by (auto simp: names split: if_splits)
  qed
  then show ?thesis using assms(1,5) r at unfolding volume_inv_def by auto
qed

lemma volume_inv_set:
  assumes inv: "volume_inv D at0 fs" and s: "h_set r n fs = Inr fs'" and r: "strict_prefix D r" and "\<not> is_link (Some n)"
  shows "volume_inv D at0 fs' \<and> (\<forall>q. h_at fs' q = (if q = r then Some n else h_at fs q))"
proof -
  have ne: "r \<noteq> []" "prefix D r" "\<not> prefix r D" using r by (auto simp: strict_prefix_def)
  note eff = h_set_at [OF s]
  obtain i where i: "map_of (hf_names fs) r = Some i" using s by (auto simp: h_set_def split: if_splits option.splits)
  have at: "h_at fs' q = (if q = r then Some n else h_at fs q)" for q
  proof (cases "q = [] \<or> q = r")
    case False
    have "map_of (hf_names fs) q \<noteq> map_of (hf_names fs) r"
      using inv ne(2) i False unfolding volume_inv_def by metis
    then show ?thesis using eff(5) False by simp
  qed (use eff(4,6) ne in auto)
  then show ?thesis using inv ne assms(4) unfolding volume_inv_def by (auto simp: eff(1))
qed

subsection \<open>Writing a key\<close>

lemma volume_target_abs:
  assumes "\<forall>c \<in> set D. plain_comp c"
  shows "volume_target (abs_path D) rel = abs_path (D @ path_comps (CHR ''/'' # rel))"
    and "\<forall>c \<in> set (path_comps (CHR ''/'' # rel)). plain_comp c"
proof -
  have r: "is_rooted (CHR ''/'' # rel)" by (simp add: is_rooted_def has_prefix_def)
  then show p: "\<forall>c \<in> set (path_comps (CHR ''/'' # rel)). plain_comp c" using path_comps_rooted by blast
  show "volume_target (abs_path D) rel = abs_path (D @ path_comps (CHR ''/'' # rel))"
    unfolding volume_target_def path_clean_rooted [OF r] by (rule path_join_abs_abs [OF assms p])
qed

lemma h_umask_create: "h_create r n fs = Inr fs' \<Longrightarrow> hf_umask fs' = hf_umask fs"
  by (auto simp: h_create_def split: if_splits)

lemma h_umask_set: "h_set r n fs = Inr fs' \<Longrightarrow> hf_umask fs' = hf_umask fs"
  by (auto simp: h_set_def split: if_splits option.splits)

text \<open>What is there stays, except for the file itself; nothing appears off the path to it.\<close>

definition only_adds :: "string list \<Rightarrow> hfs \<Rightarrow> hfs \<Rightarrow> bool" where
  "only_adds p fs fs' \<longleftrightarrow> hf_umask fs' = hf_umask fs
     \<and> (\<forall>q. q \<noteq> p \<longrightarrow> h_at fs q \<noteq> None \<or> \<not> prefix q p \<longrightarrow> h_at fs' q = h_at fs q)
     \<and> (\<forall>q. q \<noteq> p \<longrightarrow> h_at fs q = None \<longrightarrow> h_at fs' q = None \<or> is_hdir (h_at fs' q))"

lemma only_adds_keep: "only_adds p fs fs' \<Longrightarrow> q \<noteq> p \<Longrightarrow> h_at fs q \<noteq> None \<Longrightarrow> h_at fs' q = h_at fs q"
  by (simp add: only_adds_def)

lemma only_adds_new: "only_adds p fs fs' \<Longrightarrow> q \<noteq> p \<Longrightarrow> h_at fs' q = Some (HFile m b) \<Longrightarrow> h_at fs q = Some (HFile m b)"
  by (cases "h_at fs q") (fastforce simp: only_adds_def)+

lemma volume_mkdir_all:
  assumes plain: "\<forall>c \<in> set (D @ ds). plain_comp c" and inv: "volume_inv D at0 fs" and ok: "hf_ok fs"
    and m: "h_mkdir_all k (abs_path (D @ ds)) m fs = Inr fs1"
  shows "volume_inv D at0 fs1 \<and> hf_ok fs1 \<and> only_adds (D @ ds @ [c]) fs fs1 \<and> h_at fs1 (D @ ds @ [c]) = h_at fs (D @ ds @ [c])"
proof -
  let ?Q = "\<lambda>f. volume_inv D at0 f \<and> hf_umask f = hf_umask fs \<and> (\<forall>q. h_at fs q \<noteq> None \<or> \<not> prefix q (D @ ds) \<longrightarrow> h_at f q = h_at fs q)
     \<and> (\<forall>q. h_at fs q = None \<longrightarrow> h_at f q = None \<or> is_hdir (h_at f q))"
  have "?Q fs1 \<and> hf_ok fs1 \<and> no_link_on fs1 [] (D @ ds) \<and> is_hdir (h_at fs1 (D @ ds))"
  proof (rule h_mkdir_all_induct [where Q = ?Q, OF m plain volume_inv_no_link [OF inv] ok])
    show "prefix D (D @ ds)" by simp
    show "?Q fs" using inv by simp
  next
    fix f1 f2 r
    assume q: "?Q f1" and f: "hf_ok f1" "prefix r (D @ ds)" "r \<noteq> []" "h_at f1 r = None"
      and "\<forall>q. strict_prefix q r \<longrightarrow> is_hdir (h_at f1 q)" and c: "h_create r (HDir (masked f1 m)) f1 = Inr f2"
    have "\<not> prefix r D" using volume_invD(2) [of D at0 f1 r] q f(4) by auto
    then have "strict_prefix D r" using f(2) prefix_same_cases [of r "D @ ds" D] by (auto simp: strict_prefix_def)
    then have "volume_inv D at0 f2" using volume_inv_create [OF _ f(1) c] q f(4) by simp
    then show "?Q f2" using q f(2,4) h_create_at(2) [OF c f(1,3)] h_umask_create [OF c] by auto
  qed
  moreover have "\<not> prefix (D @ ds @ [c]) (D @ ds)" by (auto simp: prefix_def)
  moreover have "prefix q (D @ ds) \<Longrightarrow> prefix q (D @ ds @ [c])" for q
    using prefix_order.trans [of q "D @ ds" "(D @ ds) @ [c]"] by simp
  ultimately show ?thesis by (auto simp: only_adds_def)
qed

lemma write_key_ok:
  assumes plain: "\<forall>c \<in> set D. plain_comp c" and inv: "volume_inv D at0 fs" and ok: "hf_ok fs"
    and ne: "D \<noteq> []" and w: "write_key (abs_path D) rel content m fs = Inr fs'"
  defines "p \<equiv> D @ path_comps (CHR ''/'' # rel)"
  shows "volume_inv D at0 fs' \<and> hf_ok fs' \<and> only_adds p fs fs' \<and> p \<noteq> D
    \<and> (\<exists>m0. h_at fs' p = Some (HFile m0 content) \<and> (h_at fs p = None \<longrightarrow> m0 = masked fs m))
    \<and> (h_at fs p = None \<or> (\<exists>m0 b. h_at fs p = Some (HFile m0 b)))"
proof -
  let ?cs = "path_comps (CHR ''/'' # rel)"
  note tgt = volume_target_abs [OF plain, of rel]
  have pp: "\<forall>c \<in> set p. plain_comp c" using plain tgt(2) by (auto simp: p_def)
  obtain fs1 where mk: "h_mkdir_all (length (abs_path p)) (path_dir (abs_path p)) 0x1ED fs = Inr fs1"
    and wr: "h_write (abs_path p) content m fs1 = Inr fs'"
    using w by (auto simp: write_key_def Let_def tgt(1) p_def)
  have one: "volume_inv D at0 fs1 \<and> hf_ok fs1 \<and> only_adds p fs fs1 \<and> h_at fs1 p = h_at fs p" if cne: "?cs \<noteq> []"
  proof -
    obtain ds c where cs: "?cs = ds @ [c]" using cne by (metis rev_exhaust)
    then have "path_dir (abs_path p) = abs_path (D @ ds)" using path_dir_abs [of "D @ ds" c] pp by (simp add: p_def)
    then show ?thesis using volume_mkdir_all [OF _ inv ok, of ds] mk cs pp by (simp add: p_def)
  qed
  obtain r where r: "h_resolve True fs1 (abs_path p) = Inr r" and wr': "(case h_at fs1 r of
         Some (HDir _) \<Rightarrow> Inl EISDIR
       | Some (HFile m0 _) \<Rightarrow> h_set r (HFile m0 content) fs1
       | Some (HLink _) \<Rightarrow> Inl ELOOP
       | None \<Rightarrow> h_create r (HFile (masked fs1 m) content) fs1) = Inr fs'"
    using wr by (auto simp: h_write_def)
  show ?thesis
  proof (cases "?cs = []")
    case True
    then have p: "p = D" by (simp add: p_def)
    obtain ds c where D: "D = ds @ [c]" using ne by (metis rev_exhaust)
    have dir: "path_dir (abs_path D) = abs_path ds" using path_dir_abs [of ds c] plain D by simp
    have pre: "prefix q ds \<Longrightarrow> prefix q D" for q by (auto simp: D prefix_def)
    have "volume_inv D at0 fs1 \<and> hf_ok fs1 \<and> no_link_on fs1 [] ds \<and> is_hdir (h_at fs1 ds)"
    proof (rule h_mkdir_all_induct [where Q = "volume_inv D at0", OF _ _ _ ok inv])
      show "h_mkdir_all (length (abs_path p)) (abs_path ds) 0x1ED fs = Inr fs1" using mk dir p by simp
      show "\<forall>c \<in> set ds. plain_comp c" using plain D by simp
      show "no_link_on fs [] ds" by (rule no_link_on_prefix [OF volume_inv_no_link [OF inv prefix_order.refl] pre [OF prefix_order.refl]])
    qed (use pre volume_invD(2) in fastforce)
    then have "no_link_on fs1 [] D" "is_hdir (h_at fs1 D)" using volume_inv_no_link volume_invD(2) by blast+
    then show ?thesis using wr' h_resolve_plain [OF pp _ r] p by (auto simp: is_hdir_iff)
  next
    case False
    then have sp: "strict_prefix D p" by (auto simp: p_def strict_prefix_def)
    note o = one [OF False]
    have rp: "r = p" using h_resolve_plain [OF pp volume_inv_no_link r] o by (auto simp: p_def)
    have mask: "masked fs1 m = masked fs m" using o by (simp add: masked_def only_adds_def)
    show ?thesis
    proof (cases "h_at fs1 p")
      case None
      then have c: "h_create p (HFile (masked fs m) content) fs1 = Inr fs'" using wr' rp mask by simp
      have pn: "p \<noteq> []" using sp by auto
      have o1: "hf_ok fs1" and "h_at fs p = None" using o None by auto
      then show ?thesis
        using volume_inv_create [OF _ o1 c sp _ None] h_create_at [OF c o1 pn] h_umask_create [OF c] o sp
        by (auto simp: only_adds_def)
    next
      case (Some n)
      then obtain m0 b where n: "n = HFile m0 b" and c: "h_set p (HFile m0 content) fs1 = Inr fs'"
        using wr' rp by (auto split: hnode.splits)
      have "h_at fs p = Some (HFile m0 b)" using o Some n by simp
      then show ?thesis
        using volume_inv_set [OF _ c sp] h_set_at(3) [OF c] h_umask_set [OF c] o sp Some
        by (auto simp: only_adds_def)
    qed
  qed
qed

subsection \<open>The whole volume\<close>

text \<open>Every name is below directories.\<close>

definition hf_tree :: "hfs \<Rightarrow> bool" where
  "hf_tree fs \<longleftrightarrow> list_all (\<lambda>(q, i). list_all (\<lambda>r. r = q \<or> is_hdir (h_at fs r)) (prefixes q)) (hf_names fs)"

lemma hf_treeD: "hf_tree fs \<Longrightarrow> (q, i) \<in> set (hf_names fs) \<Longrightarrow> strict_prefix r q \<Longrightarrow> is_hdir (h_at fs r)"
  by (fastforce simp: hf_tree_def list_all_iff strict_prefix_def)

lemma map_of_filter_hf: "map_of (filter (\<lambda>(q, i). P q) xs) q = (if P q then map_of xs q else None)"
  by (induction xs) auto

lemma h_remove_all_at:
  assumes "\<forall>c \<in> set D. plain_comp c" and "no_link_on fs [] D" and "hf_tree fs" and "hf_ok fs" and "h_remove_all (abs_path D) fs = Inr fs1"
  shows "hf_ok fs1 \<and> hf_umask fs1 = hf_umask fs \<and> hf_next fs1 = hf_next fs
    \<and> (\<forall>q. map_of (hf_names fs1) q = (if prefix D q then None else map_of (hf_names fs) q))
    \<and> (\<forall>q. q \<noteq> [] \<longrightarrow> h_at fs1 q = (if prefix D q then None else h_at fs q))"
proof (cases "h_resolve False fs (abs_path D)")
  case (Inl e)
  then have e: "e = ENOENT" "fs1 = fs" using assms(5) by (auto simp: h_remove_all_def split: errno.splits)
  then obtain r where r: "strict_prefix r D" "h_at fs r = None"
    using h_walk_missing [OF assms(1,2), of max_links False] Inl h_resolve_abs [OF assms(1)] by auto
  have "map_of (hf_names fs) q = None" if "prefix D q" for q
  proof (rule ccontr)
    assume "map_of (hf_names fs) q \<noteq> None"
    then obtain i where "(q, i) \<in> set (hf_names fs)" by (auto dest: map_of_SomeD)
    then have "is_hdir (h_at fs r)" using hf_treeD [OF assms(3)] r(1) that by (metis prefix_order.less_le_trans)
    then show False using r(2) by simp
  qed
  then show ?thesis using assms(4) e by (auto simp: h_at_def)
next
  case (Inr r)
  then have r: "r = D" using h_resolve_plain [OF assms(1,2)] by blast
  then have fs1: "fs1 = fs\<lparr>hf_names := filter (\<lambda>(q, i). \<not> prefix D q) (hf_names fs)\<rparr>"
    using assms(5) Inr by (auto simp: h_remove_all_def split: if_splits)
  then show ?thesis using assms(4) by (auto simp: hf_ok_def h_at_def map_of_filter_hf)
qed

lemma fresh_dir_ok:
  assumes plain: "\<forall>c \<in> set D. plain_comp c" and ne: "D \<noteq> []" and link: "no_link_on fs [] D" and tree: "hf_tree fs" and ok: "hf_ok fs"
    and f: "fresh_dir (abs_path D) fs = Inr fs'"
  shows "hf_ok fs' \<and> hf_umask fs' = hf_umask fs \<and> volume_inv D (h_at fs') fs'
    \<and> (\<forall>p. \<not> prefix p D \<or> h_at fs p \<noteq> None \<and> p \<noteq> D \<longrightarrow> h_at fs' p = (if prefix D p then None else h_at fs p))"
proof -
  obtain fs1 where rm: "h_remove_all (abs_path D) fs = Inr fs1"
    and mk: "h_mkdir_all (length (abs_path D)) (abs_path D) 0x1ED fs1 = Inr fs'"
    using f by (auto simp: fresh_dir_def)
  have r: "hf_ok fs1" "hf_umask fs1 = hf_umask fs"
    "map_of (hf_names fs1) q = (if prefix D q then None else map_of (hf_names fs) q)"
    "q \<noteq> [] \<Longrightarrow> h_at fs1 q = (if prefix D q then None else h_at fs q)" for q
    using h_remove_all_at [OF plain link tree ok rm] by auto
  have root: "h_at f [] = Some (HDir 0x1ED)" for f by (simp add: h_at_def)
  have r5: "h_at fs1 q = (if prefix D q then None else h_at fs q)" for q using r(4) [of q] ne root by (cases "q = []") auto
  have l1: "no_link_on fs1 [] D" using link r5 by (auto simp: no_link_on_iff)
  let ?Q = "\<lambda>f. hf_umask f = hf_umask fs
     \<and> (\<forall>p. \<not> prefix p D \<or> h_at fs p \<noteq> None \<and> p \<noteq> D \<longrightarrow> h_at f p = (if prefix D p then None else h_at fs p))
     \<and> (\<forall>p. strict_prefix D p \<longrightarrow> map_of (hf_names f) p = None)
     \<and> (\<forall>q i. map_of (hf_names f) D = Some i \<longrightarrow> map_of (hf_names f) q = Some i \<longrightarrow> q = D)
     \<and> (\<forall>p. strict_prefix p D \<longrightarrow> h_at f D \<noteq> None \<longrightarrow> is_hdir (h_at f p))"
  have "?Q fs' \<and> hf_ok fs' \<and> no_link_on fs' [] D \<and> is_hdir (h_at fs' D)"
  proof (rule h_mkdir_all_induct [where Q = ?Q, OF mk plain l1 r(1)])
    show "?Q fs1" using r(2,3) r5 by (auto simp: strict_prefix_def)
  next
    fix f1 f2 p
    assume q: "?Q f1" and ok1: "hf_ok f1" and p: "prefix p D" "p \<noteq> []" "h_at f1 p = None"
      and dirs: "\<forall>q. strict_prefix q p \<longrightarrow> is_hdir (h_at f1 q)" and c: "h_create p (HDir (masked f1 0x1ED)) f1 = Inr f2"
    note at = h_create_at(2) [OF c ok1 p(2)] and nm = h_create_at(3) [OF c ok1 p(2)]
    have new: "map_of (hf_names f1) x \<noteq> Some (hf_next f1)" for x using hf_ok_name [OF ok1] by fastforce
    have "hf_umask f2 = hf_umask fs" using q h_umask_create [OF c] by simp
    moreover have "h_at f2 x = (if prefix D x then None else h_at fs x)"
      if x: "\<not> prefix x D \<or> h_at fs x \<noteq> None \<and> x \<noteq> D" for x
    proof -
      have "\<not> prefix D p \<or> p = D" using p(1) prefix_order.antisym by blast
      then have "x \<noteq> p" using x p(1,3) q by (metis option.distinct(1))
      then show ?thesis using q x at by simp
    qed
    moreover have "map_of (hf_names f2) x = None" if "strict_prefix D x" for x
      using q that p(1) nm by (auto simp: strict_prefix_def)
    moreover have "x = D" if "map_of (hf_names f2) D = Some i" "map_of (hf_names f2) x = Some i" for x i
    proof -
      have "map_of (hf_names f1) D = Some i \<Longrightarrow> map_of (hf_names f1) x = Some i \<Longrightarrow> x = D" using q by blast
      then show ?thesis using that nm [of D] nm [of x] new [of D] new [of x] by (auto split: if_splits)
    qed
    moreover have "is_hdir (h_at f2 x)" if "strict_prefix x D" "h_at f2 D \<noteq> None" for x
    proof -
      have "h_at f1 D \<noteq> None \<Longrightarrow> is_hdir (h_at f1 x)" using q that(1) by blast
      then show ?thesis using that at [of x] at [of D] dirs by (auto split: if_splits)
    qed
    ultimately show "?Q f2" by blast
  qed
  then have q: "?Q fs'" and k: "hf_ok fs'" "no_link_on fs' [] D" "is_hdir (h_at fs' D)" by auto
  have "h_at fs' D \<noteq> None" using k(3) by (cases "h_at fs' D") auto
  then have dirs: "is_hdir (h_at fs' p)" if "prefix p D" for p using q k(3) that by (auto simp: strict_prefix_def)
  have none: "h_at fs' p = None" if "strict_prefix D p" for p
  proof -
    have "p \<noteq> []" "map_of (hf_names fs') p = None" using that q by auto
    then show ?thesis by (simp add: h_at_def)
  qed
  have "volume_inv D (h_at fs') fs'"
    unfolding volume_inv_def
  proof (intro conjI allI impI)
    fix p
    assume "prefix D p"
    then show "\<not> is_link (h_at fs' p)" using none k(3) by (cases "p = D") (auto simp: strict_prefix_def is_hdir_iff)
  next
    fix p x i
    assume a: "prefix D p" "map_of (hf_names fs') p = Some i" "map_of (hf_names fs') x = Some i"
    then have "p = D" using q by (auto simp: strict_prefix_def)
    then show "p = x" using a q by metis
  qed (use dirs in auto)
  then show ?thesis using q k(1) by blast
qed

text \<open>The files of a volume: below the directory, their content and mode.\<close>

definition volume_files :: "(string \<times> bytes) list \<Rightarrow> key_item list \<Rightarrow> int option \<Rightarrow> (string \<times> bytes \<times> nat) list" where
  "volume_files data items defm =
     (if items = [] then map (\<lambda>(k, v). (k, v, default_mode defm)) data
      else map (\<lambda>it. (ki_path it, the (map_of data (ki_key it)), case ki_mode it of None \<Rightarrow> default_mode defm | Some m \<Rightarrow> file_mode m))
             items)"

definition file_comps :: "string \<Rightarrow> string list" where
  "file_comps rel = path_comps (CHR ''/'' # rel)"

definition write_file_of :: "string \<Rightarrow> hfs \<Rightarrow> string \<times> bytes \<times> nat \<Rightarrow> hfs hcall" where
  "write_file_of dir fs f = (case f of (rel, c, m) \<Rightarrow> write_key dir rel c m fs)"

lemma write_file_of_simp: "write_file_of dir fs (rel, c, m) = write_key dir rel c m fs"
  by (simp add: write_file_of_def)

lemma write_items_files:
  "foldr_err (write_item dir data (default_mode defm)) fs items = Inr fs'
   \<Longrightarrow> foldr_err (write_file_of dir) fs (map (\<lambda>it. (ki_path it, the (map_of data (ki_key it)),
         case ki_mode it of None \<Rightarrow> default_mode defm | Some m \<Rightarrow> file_mode m)) items) = Inr fs'
     \<and> (\<forall>it \<in> set items. map_of data (ki_key it) \<noteq> None)"
  by (induction items arbitrary: fs) (auto simp: write_item_def write_file_of_def split: option.splits)

lemma write_data_files:
  "foldr_err (\<lambda>fs (k, v). io (write_key dir k v m fs)) fs data = Inr fs'
   \<Longrightarrow> foldr_err (write_file_of dir) fs (map (\<lambda>(k, v). (k, v, m)) data) = Inr fs'"
  by (induction data arbitrary: fs) (auto simp: write_file_of_def)

lemma write_volume_keys_files:
  assumes "write_volume_keys dir data items defm fs = Inr fs'"
  obtains fs1 where "fresh_dir dir fs = Inr fs1" "foldr_err (write_file_of dir) fs1 (volume_files data items defm) = Inr fs'"
    "\<forall>it \<in> set items. map_of data (ki_key it) \<noteq> None"
  using assms write_items_files write_data_files
  by (fastforce simp: write_volume_keys_def volume_files_def Let_def split: if_splits)

lemma write_files_inv:
  assumes "foldr_err (write_file_of (abs_path D)) fs files = Inr fs'" and plain: "\<forall>c \<in> set D. plain_comp c" "D \<noteq> []"
    and "volume_inv D at0 fs" and "hf_ok fs"
  shows "volume_inv D at0 fs'"
proof -
  have "volume_inv D at0 fs' \<and> hf_ok fs'"
  proof (rule foldr_err_invariant [OF assms(1), where P = "\<lambda>f. volume_inv D at0 f \<and> hf_ok f"])
    fix f x f'
    assume i: "volume_inv D at0 f \<and> hf_ok f" and w: "write_file_of (abs_path D) f x = Inr f'"
    obtain rel c m where "x = (rel, c, m)" by (cases x)
    then have "write_key (abs_path D) rel c m f = Inr f'" using w by (simp add: write_file_of_simp)
    then show "volume_inv D at0 f' \<and> hf_ok f'" using write_key_ok [OF plain(1) _ _ plain(2)] i by blast
  qed (use assms(4,5) in simp)
  then show ?thesis ..
qed

lemma write_files_hold:
  assumes "foldr_err (write_file_of (abs_path D)) fs todo = Inr fs'" and plain: "\<forall>c \<in> set D. plain_comp c" "D \<noteq> []"
    and "volume_inv D at0 fs" and "hf_ok fs" and "hf_umask fs = u"
    and "sorted_wrt (\<lambda>a b. \<not> prefix (file_comps (fst a)) (file_comps (fst b)) \<and> \<not> prefix (file_comps (fst b)) (file_comps (fst a))) (seen @ todo)"
    and "\<forall>(rel, c, m) \<in> set seen. h_at fs (D @ file_comps rel) = Some (HFile (mode_bits m u) c)"
    and "\<forall>p m c. prefix D p \<longrightarrow> h_at fs p = Some (HFile m c) \<longrightarrow> (\<exists>f \<in> set seen. p = D @ file_comps (fst f))"
  shows "(\<forall>(rel, c, m) \<in> set (seen @ todo). h_at fs' (D @ file_comps rel) = Some (HFile (mode_bits m u) c))
    \<and> (\<forall>p m c. prefix D p \<longrightarrow> h_at fs' p = Some (HFile m c) \<longrightarrow> (\<exists>f \<in> set (seen @ todo). p = D @ file_comps (fst f)))"
  using assms(1,4-)
proof (induction todo arbitrary: fs seen)
  case (Cons f todo)
  obtain rel c m where f: "f = (rel, c, m)" by (cases f)
  let ?p = "D @ file_comps rel"
  obtain fs1 where w: "write_key (abs_path D) rel c m fs = Inr fs1"
    and rest: "foldr_err (write_file_of (abs_path D)) fs1 todo = Inr fs'"
    using Cons.prems(1) by (auto simp: write_file_of_simp f)
  note k = write_key_ok [OF plain(1) Cons.prems(2,3) plain(2) w, folded file_comps_def]
  have adds: "only_adds ?p fs fs1" using k by blast
  have apart: "\<not> prefix ?p (D @ file_comps (fst g)) \<and> ?p \<noteq> D @ file_comps (fst g)" if "g \<in> set seen" for g
    using Cons.prems(5) that by (auto simp: sorted_wrt_append f)
  have none: "h_at fs ?p = None"
  proof (rule ccontr)
    assume "h_at fs ?p \<noteq> None"
    then obtain m0 b where "h_at fs ?p = Some (HFile m0 b)" using k by auto
    then show False using Cons.prems(7) apart by (metis prefixI)
  qed
  then have new: "h_at fs1 ?p = Some (HFile (mode_bits m u) c)"
    using k Cons.prems(4) by (auto simp: masked_def)
  have "(\<forall>(rel, c, m) \<in> set ((seen @ [f]) @ todo). h_at fs' (D @ file_comps rel) = Some (HFile (mode_bits m u) c))
    \<and> (\<forall>p m c. prefix D p \<longrightarrow> h_at fs' p = Some (HFile m c) \<longrightarrow> (\<exists>f \<in> set ((seen @ [f]) @ todo). p = D @ file_comps (fst f)))"
  proof (rule Cons.IH [OF rest])
    show "volume_inv D at0 fs1" "hf_ok fs1" using k by blast+
    show "hf_umask fs1 = u" using adds Cons.prems(4) by (simp add: only_adds_def)
    show "sorted_wrt (\<lambda>a b. \<not> prefix (file_comps (fst a)) (file_comps (fst b)) \<and> \<not> prefix (file_comps (fst b)) (file_comps (fst a)))
      ((seen @ [f]) @ todo)" using Cons.prems(5) by simp
    show "\<forall>(rel, c, m) \<in> set (seen @ [f]). h_at fs1 (D @ file_comps rel) = Some (HFile (mode_bits m u) c)"
    proof clarify
      fix rel' c' m'
      assume g: "(rel', c', m') \<in> set (seen @ [f])"
      show "h_at fs1 (D @ file_comps rel') = Some (HFile (mode_bits m' u) c')"
      proof (cases "(rel', c', m') \<in> set seen")
        case True
        then have "h_at fs (D @ file_comps rel') = Some (HFile (mode_bits m' u) c')"
          "?p \<noteq> D @ file_comps rel'" using Cons.prems(6) apart [OF True] by auto
        then show ?thesis using only_adds_keep [OF adds] by auto
      qed (use g new f in simp)
    qed
    show "\<forall>p m c. prefix D p \<longrightarrow> h_at fs1 p = Some (HFile m c) \<longrightarrow> (\<exists>f \<in> set (seen @ [f]). p = D @ file_comps (fst f))"
    proof (intro allI impI)
      fix p m0 b
      assume p: "prefix D p" "h_at fs1 p = Some (HFile m0 b)"
      show "\<exists>g \<in> set (seen @ [f]). p = D @ file_comps (fst g)"
      proof (cases "p = ?p")
        case False
        then have "h_at fs p = Some (HFile m0 b)" using only_adds_new [OF adds] p(2) by blast
        then show ?thesis using Cons.prems(7) p(1) by auto
      qed (simp add: f)
    qed
  qed
  then show ?case by simp
qed simp

subsection \<open>Properties\<close>

text \<open>C22: Materializing a volume touches nothing outside its directory: whatever its keys and paths are (also
  \<^verbatim>\<open>../../x\<close>), every path that is not below the directory keeps its object, and only missing parent
  directories of the directory are new.\<close>

theorem volume_stays_below:
  assumes "\<forall>c \<in> set D. plain_comp c" and "D \<noteq> []" and "no_link_on fs [] D" and "hf_tree fs" and "hf_ok fs"
    and "write_volume_keys (abs_path D) data items defm fs = Inr fs'" and "\<not> prefix D p"
  shows "h_at fs' p = h_at fs p \<or> h_at fs p = None \<and> prefix p D"
proof -
  obtain fs1 where f: "fresh_dir (abs_path D) fs = Inr fs1"
    and w: "foldr_err (write_file_of (abs_path D)) fs1 (volume_files data items defm) = Inr fs'"
    using write_volume_keys_files [OF assms(6)] by metis
  note fresh = fresh_dir_ok [OF assms(1-5) f]
  have "volume_inv D (h_at fs1) fs'" using write_files_inv [OF w assms(1,2)] fresh by blast
  then have "h_at fs' p = h_at fs1 p" using volume_invD(1) assms(7) by metis
  moreover have "h_at fs p = None \<and> prefix p D \<or> h_at fs1 p = h_at fs p" using fresh assms(7) by auto
  ultimately show ?thesis by auto
qed

text \<open>C23: Once a volume is materialized its directory holds exactly the projected files: each one at its place with
  its key's content, the mode being the requested permission bits without those of the umask, and no file that was
  there before.  (No file lies on the way to another.)\<close>

theorem volume_holds_files:
  assumes "\<forall>c \<in> set D. plain_comp c" and "D \<noteq> []" and "no_link_on fs [] D" and "hf_tree fs" and "hf_ok fs"
    and "write_volume_keys (abs_path D) data items defm fs = Inr fs'"
    and "sorted_wrt (\<lambda>a b. \<not> prefix (file_comps (fst a)) (file_comps (fst b)) \<and> \<not> prefix (file_comps (fst b)) (file_comps (fst a)))
           (volume_files data items defm)"
  shows "(\<forall>(rel, c, m) \<in> set (volume_files data items defm).
            h_at fs' (D @ file_comps rel) = Some (HFile (mode_bits m (hf_umask fs)) c))
    \<and> (\<forall>p m c. prefix D p \<longrightarrow> h_at fs' p = Some (HFile m c) \<longrightarrow>
         (\<exists>f \<in> set (volume_files data items defm). p = D @ file_comps (fst f)))"
proof -
  obtain fs1 where f: "fresh_dir (abs_path D) fs = Inr fs1"
    and w: "foldr_err (write_file_of (abs_path D)) fs1 (volume_files data items defm) = Inr fs'"
    using write_volume_keys_files [OF assms(6)] by metis
  note fresh = fresh_dir_ok [OF assms(1-5) f]
  have none: "\<not> (prefix D p \<and> h_at fs1 p = Some (HFile m c))" for p m c
  proof
    assume p: "prefix D p \<and> h_at fs1 p = Some (HFile m c)"
    have "is_hdir (h_at fs1 D)" using fresh volume_invD(2) by blast
    then have "p \<noteq> D" using p by auto
    then have "\<not> prefix p D" using p prefix_order.antisym by blast
    then have "h_at fs1 p = None" using fresh p by auto
    then show False using p by simp
  qed
  show ?thesis
    using write_files_hold [OF w assms(1,2), of "h_at fs1" "hf_umask fs" "[]"] fresh none assms(7) by simp
qed

subsection \<open>Witnesses\<close>

definition demo_host :: hfs where
  "demo_host = \<lparr>hf_names = [([''d''], 0), ([''d'', ''old''], 1)], hf_objs = (\<lambda>i. if i = 0 then HDir 0x1ED else HFile 0x1A4 []),
     hf_next = 2, hf_denied = (\<lambda>_. False), hf_umask = 18\<rparr>"

lemma demo_host_facts: "no_link_on demo_host [] [''d'']" "hf_tree demo_host" "hf_ok demo_host" "hf_umask demo_host = 18"
    "\<forall>c \<in> set [''d'']. plain_comp c" "abs_path [''d''] = ''/d''"
  by code_simp+

lemma demo_volume: obtains fs' where "write_volume_keys ''/d'' [(''k'', [7])] [] (Some 0x1B6) demo_host = Inr fs'"
proof -
  have "case write_volume_keys ''/d'' [(''k'', [7])] [] (Some 0x1B6) demo_host of Inr fs' \<Rightarrow> True | Inl _ \<Rightarrow> False" by code_simp
  then show ?thesis using that by (cases "write_volume_keys ''/d'' [(''k'', [7])] [] (Some 0x1B6) demo_host") auto
qed

lemma volume_stays_below_witness:
  "\<exists>fs'. write_volume_keys ''/d'' [(''k'', [7])] [] (Some 0x1B6) demo_host = Inr fs' \<and> h_at fs' [''e''] = None"
proof -
  obtain fs' where w: "write_volume_keys ''/d'' [(''k'', [7])] [] (Some 0x1B6) demo_host = Inr fs'" by (rule demo_volume)
  have "\<not> prefix [''d''] [''e'']" "h_at demo_host [''e''] = None" by code_simp+
  then have "h_at fs' [''e''] = None"
    using volume_stays_below [OF demo_host_facts(5) _ demo_host_facts(1-3), of "[(''k'', [7])]" "[]" "Some 0x1B6" fs' "[''e'']"] w
      demo_host_facts(6) by simp
  then show ?thesis using w by blast
qed

lemma volume_holds_files_witness:
  "\<exists>fs'. write_volume_keys ''/d'' [(''k'', [7])] [] (Some 0x1B6) demo_host = Inr fs'
     \<and> h_at fs' [''d'', ''k''] = Some (HFile 0x1A4 [7])"
proof -
  obtain fs' where w: "write_volume_keys ''/d'' [(''k'', [7])] [] (Some 0x1B6) demo_host = Inr fs'" by (rule demo_volume)
  have "volume_files [(''k'', [7])] [] (Some 0x1B6) = [(''k'', [7], 0x1B6)]" "file_comps ''k'' = [''k'']"
    "mode_bits 0x1B6 18 = 0x1A4" by code_simp+
  then have "h_at fs' ([''d''] @ [''k'']) = Some (HFile 0x1A4 [7])"
    using volume_holds_files [OF demo_host_facts(5) _ demo_host_facts(1-3), of "[(''k'', [7])]" "[]" "Some 0x1B6" fs'] w
      demo_host_facts(4,6) by simp
  then show ?thesis using w by auto
qed

end
