(* ===== verification/Images.thy ===== *)
theory Images imports Volumes Erofs_Image Go_Net begin

text \<open>
  The image cache (\<^verbatim>\<open>poc/agent/images.go\<close>): the path an image is cached at, pulling it once, the conversion to an
  EROFS file that appears by a rename, and the legacy extraction of the tar stream into a directory.  The registry is a
  parameter: what the pull answers.
\<close>

subsection \<open>Extracting a tar stream\<close>

definition untar_target :: "string \<Rightarrow> string \<Rightarrow> string" where
  "untar_target dest name = path_join [dest, path_clean (CHR ''/'' # name)]"

definition make_parent :: "string \<Rightarrow> hfs \<Rightarrow> hfs" where
  "make_parent target = attempt (h_mkdir_all (length target) (path_dir target) 0x1ED)"

text \<open>The error the entry ends the extraction with, if any, and the new state; a call that fails has done nothing
  (an \<^verbatim>\<open>os.MkdirAll\<close> that fails may have made some of the parents).\<close>

definition or_fail :: "hfs \<Rightarrow> hfs hcall \<Rightarrow> errno option \<times> hfs" where
  "or_fail fs r = (case r of Inl e \<Rightarrow> (Some e, fs) | Inr fs' \<Rightarrow> (None, fs'))"

definition untar_entry :: "string \<Rightarrow> tar_header \<Rightarrow> hfs \<Rightarrow> errno option \<times> hfs" where
  "untar_entry dest h fs =
     (let target = untar_target dest (hdr_name h); mode = nat (hdr_mode h mod 4096)
      in if \<not> has_prefix target (path_clean dest @ ''/'') \<and> target \<noteq> path_clean dest then (None, fs)
         else case hdr_type h of
           TypeDir \<Rightarrow>
             (case h_mkdir_all (length target) target 0x1ED fs of
                Inl e \<Rightarrow> (Some e, fs)
              | Inr fs1 \<Rightarrow> (None, attempt (h_chmod target (or mode 0x1C0)) fs1))
         | TypeReg \<Rightarrow>
             (let fs0 = make_parent target fs
              in case h_write target (hdr_body h) mode fs0 of
                   Inl e \<Rightarrow> (Some e, fs0)
                 | Inr fs1 \<Rightarrow> (if hdr_fails h then Some EINVAL else None, fs1))
         | TypeSymlink \<Rightarrow>
             (let fs0 = attempt (h_remove target) (make_parent target fs) in or_fail fs0 (h_symlink (hdr_link h) target fs0))
         | TypeLink \<Rightarrow>
             (let fs0 = attempt (h_remove target) (make_parent target fs)
              in or_fail fs0 (h_link (untar_target dest (hdr_link h)) target fs0))
         | _ \<Rightarrow> (None, fs))"

fun untar :: "string \<Rightarrow> tar_header list \<Rightarrow> bool \<Rightarrow> hfs \<Rightarrow> errno option \<times> hfs" where
  "untar dest [] broken fs = (if broken then Some EINVAL else None, fs)"
| "untar dest (h # hs) broken fs =
     (case untar_entry dest h fs of
        (Some e, fs') \<Rightarrow> (Some e, fs')
      | (None, fs') \<Rightarrow> untar dest hs broken fs')"

subsection \<open>The cache\<close>

definition safe_char :: "char \<Rightarrow> char" where
  "safe_char c =
     (if CHR ''a'' \<le> c \<and> c \<le> CHR ''z'' \<or> CHR ''0'' \<le> c \<and> c \<le> CHR ''9'' \<or> c \<in> {CHR ''.'', CHR ''-'', CHR ''_''}
      then c else CHR ''-'')"

text \<open>\<open>sum8\<close> is the first eight bytes of the SHA-256 digest.\<close>

definition image_base :: "(string \<Rightarrow> bytes) \<Rightarrow> string \<Rightarrow> string \<Rightarrow> string" where
  "image_base sum8 images_dir img =
     path_join [images_dir, hex_encode (sum8 img) @ ''-'' @ map safe_char (to_lower img)]"

text \<open>What pulling the image answers: a bad reference, a failed fetch, the config (architecture, OS, its JSON)
  when it can be read, the flattened layers and whether the stream breaks off; and how much the disk takes.\<close>

record pulled =
  pu_parse :: "string option"
  pu_fetch :: "string option"
  pu_config :: "(string \<times> string \<times> bytes) option"
  pu_tar :: "tar_header list"
  pu_broken :: bool
  pu_close :: "string option"
  pu_room :: nat

definition pull_checked :: "pulled \<Rightarrow> string + unit" where
  "pull_checked p =
     (case pu_parse p of Some e \<Rightarrow> Inl (''parsing image reference: '' @ e)
      | None \<Rightarrow> (case pu_fetch p of Some e \<Rightarrow> Inl (''fetching image: '' @ e)
      | None \<Rightarrow> (case pu_config p of
                   Some (arch, os, _) \<Rightarrow>
                     if arch \<noteq> ''arm64'' \<or> os \<noteq> ''linux''
                     then Inl (''image is '' @ os @ ''/'' @ arch @ ''; this node runs only linux/arm64 microVMs'')
                     else Inr ()
                 | None \<Rightarrow> Inr ())))"

definition write_config :: "string \<Rightarrow> pulled \<Rightarrow> hfs \<Rightarrow> hfs" where
  "write_config base p fs =
     (case pu_config p of
        None \<Rightarrow> fs
      | Some (_, _, json) \<Rightarrow> attempt (h_write (base @ ''.config.json'') json 0x1A4) fs)"

text \<open>Block mode: convert into a temporary file, then rename it.\<close>

definition build_erofs :: "string \<Rightarrow> pulled \<Rightarrow> hfs \<Rightarrow> (string + string) \<times> hfs" where
  "build_erofs base p fs =
     (let tmp = base @ ''.erofs.tmp''
      in case h_write tmp [] 0x1B6 fs of
           Inl e \<Rightarrow> (Inl ''create'', fs)
         | Inr fs1 \<Rightarrow>
             (case erofs_convert (pu_tar p) (pu_broken p) \<lparr>dev_data = [], dev_pos = 0, dev_cap = pu_room p, dev_seeks = True\<rparr> of
                Inl e \<Rightarrow> (Inl ''converting image to erofs'', attempt (h_remove tmp) fs1)
              | Inr d \<Rightarrow>
                  (let fs2 = attempt (h_write tmp (dev_data d) 0x1B6) fs1
                   in case pu_close p of
                        Some e \<Rightarrow> (Inl e, attempt (h_remove tmp) fs2)
                      | None \<Rightarrow> (case h_rename tmp (base @ ''.erofs'') fs2 of
                                   Inl e \<Rightarrow> (Inl ''rename'', fs2)
                                 | Inr fs3 \<Rightarrow> (Inr base, fs3)))))"

definition sticky_dir :: "string \<Rightarrow> string \<Rightarrow> hfs \<Rightarrow> hfs" where
  "sticky_dir tmp d fs =
     (let p = path_join [tmp, d]
      in attempt (h_chmod p 0x3FF) (attempt (h_mkdir_all (length p) p 0x1ED) fs))"

definition build_dir :: "string \<Rightarrow> pulled \<Rightarrow> hfs \<Rightarrow> (string + string) \<times> hfs" where
  "build_dir base p fs =
     (let tmp = base @ ''.tmp''; fs1 = attempt (h_remove_all tmp) fs
      in case h_mkdir_all (length tmp) tmp 0x1ED fs1 of
           Inl e \<Rightarrow> (Inl ''mkdir'', fs1)
         | Inr fs2 \<Rightarrow>
             (case untar tmp (pu_tar p) (pu_broken p) fs2 of
                (Some e, fs3) \<Rightarrow> (Inl ''extracting image'', attempt (h_remove_all tmp) fs3)
              | (None, fs3) \<Rightarrow>
                  (let fs4 = sticky_dir tmp ''var/tmp'' (sticky_dir tmp ''tmp'' fs3)
                   in case h_rename tmp base fs4 of
                        Inl e \<Rightarrow> (Inl ''rename'', fs4)
                      | Inr fs5 \<Rightarrow> (Inr base, fs5))))"

definition ensure_image :: "(string \<Rightarrow> bytes) \<Rightarrow> bool \<Rightarrow> string \<Rightarrow> string \<Rightarrow> pulled \<Rightarrow> hfs \<Rightarrow> (string + string) \<times> hfs" where
  "ensure_image sum8 block images_dir img p fs =
     (let base = image_base sum8 images_dir img
      in if isl (h_stat fs (if block then base @ ''.erofs'' else base)) = False then (Inr base, fs)
         else case pull_checked p of
                Inl e \<Rightarrow> (Inl e, fs)
              | Inr _ \<Rightarrow>
                  (let fs1 = write_config base p fs
                   in if block then build_erofs base p fs1 else build_dir base p fs1))"

subsection \<open>Cache paths\<close>

lemma hex_char_props: "n < 16 \<Longrightarrow> hex_char n \<noteq> CHR ''/''" "m < 16 \<Longrightarrow> n < 16 \<Longrightarrow> hex_char m = hex_char n \<Longrightarrow> m = n"
proof -
  have "\<forall>n \<in> set [0..<16]. hex_char n \<noteq> CHR ''/''" by code_simp
  then show "n < 16 \<Longrightarrow> hex_char n \<noteq> CHR ''/''" by simp
  have "distinct (map hex_char [0..<16])" by code_simp
  then show "m < 16 \<Longrightarrow> n < 16 \<Longrightarrow> hex_char m = hex_char n \<Longrightarrow> m = n" by (auto simp: distinct_map inj_on_def)
qed

lemma unat_byte_less: "unat (b :: byte) < 256"
  using unsigned_less [of b] by simp

lemma hex_encode_no_slash: "CHR ''/'' \<notin> set (hex_encode bs)"
proof -
  have "CHR ''/'' \<notin> set (hex_byte b)" for b
  proof -
    have "unat b div 16 < 16" "unat b mod 16 < 16" using unat_byte_less [of b] by simp_all
    then have "hex_char (unat b div 16) \<noteq> CHR ''/''" "hex_char (unat b mod 16) \<noteq> CHR ''/''"
      using hex_char_props(1) by blast+
    then show ?thesis by (simp add: hex_byte_def)
  qed
  then show ?thesis by (auto simp: hex_encode_def)
qed

lemma hex_byte_inj: "hex_byte a = hex_byte b \<Longrightarrow> a = b"
proof -
  assume "hex_byte a = hex_byte b"
  then have "unat a div 16 = unat b div 16" "unat a mod 16 = unat b mod 16"
    using hex_char_props(2) unat_byte_less [of a] unat_byte_less [of b] by (auto simp: hex_byte_def)
  then have "unat a = unat b" by (metis div_mult_mod_eq)
  then show ?thesis by (rule unsigned_word_eqI)
qed

lemma hex_encode_inj: "hex_encode a = hex_encode b \<Longrightarrow> a = b"
proof (induction a arbitrary: b)
  case Nil
  then show ?case by (cases b) (auto simp: hex_encode_def hex_byte_def)
next
  case (Cons x a)
  then obtain y b' where b: "b = y # b'" by (cases b) (auto simp: hex_encode_def hex_byte_def)
  have split: "hex_encode (z # zs) = hex_byte z @ hex_encode zs" for z zs by (simp add: hex_encode_def)
  have "hex_byte x = hex_byte y \<and> hex_encode a = hex_encode b'"
    using Cons.prems by (simp add: b split) (simp add: hex_byte_def)
  then show ?case using Cons.IH hex_byte_inj b by blast
qed

lemma safe_char_no_slash: "safe_char c \<noteq> CHR ''/''"
  by (auto simp: safe_char_def)

text \<open>The last component of the cache path.\<close>

definition cache_name :: "(string \<Rightarrow> bytes) \<Rightarrow> string \<Rightarrow> string" where
  "cache_name sum8 img = hex_encode (sum8 img) @ ''-'' @ map safe_char (to_lower img)"

lemma cache_name_plain:
  assumes "length (sum8 img) = 8" and "CHR ''/'' \<notin> set s"
  shows "plain_comp (cache_name sum8 img @ s)"
proof -
  have "CHR ''/'' \<notin> set (map safe_char (to_lower img))" using safe_char_no_slash by (metis in_set_conv_nth length_map nth_map)
  then have "CHR ''/'' \<notin> set (cache_name sum8 img @ s)" using hex_encode_no_slash assms(2) by (simp add: cache_name_def)
  moreover have "length (cache_name sum8 img @ s) > 2" using assms(1) by (simp add: cache_name_def)
  moreover from this have "cache_name sum8 img @ s \<notin> {[], ''.'', ''..''}" by (metis (no_types) empty_iff insert_iff length_Cons less_numeral_extra(3) list.size(3) not_less_eq numeral_2_eq_2 less_Suc_eq zero_less_Suc)
  ultimately show ?thesis by (simp add: plain_comp_def good_comp_def)
qed

lemma image_base_abs:
  assumes "length (sum8 img) = 8" and "\<forall>c \<in> set I. plain_comp c"
  shows "image_base sum8 (abs_path I) img = abs_path (I @ [cache_name sum8 img])"
proof -
  have "plain_comp (cache_name sum8 img)" using cache_name_plain [of sum8 img "[]"] assms(1) by simp
  then have "path_join [abs_path I, cache_name sum8 img] = abs_path (if cache_name sum8 img = [] then I else I @ [cache_name sum8 img])"
    by (intro path_join_abs [OF assms(2)]) simp
  then show ?thesis by (simp add: image_base_def cache_name_def)
qed

lemma abs_path_append: "abs_path (I @ [c]) @ s = abs_path (I @ [c @ s])"
  by (cases "I = []") (simp_all add: abs_path_def join_with_snoc)

subsection \<open>Files below a directory\<close>

lemma h_write_below:
  assumes plain: "\<forall>c \<in> set p. plain_comp c" and inv: "volume_inv D at0 fs" and ok: "hf_ok fs" and sp: "strict_prefix D p"
    and w: "h_write (abs_path p) content m fs = Inr fs'"
  shows "volume_inv D at0 fs' \<and> hf_ok fs' \<and> (\<exists>m0. \<forall>q. h_at fs' q = (if q = p then Some (HFile m0 content) else h_at fs q))"
proof -
  have pre: "prefix D p" and ne: "p \<noteq> []" using sp by auto
  obtain r where r: "h_resolve True fs (abs_path p) = Inr r" and wr: "(case h_at fs r of
         Some (HDir _) \<Rightarrow> Inl EISDIR
       | Some (HFile m0 _) \<Rightarrow> h_set r (HFile m0 content) fs
       | Some (HLink _) \<Rightarrow> Inl ELOOP
       | None \<Rightarrow> h_create r (HFile (masked fs m) content) fs) = Inr fs'"
    using w by (auto simp: h_write_def)
  have rp: "r = p" using h_resolve_plain [OF plain volume_inv_no_link [OF inv pre] r] .
  show ?thesis
  proof (cases "h_at fs p")
    case None
    then have c: "h_create p (HFile (masked fs m) content) fs = Inr fs'" using wr rp by simp
    have "\<not> is_link (Some (HFile (masked fs m) content))" by simp
    then have "volume_inv D at0 fs'" by (rule volume_inv_create [OF inv ok c sp _ None])
    then show ?thesis using h_create_at(1,2) [OF c ok ne] by blast
  next
    case (Some n)
    then obtain m0 b where c: "h_set p (HFile m0 content) fs = Inr fs'"
      using wr rp by (auto split: hnode.splits)
    have "\<not> is_link (Some (HFile m0 content))" by simp
    then show ?thesis using volume_inv_set [OF inv c sp] h_set_at(3) [OF c] ok by blast
  qed
qed

lemma h_remove_below:
  assumes plain: "\<forall>c \<in> set p. plain_comp c" and inv: "volume_inv D at0 fs" and ok: "hf_ok fs" and sp: "strict_prefix D p"
    and w: "h_remove (abs_path p) fs = Inr fs'"
  shows "\<forall>q. q \<noteq> p \<longrightarrow> h_at fs' q = h_at fs q"
proof -
  have pre: "prefix D p" using sp by auto
  obtain r where r: "h_resolve False fs (abs_path p) = Inr r" using w by (auto simp: h_remove_def)
  have u: "h_unlink r fs = Inr fs'" using w r by (auto simp: h_remove_def split: option.splits hnode.splits if_splits)
  have "r = p" using h_resolve_plain [OF plain volume_inv_no_link [OF inv pre] r] .
  then show ?thesis using u by (auto simp: h_unlink_def h_at_def map_of_filter_hf split: if_splits)
qed

lemma map_of_moved:
  assumes "ra \<noteq> rb" and "\<not> prefix ra rb"
  shows "map_of (map (\<lambda>(q, i). (if prefix ra q then rb @ drop (length ra) q else q, i)) (filter (\<lambda>(q, i). q \<noteq> rb) xs)) rb = map_of xs ra"
proof (induction xs)
  case (Cons x xs)
  obtain q i where x: "x = (q, i)" by force
  have "rb = rb @ drop (length ra) q \<Longrightarrow> prefix ra q \<Longrightarrow> q = ra" by (auto simp: prefix_def)
  then show ?case using Cons assms x by auto
qed simp

lemma h_rename_below:
  assumes plain: "\<forall>c \<in> set a. plain_comp c" "\<forall>c \<in> set b. plain_comp c" and inv: "volume_inv D at0 fs"
    and sp: "strict_prefix D a" "strict_prefix D b" and ne: "a \<noteq> b" and w: "h_rename (abs_path a) (abs_path b) fs = Inr fs'"
  shows "h_at fs' b = h_at fs a"
proof -
  have pre: "prefix D a" "prefix D b" using sp by auto
  have nil: "a \<noteq> []" "b \<noteq> []" using sp by auto
  obtain ra rb where r: "h_resolve False fs (abs_path a) = Inr ra" "h_resolve False fs (abs_path b) = Inr rb"
    using w by (auto simp: h_rename_def)
  have "ra = a" "rb = b" using h_resolve_plain [OF plain(1) volume_inv_no_link [OF inv pre(1)] r(1)]
    h_resolve_plain [OF plain(2) volume_inv_no_link [OF inv pre(2)] r(2)] by auto
  then have "\<not> prefix a b" "fs' = fs\<lparr>hf_names := map (\<lambda>(q, i). (if prefix a q then b @ drop (length a) q else q, i))
                                  (filter (\<lambda>(q, i). q \<noteq> b) (hf_names fs))\<rparr>"
    using w r ne by (auto simp: h_rename_def split: if_splits)
  then show ?thesis using map_of_moved [OF ne, of "hf_names fs"] nil by (simp add: h_at_def)
qed

lemma attempt_remove_below:
  assumes "\<forall>c \<in> set p. plain_comp c" and "volume_inv D at0 fs" and "hf_ok fs" and "strict_prefix D p" and "q \<noteq> p"
  shows "h_at (attempt (h_remove (abs_path p)) fs) q = h_at fs q"
  using h_remove_below [OF assms(1-4)] assms(5) by (cases "h_remove (abs_path p) fs") (auto simp: attempt_def)

lemma attempt_write_below:
  assumes "\<forall>c \<in> set p. plain_comp c" and "volume_inv D at0 fs" and "hf_ok fs" and "strict_prefix D p"
  shows "volume_inv D at0 (attempt (h_write (abs_path p) content m) fs) \<and> hf_ok (attempt (h_write (abs_path p) content m) fs)
    \<and> (\<forall>q. q \<noteq> p \<longrightarrow> h_at (attempt (h_write (abs_path p) content m) fs) q = h_at fs q)"
  using h_write_below [OF assms] assms(2,3) by (cases "h_write (abs_path p) content m fs") (fastforce simp: attempt_def)+

text \<open>What can be opened for writing once can be written again.\<close>

lemma h_write_again:
  assumes plain: "\<forall>c \<in> set p. plain_comp c" and inv: "volume_inv D at0 fs" and ok: "hf_ok fs" and sp: "strict_prefix D p"
    and w: "h_write (abs_path p) b m fs = Inr fs1"
  shows "\<exists>fs2. h_write (abs_path p) content m fs1 = Inr fs2"
proof -
  have pre: "prefix D p" and ne: "p \<noteq> []" using sp by auto
  note one = h_write_below [OF plain inv ok sp w]
  obtain r where r: "h_resolve True fs (abs_path p) = Inr r" using w by (auto simp: h_write_def)
  have rp: "r = p" using h_resolve_plain [OF plain volume_inv_no_link [OF inv pre] r] .
  have "\<not> hf_denied fs1 p"
    using w r rp by (auto simp: h_write_def h_set_def h_create_def split: option.splits hnode.splits if_splits)
  moreover have dirs: "is_hdir (h_at fs q)" if "strict_prefix q p" for q
    using h_walk_through_dirs [OF plain volume_inv_no_link [OF inv pre], of max_links True p q] r rp h_resolve_abs [OF plain] that
    by (simp add: h_at_def)
  moreover have "h_resolve True fs1 (abs_path p) = Inr p"
    unfolding h_resolve_abs [OF plain]
  proof -
    obtain m0 where at: "h_at fs1 q = (if q = p then Some (HFile m0 b) else h_at fs q)" for q using one by blast
    have "no_link_on fs1 [] p" using volume_inv_no_link one pre by blast
    moreover have "\<forall>q. q \<noteq> [] \<and> strict_prefix q p \<longrightarrow> is_hdir (h_at fs1 ([] @ q))" using dirs at by simp
    ultimately show "h_walk max_links True fs1 [] p = Inr p" using h_walk_dirs [OF plain, of fs1 "[]"] by simp
  qed
  moreover obtain m0 where "h_at fs1 p = Some (HFile m0 b)" using one by auto
  moreover have "map_of (hf_names fs1) p \<noteq> None" using calculation(4) ne by (auto simp: h_at_def)
  ultimately show ?thesis by (auto simp: h_write_def h_set_def)
qed

subsection \<open>Properties\<close>

text \<open>Every image has a cache path directly inside the image directory, whatever its reference contains, and two
  references share it only when the first eight bytes of their digests agree.\<close>

theorem cache_path_inside:
  assumes "\<forall>i. length (sum8 i) = 8" and "\<forall>c \<in> set I. plain_comp c"
  shows "(\<exists>c. plain_comp c \<and> image_base sum8 (abs_path I) img = abs_path (I @ [c]))
    \<and> (image_base sum8 (abs_path I) img = image_base sum8 (abs_path I) img' \<longrightarrow> sum8 img = sum8 img')"
proof (intro conjI impI)
  have l: "length (sum8 img) = 8" "length (sum8 img') = 8" using assms(1) by auto
  have p: "plain_comp (cache_name sum8 img)" "plain_comp (cache_name sum8 img')"
    using cache_name_plain [of sum8 img "[]"] cache_name_plain [of sum8 img' "[]"] l by auto
  show "\<exists>c. plain_comp c \<and> image_base sum8 (abs_path I) img = abs_path (I @ [c])"
    using image_base_abs [of sum8 img I, OF l(1) assms(2)] p by blast
  assume "image_base sum8 (abs_path I) img = image_base sum8 (abs_path I) img'"
  then have "abs_path (I @ [cache_name sum8 img]) = abs_path (I @ [cache_name sum8 img'])"
    using image_base_abs [of sum8 img I, OF l(1) assms(2)] image_base_abs [of sum8 img' I, OF l(2) assms(2)] by simp
  then have "I @ [cache_name sum8 img] = I @ [cache_name sum8 img']"
  proof -
    have "\<forall>c \<in> set (I @ [cache_name sum8 img]). plain_comp c" "\<forall>c \<in> set (I @ [cache_name sum8 img']). plain_comp c"
      using assms(2) p by simp_all
    then show ?thesis using abs_path_comps(1) \<open>abs_path (I @ [cache_name sum8 img]) = abs_path (I @ [cache_name sum8 img'])\<close> by metis
  qed
  then have "take 16 (cache_name sum8 img) = take 16 (cache_name sum8 img')" by simp
  then have "hex_encode (sum8 img) = hex_encode (sum8 img')" using l by (simp add: cache_name_def)
  then show "sum8 img = sum8 img'" by (rule hex_encode_inj)
qed

lemma build_erofs_whole:
  assumes paths: "abs_path base @ ''.erofs'' = abs_path out" "abs_path base @ ''.erofs.tmp'' = abs_path tmp"
    and plf: "\<forall>c \<in> set out. plain_comp c" and plt: "\<forall>c \<in> set tmp. plain_comp c"
    and spf: "strict_prefix I out" "strict_prefix I tmp" and ne: "out \<noteq> tmp"
    and inv: "volume_inv I at0 fs" "hf_ok fs" and none: "h_at fs out = None"
    and run: "build_erofs (abs_path base) p fs = (r, fs')"
  shows "case r of
      Inl e \<Rightarrow> h_at fs' out = None
    | Inr b \<Rightarrow> b = abs_path base \<and> (\<exists>d m. erofs_convert (pu_tar p) (pu_broken p)
          \<lparr>dev_data = [], dev_pos = 0, dev_cap = pu_room p, dev_seeks = True\<rparr> = Inr d \<and> h_at fs' out = Some (HFile m (dev_data d)))"
proof (cases "h_write (abs_path tmp) [] 0x1B6 fs")
  case (Inl e)
  then show ?thesis using run none by (auto simp: build_erofs_def paths)
next
  case (Inr fs2)
  have f2: "volume_inv I at0 fs2" "hf_ok fs2" "h_at fs2 out = None"
    using h_write_below [OF plt inv spf(2) Inr] none ne by auto
  show ?thesis
  proof (cases "erofs_convert (pu_tar p) (pu_broken p) \<lparr>dev_data = [], dev_pos = 0, dev_cap = pu_room p, dev_seeks = True\<rparr>")
    case (Inl e)
    then show ?thesis using run Inr attempt_remove_below [OF plt f2(1,2) spf(2) ne] f2(3)
      by (auto simp: build_erofs_def paths)
  next
    case conv: (Inr d)
    obtain fs3 where w: "h_write (abs_path tmp) (dev_data d) 0x1B6 fs2 = Inr fs3"
      using h_write_again [OF plt inv spf(2) Inr] by blast
    then have a: "attempt (h_write (abs_path tmp) (dev_data d) 0x1B6) fs2 = fs3" by (simp add: attempt_def)
    obtain m0 where at: "h_at fs3 q = (if q = tmp then Some (HFile m0 (dev_data d)) else h_at fs2 q)" for q
      using h_write_below [OF plt f2(1,2) spf(2) w] by blast
    have f3: "volume_inv I at0 fs3" "hf_ok fs3" "h_at fs3 out = None"
      using h_write_below [OF plt f2(1,2) spf(2) w] at ne f2(3) by auto
    consider (fail) e where "r = Inl e" "h_at fs' out = None"
      | (renamed) "h_rename (abs_path tmp) (abs_path out) fs3 = Inr fs'" "r = Inr (abs_path base)"
      using run Inr conv a attempt_remove_below [OF plt f3(1,2) spf(2) ne] f3(3)
      by (auto simp: build_erofs_def paths Let_def split: option.splits sum.splits)
    then show ?thesis
      using h_rename_below [OF plt plf f3(1) spf(2,1) ne [symmetric]] at [of tmp] conv by cases auto
  qed
qed


subsection \<open>Links in the stream\<close>

lemma h_walk_descend:
  assumes "\<forall>c \<in> set D. plain_comp c" and "\<forall>q. q \<noteq> [] \<and> prefix q D \<longrightarrow> is_hdir (h_at fs (cur @ q))"
  shows "h_walk k follow fs cur (D @ cs) = h_walk k follow fs (cur @ D) cs"
  using assms
proof (induction D arbitrary: cur)
  case (Cons d D)
  have "is_hdir (h_at fs (cur @ [d]))" using Cons.prems(2) [rule_format, of "[d]"] by simp
  moreover have "d \<noteq> []" "d \<noteq> ''.''" "d \<noteq> ''..''" using Cons.prems(1) by (auto simp: plain_comp_def good_comp_def)
  moreover have "h_walk k follow fs (cur @ [d]) (D @ cs) = h_walk k follow fs ((cur @ [d]) @ D) cs"
    using Cons.IH [of "cur @ [d]"] Cons.prems(1) Cons.prems(2) [rule_format, of "d # q" for q] by simp
  ultimately show ?case by (auto simp: is_hdir_iff)
qed simp

lemma untar_target_plain:
  assumes "\<forall>c \<in> set D. plain_comp c" and "\<forall>c \<in> set cs. plain_comp c" and "cs \<noteq> []"
  shows "untar_target (abs_path D) (join_with ''/'' cs) = abs_path (D @ cs)"
    and "D \<noteq> [] \<Longrightarrow> has_prefix (abs_path (D @ cs)) (path_clean (abs_path D) @ ''/'')"
proof -
  have "CHR ''/'' # join_with ''/'' cs = abs_path cs" by (simp add: abs_path_def)
  then show "untar_target (abs_path D) (join_with ''/'' cs) = abs_path (D @ cs)"
    using path_join_abs_abs [OF assms(1,2)] abs_path_clean [OF assms(2)] by (simp add: untar_target_def)
  have "join_with ''/'' (D @ cs) = join_with ''/'' D @ ''/'' @ join_with ''/'' cs" if "D \<noteq> []"
    using that
  proof (induction D)
    case (Cons d D)
    then show ?case using assms(3) by (cases "D = []") (simp_all add: join_with_Cons)
  qed simp
  then show "D \<noteq> [] \<Longrightarrow> has_prefix (abs_path (D @ cs)) (path_clean (abs_path D) @ ''/'')"
    unfolding abs_path_clean [OF assms(1)] has_prefix_iff by (auto simp: abs_path_def)
qed

text \<open>Walking through a link to a directory goes on in that directory.\<close>

lemma h_walk_jump:
  assumes "\<forall>c \<in> set D. plain_comp c" and "\<forall>q. q \<noteq> [] \<and> prefix q D \<longrightarrow> is_hdir (h_at fs ([] @ q))"
    and "\<forall>c \<in> set T. plain_comp c" and "\<forall>q. q \<noteq> [] \<and> prefix q T \<longrightarrow> is_hdir (h_at fs ([] @ q))"
    and link: "h_at fs (D @ [x]) = Some (HLink (abs_path T))" and "plain_comp x"
  shows "h_walk max_links True fs [] (D @ x # cs) = h_walk 31 True fs T cs"
proof -
  have "h_walk max_links True fs [] (D @ x # cs) = h_walk max_links True fs D (x # cs)"
    using h_walk_descend [OF assms(1,2), of max_links True "x # cs"] by simp
  also have "\<dots> = h_walk 31 True fs [] (split_on (CHR ''/'') (abs_path T) @ cs)"
    using assms(6) link by (simp add: max_links_def plain_comp_def good_comp_def)
  also have "\<dots> = h_walk 31 True fs [] (T @ cs)" using split_abs_path [OF assms(3)] by simp
  also have "\<dots> = h_walk 31 True fs T cs" using h_walk_descend [OF assms(3,4)] by simp
  finally show ?thesis .
qed

lemma make_parent_there:
  assumes "\<forall>c \<in> set (p @ [c]). plain_comp c" and "h_resolve True fs (abs_path p) = Inr r" and "is_hdir (h_at fs r)"
  shows "make_parent (abs_path (p @ [c])) fs = fs"
proof -
  have s: "\<exists>m. h_stat fs (abs_path p) = Inr (HDir m)" using assms(2,3) by (auto simp: h_stat_def is_hdir_iff)
  have "h_mkdir_all k (abs_path p) 0x1ED fs = Inr fs" for k
    by (subst h_mkdir_all.simps) (use s in auto)
  then show ?thesis using path_dir_abs [OF assms(1)] by (simp add: make_parent_def attempt_def)
qed

definition link_entry_to :: "string \<Rightarrow> string \<Rightarrow> tar_header" where
  "link_entry_to name target = \<lparr>hdr_name = name, hdr_type = TypeSymlink, hdr_uid = 0, hdr_gid = 0, hdr_mtime = 0, hdr_mode = 0x1FF,
     hdr_link = target, hdr_major = 0, hdr_minor = 0, hdr_size = 0, hdr_body = [], hdr_fails = False\<rparr>"

definition file_entry :: "string \<Rightarrow> bytes \<Rightarrow> tar_header" where
  "file_entry name body = \<lparr>hdr_name = name, hdr_type = TypeReg, hdr_uid = 0, hdr_gid = 0, hdr_mtime = 0, hdr_mode = 0x1A4,
     hdr_link = [], hdr_major = 0, hdr_minor = 0, hdr_size = length body, hdr_body = body, hdr_fails = False\<rparr>"

text \<open>C40: The legacy extraction can be led out of its directory: a stream that first carries a symbolic link to any
  directory of the host and then a file below the link's name, both names passing the prefix check, writes that file
  into the host's directory.\<close>

theorem untar_escapes:
  assumes D: "\<forall>c \<in> set D. plain_comp c" "D \<noteq> []" "\<forall>q. prefix q D \<longrightarrow> is_hdir (h_at fs q)"
    and T: "\<forall>c \<in> set T. plain_comp c" "\<forall>q. prefix q T \<longrightarrow> is_hdir (h_at fs q)"
    and c: "plain_comp x" "plain_comp c" and fs: "hf_ok fs" "\<forall>q. \<not> hf_denied fs q"
    and new: "h_at fs (D @ [x]) = None" "h_at fs (T @ [c]) = None" "T @ [c] \<noteq> D @ [x]"
  shows "\<exists>fs' m. untar (abs_path D) [link_entry_to x (abs_path T), file_entry (x @ ''/'' @ c) body] False fs = (None, fs')
    \<and> h_at fs' (T @ [c]) = Some (HFile m body)"
proof -
  have px: "\<forall>d \<in> set (D @ [x]). plain_comp d" and pxc: "\<forall>d \<in> set (D @ [x, c]). plain_comp d" using D(1) c by simp_all
  have ks: "x \<noteq> []" "x \<noteq> ''.''" "x \<noteq> ''..''" "c \<noteq> []" "c \<noteq> ''.''" "c \<noteq> ''..''" using c by (auto simp: plain_comp_def good_comp_def)
  have tx: "untar_target (abs_path D) x = abs_path (D @ [x])" "has_prefix (abs_path (D @ [x])) (path_clean (abs_path D) @ ''/'')"
    using untar_target_plain [OF D(1), of "[x]"] c(1) D(2) by simp_all
  have txc: "untar_target (abs_path D) (x @ ''/'' @ c) = abs_path (D @ [x, c])"
    "has_prefix (abs_path (D @ [x, c])) (path_clean (abs_path D) @ ''/'')"
    using untar_target_plain [OF D(1), of "[x, c]"] c D(2) by simp_all
  have wD: "h_walk max_links f fs [] (D @ cs) = h_walk max_links f fs D cs" for f cs
    using h_walk_descend [OF D(1), of fs "[]"] D(3) by simp
  have rD: "h_resolve True fs (abs_path D) = Inr D" using wD [of True "[]"] by (simp add: h_resolve_abs [OF D(1)])
  have rx: "h_resolve False fs (abs_path (D @ [x])) = Inr (D @ [x])"
    using wD [of False "[x]"] ks new(1) by (simp add: h_resolve_abs [OF px])
  have mk: "make_parent (abs_path (D @ [x])) fs = fs" using make_parent_there [OF px rD] D(3) by simp
  have rm: "attempt (h_remove (abs_path (D @ [x]))) fs = fs" using rx new(1) by (simp add: h_remove_def attempt_def)
  obtain fs1 where s: "h_create (D @ [x]) (HLink (abs_path T)) fs = Inr fs1" using fs(2) by (simp add: h_create_def)
  have e1: "untar_entry (abs_path D) (link_entry_to x (abs_path T)) fs = (None, fs1)"
    using rx new(1) s by (simp add: untar_entry_def link_entry_to_def tx mk rm Let_def h_symlink_def or_fail_def)
  note at = h_create_at(2) [OF s fs(1)] and ok1 = h_create_at(1) [OF s fs(1)]
  have notT: "\<not> prefix (D @ [x]) T" using T(2) new(1) by fastforce
  have nD: "\<not> prefix (D @ [x]) q" if "prefix q D" for q using that by (auto simp: prefix_def)
  have d1: "\<forall>q. q \<noteq> [] \<and> prefix q D \<longrightarrow> is_hdir (h_at fs1 ([] @ q))" using D(3) at nD by fastforce
  have t1: "\<forall>q. q \<noteq> [] \<and> prefix q T \<longrightarrow> is_hdir (h_at fs1 ([] @ q))" using T(2) at notT by fastforce
  have link: "h_at fs1 (D @ [x]) = Some (HLink (abs_path T))" using at by simp
  note jump = h_walk_jump [OF D(1) d1 T(1) t1 link c(1)]
  have "h_resolve True fs1 (abs_path (D @ [x])) = Inr T" using jump [of "[]"] by (simp add: h_resolve_abs [OF px])
  moreover have "is_hdir (h_at fs1 T)" using t1 [rule_format, of T] by (cases "T = []") (auto simp: h_at_def)
  ultimately have mk1: "make_parent (abs_path (D @ [x, c])) fs1 = fs1"
    using make_parent_there [of "D @ [x]" c fs1 T] pxc by simp
  have n1: "h_at fs1 (T @ [c]) = None" using at new(2,3) by simp
  have r1: "h_resolve True fs1 (abs_path (D @ [x, c])) = Inr (T @ [c])"
    using jump [of "[c]"] ks n1 by (simp add: h_resolve_abs [OF pxc])
  obtain fs2 where w: "h_create (T @ [c]) (HFile (masked fs1 0x1A4) body) fs1 = Inr fs2"
    using fs(2) s by (auto simp: h_create_def split: if_splits)
  have e2: "untar_entry (abs_path D) (file_entry (x @ ''/'' @ c) body) fs1 = (None, fs2)"
    using r1 n1 w by (simp add: untar_entry_def file_entry_def txc [simplified] mk1 Let_def h_write_def)
  have "h_at fs2 (T @ [c]) = Some (HFile (masked fs1 0x1A4) body)" using h_create_at(2) [OF w ok1] by simp
  then show ?thesis using e1 e2 by simp
qed

subsection \<open>Witnesses\<close>

definition zero_sum :: "string \<Rightarrow> bytes" where
  "zero_sum s = replicate 8 0"

lemma cache_path_inside_witness:
  "\<exists>c. plain_comp c \<and> image_base zero_sum (abs_path [''d'']) ''a/b:1'' = abs_path ([''d''] @ [c])"
  using cache_path_inside [of zero_sum "[''d'']" "''a/b:1''" "[]"] demo_host_facts(5) by (simp add: zero_sum_def)

definition two_dirs :: hfs where
  "two_dirs = \<lparr>hf_names = [([''d''], 0), ([''e''], 1)], hf_objs = (\<lambda>i. HDir 0x1ED), hf_next = 2, hf_denied = (\<lambda>_. False), hf_umask = 18\<rparr>"

lemma two_dirs_facts: "hf_ok two_dirs" "\<forall>q. \<not> hf_denied two_dirs q" "h_at two_dirs [''d'', x] = None" "h_at two_dirs [''e'', x] = None"
    "prefix q [''d''] \<Longrightarrow> is_hdir (h_at two_dirs q)" "prefix q [''e''] \<Longrightarrow> is_hdir (h_at two_dirs q)"
  by (auto simp: two_dirs_def hf_ok_def h_at_def prefix_Cons)

lemma two_dirs_inv: "volume_inv [''d''] (h_at two_dirs) two_dirs"
  unfolding volume_inv_def
proof (intro conjI allI impI)
  show "\<not> is_link (h_at two_dirs p)" for p by (simp add: two_dirs_def h_at_def)
  show "p = q" if "map_of (hf_names two_dirs) p = Some i" "map_of (hf_names two_dirs) q = Some i" for p q i
    using that by (auto simp: two_dirs_def split: if_splits)
qed (use two_dirs_facts in auto)

definition broken_pull :: pulled where
  "broken_pull = \<lparr>pu_parse = None, pu_fetch = None, pu_config = None, pu_tar = [], pu_broken = True, pu_close = None, pu_room = 8192\<rparr>"


lemma untar_escapes_witness:
  "\<exists>fs' m. untar ''/d'' [link_entry_to ''x'' ''/e'', file_entry ''x/f'' [7]] False two_dirs = (None, fs')
    \<and> h_at fs' [''e'', ''f''] = Some (HFile m [7])"
proof -
  have p: "\<forall>c \<in> set [''e'']. plain_comp c" "plain_comp ''x''" "plain_comp ''f''" "abs_path [''e''] = ''/e''" by code_simp+
  show ?thesis
    using untar_escapes [OF demo_host_facts(5) _ _ p(1) _ p(2,3) two_dirs_facts(1,2), of "[7]"] two_dirs_facts(3-6) p(4) demo_host_facts(6)
    by simp
qed

end
