(* ===== verification/Guest_Control.thy ===== *)
theory Guest_Control imports Supervision Sessions Guest_Root begin

text \<open>
  The guest's control channel (\<^verbatim>\<open>poc/execd/handlers.go\<close>) over the supervised pod: what each request of the agent is
  answered with, what it does to the containers, attached sessions, and how a container's output
  reaches its log, the console and the attached session (\<^verbatim>\<open>Write\<close>, \<^verbatim>\<open>setAttached\<close> and \<^verbatim>\<open>terminate\<close> of
  \<^verbatim>\<open>supervisor.go\<close>).  The machine interleaves the moves of the supervisor, the output of processes, frames of
  sessions and timers; containers are told apart by name, as the API requires.  The network of the pod, JSON and
  \<^verbatim>\<open>%q\<close> are parameters.
\<close>

subsection \<open>Requests\<close>

record request =
  rq_op :: string
  rq_container :: string
  rq_argv :: "string list"
  rq_tty :: bool
  rq_cols :: "16 word"
  rq_rows :: "16 word"
  rq_ptype :: string
  rq_port :: int
  rq_path :: string
  rq_scheme :: string
  rq_timeout :: int
  rq_grace :: int

text \<open>What a TCP dial to loopback (port, seconds) and an HTTP GET (URL, seconds, certificate check skipped) come to.\<close>

record guest_env =
  ge_decode :: "bytes \<Rightarrow> request option"
  ge_statuses :: "container_status list \<Rightarrow> bytes"
  ge_quote :: "string \<Rightarrow> string"
  ge_tcp :: "int \<Rightarrow> int \<Rightarrow> string option"
  ge_http :: "string \<Rightarrow> int \<Rightarrow> bool \<Rightarrow> int option"
  ge_lstat :: "string \<Rightarrow> bool option"
  ge_readlink :: "string \<Rightarrow> string option"
  ge_exec :: "string \<Rightarrow> bool"
  ge_size :: "bytes \<Rightarrow> (16 word \<times> 16 word) option"

definition refusal :: "int \<Rightarrow> string \<Rightarrow> bytes" where
  "refusal code quoted = string_bytes (''{\"code\":'' @ int_digits code @ '',\"error\":'' @ quoted @ ''}'')"

subsection \<open>Probes\<close>

definition probe_ok :: "guest_env \<Rightarrow> request \<Rightarrow> bool" where
  "probe_ok env rq =
     (let timeout = (if rq_timeout rq \<le> 0 then 1 else rq_timeout rq)
      in if rq_ptype rq = ''tcp'' then ge_tcp env (rq_port rq) timeout = None
         else if rq_ptype rq = ''http'' then
           (let scheme = (if rq_scheme rq = [] then ''http'' else rq_scheme rq);
                url = scheme @ ''://127.0.0.1:'' @ int_digits (rq_port rq) @ rq_path rq
            in case ge_http env url timeout (scheme = ''https'') of
                 None \<Rightarrow> False
               | Some st \<Rightarrow> 200 \<le> st \<and> st < 400)
         else False)"

definition handle_probe :: "guest_env \<Rightarrow> request \<Rightarrow> (byte \<times> bytes) list" where
  "handle_probe env rq = [(frame_exit, exit_payload (if probe_ok env rq then 0 else 1))]"

subsection \<open>Commands\<close>

text \<open>The process \<^verbatim>\<open>exec.Cmd\<close> describes; without a root the program is found on execd's own \<^verbatim>\<open>PATH\<close> when it starts.\<close>

record command =
  cm_path :: string
  cm_argv :: "string list"
  cm_env :: "string list"
  cm_chroot :: string
  cm_dir :: string
  cm_tty :: bool

definition find_program :: "guest_env \<Rightarrow> string \<Rightarrow> string list \<Rightarrow> string \<Rightarrow> string option" where
  "find_program env r vars prog =
     (if r = [] then Some prog
      else look_path_in_root (ge_lstat env) (ge_readlink env) (ge_exec env) r vars prog)"

definition no_program :: "string \<Rightarrow> string" where
  "no_program prog = ''exec: \"'' @ prog @ ''\": executable file not found in $PATH''"

definition working_dir :: "string \<Rightarrow> string \<Rightarrow> string" where
  "working_dir wd r = (if wd \<noteq> [] then wd else if r \<noteq> [] then ''/'' else [])"

text \<open>\<^verbatim>\<open>startOnce\<close> of a container: its command, or why it cannot start (the code is 128 then); indexing an empty
  argument vector panics.  (A declared working directory is created first when it is missing.)\<close>

datatype start_result = Command command | StartError string | Panics

definition start_command :: "guest_env \<Rightarrow> container \<Rightarrow> start_result" where
  "start_command env c =
     (let cs = spec c; vars = merge_env default_env (cs_env cs)
      in case argv cs of
           [] \<Rightarrow> Panics
         | prog # _ \<Rightarrow>
             (case find_program env (root c) vars prog of
                None \<Rightarrow> StartError (no_program prog)
              | Some p \<Rightarrow> Command \<lparr>cm_path = p, cm_argv = argv cs, cm_env = vars, cm_chroot = root c,
                             cm_dir = working_dir (cwd cs) (root c), cm_tty = tty cs\<rparr>))"

text \<open>\<^verbatim>\<open>handleExec\<close> before the process starts: a refusal, or the command to run in the container's root.\<close>

definition exec_command :: "guest_env \<Rightarrow> pod \<Rightarrow> request \<Rightarrow> bytes + command" where
  "exec_command env p rq =
     (if rq_argv rq = [] then Inl (refusal 126 ''\"empty argv\"'')
      else case by_name p (rq_container rq) of
             None \<Rightarrow> Inl (refusal 126 ''\"no such container\"'')
           | Some c \<Rightarrow>
               (let vars = merge_env default_env (cs_env (spec c))
                in case find_program env (root c) vars (hd (rq_argv rq)) of
                     None \<Rightarrow> Inl (refusal 126 (ge_quote env (no_program (hd (rq_argv rq)))))
                   | Some pr \<Rightarrow> Inr \<lparr>cm_path = pr, cm_argv = rq_argv rq, cm_env = vars, cm_chroot = root c,
                        cm_dir = working_dir (cwd (spec c)) (root c), cm_tty = rq_tty rq\<rparr>))"

text \<open>\<^verbatim>\<open>handlePortForward\<close> before the bytes flow: a refusal, or the port it has dialed.\<close>

definition forward_port :: "guest_env \<Rightarrow> request \<Rightarrow> bytes + int" where
  "forward_port env rq =
     (if rq_port rq = 0 then Inl (refusal 126 ''\"no port\"'')
      else case ge_tcp env (rq_port rq) 5 of
             Some e \<Rightarrow> Inl (refusal 1 (ge_quote env e))
           | None \<Rightarrow> Inr (rq_port rq))"

text \<open>Its two copiers: what the dialed service sends becomes stdout frames and ends the session with code 0; stdin
  frames are written to it, closing stdin half-closes it, and when the client goes away it is closed.\<close>

record forwarded =
  fw_sent :: bytes
  fw_half_closed :: bool
  fw_closed :: bool

definition forward_in :: "(byte \<times> bytes) option \<Rightarrow> forwarded \<Rightarrow> forwarded" where
  "forward_in f w =
     (case f of
        None \<Rightarrow> w\<lparr>fw_closed := True\<rparr>
      | Some (typ, payload) \<Rightarrow>
          if typ = frame_stdin then w\<lparr>fw_sent := fw_sent w @ payload\<rparr>
          else if typ = frame_stdin_close then w\<lparr>fw_half_closed := True\<rparr>
          else w)"

definition forward_out :: "bytes list \<Rightarrow> (byte \<times> bytes) list" where
  "forward_out reads = map (\<lambda>b. (frame_stdout, b)) reads @ [(frame_exit, exit_payload 0)]"

subsection \<open>The guest\<close>

datatype timer = KillTimer string nat | ShutdownTimer

record guest =
  g_pod :: pod
  g_stdin :: "string \<Rightarrow> nat option"
  g_pty :: "string \<Rightarrow> nat option"
  g_log :: "string \<Rightarrow> bytes"
  g_console :: bytes
  g_fed :: "nat \<Rightarrow> bytes"
  g_sessions :: "nat \<Rightarrow> (string \<times> nat option \<times> nat option) option"
  g_timers :: "timer list"

datatype effect =
    Frame nat byte bytes
  | Sigterm nat
  | Sigkill nat
  | Winsize nat "16 word \<times> 16 word"
  | StartExec nat command
  | StartForward nat int

definition upd_container :: "string \<Rightarrow> (container \<Rightarrow> container) \<Rightarrow> pod \<Rightarrow> pod" where
  "upd_container n f p =
     p\<lparr>mains := map (\<lambda>c. if cs_name (spec c) = n then f c else c) (mains p),
       inits := map (\<lambda>c. if cs_name (spec c) = n then f c else c) (inits p)\<rparr>"

definition set_attached :: "string \<Rightarrow> nat option \<Rightarrow> guest \<Rightarrow> guest" where
  "set_attached n sid g = g\<lparr>g_pod := upd_container n (\<lambda>c. c\<lparr>attached := sid\<rparr>) (g_pod g)\<rparr>"

definition named :: "pod \<Rightarrow> string \<Rightarrow> container option" where
  "named p n = find (\<lambda>c. cs_name (spec c) = n) (mains p @ inits p)"

text \<open>\<^verbatim>\<open>Write\<close>: to the log, the console, and the attached session.\<close>

definition container_write :: "string \<Rightarrow> bytes \<Rightarrow> guest \<Rightarrow> guest \<times> effect list" where
  "container_write n b g =
     (case named (g_pod g) n of
        None \<Rightarrow> (g, [])
      | Some c \<Rightarrow>
          (g\<lparr>g_log := (g_log g)(n := g_log g n @ b), g_console := g_console g @ b\<rparr>,
           case attached c of None \<Rightarrow> [] | Some sid \<Rightarrow> [Frame sid frame_stdout b]))"

text \<open>A move of the supervisor; a launch also sets \<^verbatim>\<open>stdinW\<close> and, with a terminal, \<^verbatim>\<open>ptyFile\<close>.\<close>

definition launched :: "choice \<Rightarrow> pod \<Rightarrow> (container \<times> nat) option" where
  "launched ch p =
     (case (ch, stage p) of
        (InitMove (MLaunch pid), InitStage i) \<Rightarrow> Some (inits p ! i, pid)
      | (MainMove j (MLaunch pid), _) \<Rightarrow> Some (mains p ! j, pid)
      | _ \<Rightarrow> None)"

definition guest_move :: "choice \<Rightarrow> guest \<Rightarrow> guest" where
  "guest_move ch g =
     (case pod_choice ch (g_pod g) of
        None \<Rightarrow> g
      | Some p \<Rightarrow>
          (case launched ch (g_pod g) of
             None \<Rightarrow> g\<lparr>g_pod := p\<rparr>
           | Some (c, pid) \<Rightarrow>
               (let n = cs_name (spec c)
                in g\<lparr>g_pod := p, g_stdin := (g_stdin g)(n := Some pid),
                     g_pty := (if tty (spec c) then (g_pty g)(n := Some pid) else g_pty g)\<rparr>)))"

text \<open>\<^verbatim>\<open>terminate\<close> with its timer.\<close>

definition terminate :: "container \<Rightarrow> guest \<Rightarrow> guest \<times> effect list" where
  "terminate c g =
     (case proc c of
        None \<Rightarrow> (g, [])
      | Some pid \<Rightarrow>
          if state c = Running
          then (g\<lparr>g_timers := g_timers g @ [KillTimer (cs_name (spec c)) pid]\<rparr>, [Sigterm pid])
          else (g, []))"

definition fire :: "timer \<Rightarrow> guest \<Rightarrow> effect list" where
  "fire t g =
     (case t of
        KillTimer n pid \<Rightarrow>
          (case named (g_pod g) n of
             None \<Rightarrow> []
           | Some c \<Rightarrow> if proc c = Some pid \<and> state c = Running then [Sigkill pid] else [])
      | ShutdownTimer \<Rightarrow> map Sigkill (signalled (g_pod g)))"

definition grace_of :: "request \<Rightarrow> int" where
  "grace_of rq = (if rq_grace rq \<le> 0 then 30 else rq_grace rq)"

definition handle_kill :: "nat \<Rightarrow> request \<Rightarrow> guest \<Rightarrow> guest \<times> effect list" where
  "handle_kill sid rq g =
     (case by_name (g_pod g) (rq_container rq) of
        None \<Rightarrow> (g, [Frame sid frame_exit (refusal 126 ''\"no such container\"'')])
      | Some c \<Rightarrow> (case terminate c g of (g', out) \<Rightarrow> (g', out @ [Frame sid frame_exit (exit_payload 0)])))"

definition handle_shutdown :: "nat \<Rightarrow> request \<Rightarrow> guest \<Rightarrow> guest \<times> effect list" where
  "handle_shutdown sid rq g =
     (case shutdown_all (g_pod g) of (pids, p) \<Rightarrow>
        (g\<lparr>g_pod := p, g_timers := g_timers g @ [ShutdownTimer]\<rparr>,
         Frame sid frame_exit (exit_payload 0) # map Sigterm pids))"

definition handle_attach :: "nat \<Rightarrow> request \<Rightarrow> guest \<Rightarrow> guest \<times> effect list" where
  "handle_attach sid rq g =
     (case by_name (g_pod g) (rq_container rq) of
        None \<Rightarrow> (g, [Frame sid frame_exit (refusal 126 ''\"no such container\"'')])
      | Some c \<Rightarrow>
          if attached c \<noteq> None then (g, [Frame sid frame_exit (refusal 126 ''\"already attached\"'')])
          else (let n = cs_name (spec c)
                in ((set_attached n (Some sid) g)\<lparr>g_sessions := (g_sessions g)(sid \<mapsto> (n, g_stdin g n, g_pty g n))\<rparr>, [])))"

text \<open>\<^verbatim>\<open>handleConn\<close>: the first frame of a connection.\<close>

definition handle_conn :: "guest_env \<Rightarrow> nat \<Rightarrow> byte \<Rightarrow> bytes \<Rightarrow> guest \<Rightarrow> guest \<times> effect list" where
  "handle_conn env sid typ payload g =
     (if typ \<noteq> frame_request then (g, [])
      else case ge_decode env payload of
             None \<Rightarrow> (g, [])
           | Some rq \<Rightarrow>
               if rq_op rq = ''exec'' then
                 (case exec_command env (g_pod g) rq of
                    Inl r \<Rightarrow> (g, [Frame sid frame_exit r]) | Inr cmd \<Rightarrow> (g, [StartExec sid cmd]))
               else if rq_op rq = ''attach'' then handle_attach sid rq g
               else if rq_op rq = ''probe'' then (g, map (\<lambda>(t, b). Frame sid t b) (handle_probe env rq))
               else if rq_op rq = ''status'' then
                 (g, [Frame sid frame_stdout (ge_statuses env (statuses (g_pod g))), Frame sid frame_exit (exit_payload 0)])
               else if rq_op rq = ''kill'' then handle_kill sid rq g
               else if rq_op rq = ''portforward'' then
                 (case forward_port env rq of
                    Inl r \<Rightarrow> (g, [Frame sid frame_exit r]) | Inr p \<Rightarrow> (g, [StartForward sid p]))
               else if rq_op rq = ''shutdown'' then handle_shutdown sid rq g
               else (g, []))"

text \<open>A later frame of an attached session, and its end.\<close>

definition attach_frame :: "guest_env \<Rightarrow> nat \<Rightarrow> byte \<Rightarrow> bytes \<Rightarrow> guest \<Rightarrow> guest \<times> effect list" where
  "attach_frame env sid typ payload g =
     (case g_sessions g sid of
        None \<Rightarrow> (g, [])
      | Some (n, stdin, pty) \<Rightarrow>
          if typ = frame_stdin then
            (case stdin of None \<Rightarrow> (g, []) | Some pid \<Rightarrow> (g\<lparr>g_fed := (g_fed g)(pid := g_fed g pid @ payload)\<rparr>, []))
          else if typ = frame_resize then
            (case (ge_size env payload, pty) of (Some sz, Some pid) \<Rightarrow> (g, [Winsize pid sz]) | _ \<Rightarrow> (g, []))
          else (g, []))"

definition attach_end :: "nat \<Rightarrow> guest \<Rightarrow> guest" where
  "attach_end sid g =
     (case g_sessions g sid of
        None \<Rightarrow> g
      | Some (n, _) \<Rightarrow> (set_attached n None g)\<lparr>g_sessions := (g_sessions g)(sid := None)\<rparr>)"

subsection \<open>The machine\<close>

datatype gevent =
    Move choice
  | Output string bytes
  | Connect nat byte bytes
  | Input nat byte bytes
  | Hangup nat
  | Fire nat

text \<open>A connection is accepted under a number of its own; a timer fires once.\<close>

definition guest_step :: "guest_env \<Rightarrow> gevent \<Rightarrow> guest \<Rightarrow> guest \<times> effect list" where
  "guest_step env ev g =
     (case ev of
        Move ch \<Rightarrow> (guest_move ch g, [])
      | Output n b \<Rightarrow> container_write n b g
      | Connect sid typ payload \<Rightarrow> if g_sessions g sid = None then handle_conn env sid typ payload g else (g, [])
      | Input sid typ payload \<Rightarrow> attach_frame env sid typ payload g
      | Hangup sid \<Rightarrow> (attach_end sid g, [])
      | Fire i \<Rightarrow>
          if i < length (g_timers g)
          then (g\<lparr>g_timers := take i (g_timers g) @ drop (Suc i) (g_timers g)\<rparr>, fire (g_timers g ! i) g) else (g, []))"

definition new_guest :: "pod \<Rightarrow> guest" where
  "new_guest p = \<lparr>g_pod = p, g_stdin = (\<lambda>_. None), g_pty = (\<lambda>_. None), g_log = (\<lambda>_. []), g_console = [],
     g_fed = (\<lambda>_. []), g_sessions = (\<lambda>_. None), g_timers = []\<rparr>"

end
