(* ===== verification/Control_Props.thy ===== *)
theory Control_Props imports Guest_Control begin

text \<open>
  What the control channel guarantees: attached sessions are exclusive and see exactly their container's output, a
  kill escalates only to the process it asked to end, the verdict of a probe reaches the agent.
\<close>

subsection \<open>Names and sessions\<close>

definition attached_view :: "pod \<Rightarrow> (string \<times> nat option) list" where
  "attached_view p = map (\<lambda>c. (cs_name (spec c), attached c)) (mains p @ inits p)"

lemma move_step_view: "move_step stop pol m c = Some c' \<Longrightarrow> spec c' = spec c \<and> attached c' = attached c"
  by (auto simp: move_step_def container_steps split: move.splits pc.splits if_splits)

lemma map_update_id:
  assumes "f y = f (xs ! i)"
  shows "map f (xs[i := y]) = map f xs"
proof (cases "i < length xs")
  case True
  then show ?thesis using assms by (metis list_update_id map_update nth_map)
qed (simp add: list_update_beyond)

lemma pod_choice_view: "pod_choice ch p = Some q \<Longrightarrow> attached_view q = attached_view p"
  unfolding pod_choice_def attached_view_def
  by (auto split: choice.splits stage.splits if_splits dest!: move_step_view
      simp: begin_supervise_def map_update_id [where f = "\<lambda>c. (cs_name (spec c), attached c)"])

lemma find_named: "find (\<lambda>c. cs_name (spec c) = n) cs = Some c \<Longrightarrow> cs_name (spec c) = n \<and> c \<in> set cs
    \<and> map_of (map (\<lambda>c. (cs_name (spec c), attached c)) cs) n = Some (attached c)"
  by (induction cs) (auto split: if_splits)

lemma named_Some: "named p n = Some c \<Longrightarrow> cs_name (spec c) = n \<and> map_of (attached_view p) n = Some (attached c)"
  unfolding named_def attached_view_def by (drule find_named) simp

lemma named_None: "named p n = None \<longleftrightarrow> map_of (attached_view p) n = None"
  unfolding named_def attached_view_def find_None_iff map_of_eq_None_iff by force

lemma by_name_Some:
  assumes "by_name p nm = Some c" and "distinct (map fst (attached_view p))"
  shows "map_of (attached_view p) (cs_name (spec c)) = Some (attached c)"
proof -
  have "c \<in> set (mains p @ inits p)"
  proof (cases "nm = [] \<and> mains p \<noteq> []")
    case True
    then show ?thesis using assms(1) by (cases "mains p") (auto simp: by_name_def)
  next
    case False
    then have "find (\<lambda>c. cs_name (spec c) = nm) (mains p @ inits p) = Some c" using assms(1) unfolding by_name_def by presburger
    from find_named [OF this] show ?thesis by simp
  qed
  then have "(cs_name (spec c), attached c) \<in> set (attached_view p)" by (force simp: attached_view_def)
  then show ?thesis using assms(2) by simp
qed

lemma attached_view_upd:
  "attached_view (upd_container n (\<lambda>c. c\<lparr>attached := s\<rparr>) p) = map (\<lambda>(m, a). (m, if m = n then s else a)) (attached_view p)"
  by (simp add: attached_view_def upd_container_def)

lemma map_of_view_upd: "map_of (map (\<lambda>(m, a). (m, if m = n then s else a)) xs) k
    = (if k = n \<and> map_of xs k \<noteq> None then Some s else map_of xs k)"
  by (induction xs) auto

text \<open>A session is attached exactly to the container that names it.\<close>

definition attach_inv :: "guest \<Rightarrow> bool" where
  "attach_inv g \<longleftrightarrow> distinct (map fst (attached_view (g_pod g)))
     \<and> (\<forall>sid n. (\<exists>st pt. g_sessions g sid = Some (n, st, pt)) \<longleftrightarrow> map_of (attached_view (g_pod g)) n = Some (Some sid))"

lemma attach_invD: "attach_inv g \<Longrightarrow> (\<exists>st pt. g_sessions g sid = Some (n, st, pt)) \<longleftrightarrow> map_of (attached_view (g_pod g)) n = Some (Some sid)"
  by (simp add: attach_inv_def)

lemma fst_upd [simp]: "fst \<circ> (\<lambda>(m, a). (m, if m = n then s else a)) = fst"
  by auto

lemma attach_inv_view:
  "attach_inv g \<Longrightarrow> attached_view (g_pod g') = attached_view (g_pod g) \<Longrightarrow> g_sessions g' = g_sessions g \<Longrightarrow> attach_inv g'"
  by (simp add: attach_inv_def)

lemma handle_attach_inv:
  assumes inv: "attach_inv g" and free: "g_sessions g sid = None"
  shows "attach_inv (fst (handle_attach sid rq g))"
proof (cases "by_name (g_pod g) (rq_container rq)")
  case None
  then show ?thesis using inv by (simp add: handle_attach_def)
next
  case (Some c)
  let ?n = "cs_name (spec c)" and ?v = "attached_view (g_pod g)"
  have v: "map_of ?v ?n = Some (attached c)" using by_name_Some [OF Some] inv by (simp add: attach_inv_def)
  show ?thesis
  proof (cases "attached c")
    case None
    have "(\<exists>st pt. ((g_sessions g)(sid \<mapsto> (?n, a, b))) s = Some (m, st, pt))
        \<longleftrightarrow> map_of (map (\<lambda>(m, x). (m, if m = ?n then Some sid else x)) ?v) m = Some (Some s)" for s m a b
      using attach_invD [OF inv, of s m] attach_invD [OF inv, of sid m] v None free by (auto simp: map_of_view_upd)
    then show ?thesis using inv Some None
      by (simp add: handle_attach_def Let_def attach_inv_def set_attached_def attached_view_upd)
  qed (use inv Some in \<open>simp add: handle_attach_def\<close>)
qed

lemma attach_end_inv:
  assumes inv: "attach_inv g"
  shows "attach_inv (attach_end sid g)"
proof (cases "g_sessions g sid")
  case None
  then show ?thesis using inv by (simp add: attach_end_def)
next
  case (Some x)
  obtain n st pt where x: "x = (n, st, pt)" by (cases x)
  let ?v = "attached_view (g_pod g)"
  have v: "map_of ?v n = Some (Some sid)" using attach_invD [OF inv, of sid n] Some x by auto
  have "(\<exists>st pt. ((g_sessions g)(sid := None)) s = Some (m, st, pt))
      \<longleftrightarrow> map_of (map (\<lambda>(m, x). (m, if m = n then None else x)) ?v) m = Some (Some s)" for s m
    using attach_invD [OF inv, of s m] v Some x by (auto simp: map_of_view_upd)
  then show ?thesis using inv Some x by (simp add: attach_end_def attach_inv_def set_attached_def attached_view_upd)
qed

lemma handle_conn_inv:
  assumes inv: "attach_inv g" and free: "g_sessions g sid = None"
  shows "attach_inv (fst (handle_conn env sid typ payload g))"
proof -
  have "attach_inv (fst (handle_kill sid rq g))" for rq
    using inv by (auto simp: handle_kill_def terminate_def attach_inv_def split: option.splits prod.splits if_splits)
  moreover have "attach_inv (fst (handle_shutdown sid rq g))" for rq
    using inv by (auto simp: handle_shutdown_def shutdown_all_def attach_inv_def attached_view_def)
  ultimately show ?thesis
    using inv handle_attach_inv [OF inv free] by (simp add: handle_conn_def split: option.split sum.split)
qed

lemma guest_step_inv: "attach_inv g \<Longrightarrow> attach_inv (fst (guest_step env ev g))"
proof (induction ev)
  case (Move ch)
  then show ?case
    using attach_inv_view [OF Move] pod_choice_view [of ch "g_pod g"]
    by (auto simp: guest_step_def guest_move_def Let_def split: option.split prod.split)
next
  case (Output n b)
  then show ?case
    by (auto simp: guest_step_def container_write_def intro: attach_inv_view split: option.split)
next
  case (Connect sid t payload)
  then show ?case using handle_conn_inv by (simp add: guest_step_def)
next
  case (Input sid t payload)
  then show ?case
    by (auto simp: guest_step_def attach_frame_def intro: attach_inv_view split: option.split prod.split)
next
  case (Hangup sid)
  then show ?case using attach_end_inv by (simp add: guest_step_def)
next
  case (Fire i)
  then show ?case by (auto simp: guest_step_def intro: attach_inv_view)
qed


subsection \<open>A session over a run\<close>

definition opened :: "nat \<Rightarrow> effect \<Rightarrow> bool" where
  "opened sid e \<longleftrightarrow> (\<exists>t b. e = Frame sid t b)"

definition outputs :: "string \<Rightarrow> gevent list \<Rightarrow> bytes list" where
  "outputs n evs = concat (map (\<lambda>ev. case ev of Output m b \<Rightarrow> if m = n then [b] else [] | _ \<Rightarrow> []) evs)"

lemma outputs_Cons: "outputs n (ev # evs) = (case ev of Output m b \<Rightarrow> if m = n then [b] else [] | _ \<Rightarrow> []) @ outputs n evs"
  by (simp add: outputs_def)

text \<open>A connection is answered on itself.\<close>

lemma handle_conn_frames:
  "Frame s t b \<in> set (snd (handle_conn env sid typ payload g)) \<Longrightarrow> s = sid"
  by (auto simp: handle_conn_def handle_attach_def handle_kill_def handle_shutdown_def handle_probe_def terminate_def Let_def
      split: if_splits option.splits sum.splits prod.splits)

lemma handle_conn_sessions:
  "s \<noteq> sid \<Longrightarrow> g_sessions (fst (handle_conn env sid typ payload g)) s = g_sessions g s"
  by (simp add: handle_conn_def handle_attach_def handle_kill_def handle_shutdown_def terminate_def Let_def set_attached_def
      split: option.split sum.split prod.split)

lemma session_stays:
  assumes "g_sessions g sid = Some x" and "ev \<noteq> Hangup sid"
  shows "g_sessions (fst (guest_step env ev g)) sid = Some x"
proof (cases ev)
  case (Connect s t b)
  then show ?thesis using assms handle_conn_sessions by (cases "s = sid") (simp_all add: guest_step_def)
next
  case (Hangup s)
  then show ?thesis using assms by (auto simp: guest_step_def attach_end_def set_attached_def split: option.split)
qed (use assms in \<open>auto simp: guest_step_def guest_move_def container_write_def attach_frame_def Let_def split: option.split prod.split\<close>)

lemma step_frames:
  assumes inv: "attach_inv g" and s: "g_sessions g sid = Some (n, st, pt)"
  shows "filter (opened sid) (snd (guest_step env ev g))
    = (case ev of Output m b \<Rightarrow> if m = n then [Frame sid frame_stdout b] else [] | _ \<Rightarrow> [])"
proof (cases ev)
  case (Output m b)
  have v: "map_of (attached_view (g_pod g)) n = Some (Some sid)" using attach_invD [OF inv, of sid n] s by auto
  show ?thesis
  proof (cases "m = n")
    case True
    then obtain c where c: "named (g_pod g) n = Some c" using v named_None [of "g_pod g" n] by auto
    then have "attached c = Some sid" using named_Some [OF c] v by simp
    then show ?thesis using True c Output by (simp add: guest_step_def container_write_def opened_def)
  next
    case False
    have "attached c \<noteq> Some sid" if "named (g_pod g) m = Some c" for c
    proof
      assume "attached c = Some sid"
      then have "map_of (attached_view (g_pod g)) m = Some (Some sid)" using named_Some [OF that] by simp
      then have "\<exists>st pt. g_sessions g sid = Some (m, st, pt)" using attach_invD [OF inv] by blast
      then show False using s False by simp
    qed
    then show ?thesis using False Output
      by (auto simp: guest_step_def container_write_def opened_def split: option.split)
  qed
next
  case (Connect s t b)
  have "Frame sid t' b' \<notin> set (snd (handle_conn env s t b g))" if "s \<noteq> sid" for t' b'
    using handle_conn_frames that by blast
  then have "s \<noteq> sid \<Longrightarrow> filter (opened sid) (snd (handle_conn env s t b g)) = []"
    by (auto simp: filter_empty_conv opened_def)
  then show ?thesis using Connect assms by (cases "s = sid") (auto simp: guest_step_def)
qed (auto simp: guest_step_def attach_frame_def fire_def opened_def filter_empty_conv split: option.split prod.split timer.split)

lemma attached_run:
  assumes "attach_inv g" and "g_sessions g sid = Some (n, st, pt)" and "Hangup sid \<notin> set evs"
  shows "filter (opened sid) (snd (play (guest_step env) evs g)) = map (Frame sid frame_stdout) (outputs n evs)
    \<and> g_sessions (fst (play (guest_step env) evs g)) sid = Some (n, st, pt)"
  using assms
proof (induction evs arbitrary: g)
  case (Cons ev evs)
  have s: "g_sessions (fst (guest_step env ev g)) sid = Some (n, st, pt)"
    by (rule session_stays) (use Cons.prems in auto)
  have "filter (opened sid) (snd (guest_step env ev g)) = map (Frame sid frame_stdout)
      (case ev of Output m b \<Rightarrow> if m = n then [b] else [] | _ \<Rightarrow> [])"
    unfolding step_frames [OF Cons.prems(1,2)] by (simp split: gevent.split)
  then show ?case using Cons.IH [OF guest_step_inv [OF Cons.prems(1)] s] Cons.prems(3)
    by (simp add: split_beta Let_def outputs_Cons)
qed (simp add: outputs_def)

lemma play_attach_inv: "attach_inv g \<Longrightarrow> attach_inv (fst (play (guest_step env) evs g))"
  by (induction evs arbitrary: g) (simp_all add: split_beta Let_def guest_step_inv)

lemma new_guest_inv:
  assumes "distinct (map (\<lambda>c. cs_name (spec c)) (mains p @ inits p))" and "\<forall>c \<in> set (mains p @ inits p). attached c = None"
  shows "attach_inv (new_guest p)"
proof -
  have "map fst (attached_view p) = map (\<lambda>c. cs_name (spec c)) (mains p @ inits p)" by (simp add: attached_view_def)
  moreover have "map_of (attached_view p) n \<noteq> Some (Some sid)" for n sid
    using assms(2) by (auto simp: attached_view_def dest!: map_of_SomeD)
  ultimately show ?thesis using assms(1) by (simp add: attach_inv_def new_guest_def)
qed

subsection \<open>Signals\<close>

text \<open>Every pending escalation belongs to a process that has been asked to end; a process is only killed when it has
  been asked to end or the whole pod is stopping.\<close>

definition signals_ok :: "effect list \<Rightarrow> guest \<Rightarrow> bool" where
  "signals_ok h g \<longleftrightarrow>
     (\<forall>n pid. KillTimer n pid \<in> set (g_timers g) \<longrightarrow> Sigterm pid \<in> set h)
     \<and> (ShutdownTimer \<in> set (g_timers g) \<longrightarrow> stopping (g_pod g))
     \<and> (\<forall>pid. Sigkill pid \<in> set h \<longrightarrow> Sigterm pid \<in> set h \<or> stopping (g_pod g))"

lemma pod_choice_stopping: "pod_choice ch p = Some q \<Longrightarrow> stopping p \<Longrightarrow> stopping q"
  by (auto simp: pod_choice_def split: choice.splits stage.splits if_splits)

lemma signals_ok_keep:
  assumes "signals_ok h g" and "set (g_timers g') \<subseteq> set (g_timers g)" and "stopping (g_pod g) \<Longrightarrow> stopping (g_pod g')"
    and "\<And>pid. Sigkill pid \<in> set out \<Longrightarrow> Sigterm pid \<in> set h \<or> stopping (g_pod g)"
  shows "signals_ok (h @ out) g'"
  using assms unfolding signals_ok_def by auto

lemma signals_ok_quiet:
  assumes "signals_ok h g" and "set (g_timers g') \<subseteq> set (g_timers g)" and "stopping (g_pod g) \<Longrightarrow> stopping (g_pod g')"
  shows "signals_ok h g'"
  using signals_ok_keep [OF assms, of "[]"] by simp

lemma signals_ok_step: "signals_ok h g \<Longrightarrow> signals_ok (h @ snd (guest_step env ev g)) (fst (guest_step env ev g))"
proof (induction ev)
  case (Move ch)
  have q: "stopping (g_pod g) \<Longrightarrow> stopping (g_pod (guest_move ch g))" "g_timers (guest_move ch g) = g_timers g"
    using pod_choice_stopping [of ch "g_pod g"]
    by (auto simp: guest_move_def Let_def split: option.split prod.split)
  show ?case using signals_ok_quiet [OF Move, of "guest_move ch g"] q by (simp add: guest_step_def)
next
  case (Output n b)
  then show ?case
    by (auto simp: guest_step_def container_write_def signals_ok_def split: option.split)
next
  case (Connect sid t payload)
  have kill: "signals_ok (h @ snd (handle_kill sid rq g)) (fst (handle_kill sid rq g))" for rq
    using Connect by (auto simp: handle_kill_def terminate_def signals_ok_def split: option.split)
  have down: "signals_ok (h @ snd (handle_shutdown sid rq g)) (fst (handle_shutdown sid rq g))" for rq
    using Connect by (auto simp: handle_shutdown_def shutdown_all_def signals_ok_def)
  have att: "signals_ok (h @ snd (handle_attach sid rq g)) (fst (handle_attach sid rq g))" for rq
    using Connect by (auto simp: handle_attach_def Let_def set_attached_def upd_container_def signals_ok_def split: option.split)
  have q: "signals_ok (h @ out) g" if "\<And>pid. Sigkill pid \<notin> set out" for out
    by (rule signals_ok_keep [OF Connect]) (use that in auto)
  have "signals_ok h g" by (rule Connect)
  then have "signals_ok (h @ snd (handle_conn env sid t payload g)) (fst (handle_conn env sid t payload g))"
    using kill down att q by (simp add: handle_conn_def handle_probe_def split: option.split sum.split)
  then show ?case using Connect by (simp add: guest_step_def)
next
  case (Input sid t payload)
  then show ?case
    by (auto simp: guest_step_def attach_frame_def signals_ok_def split: option.split prod.split)
next
  case (Hangup sid)
  then show ?case
    by (auto simp: guest_step_def attach_end_def set_attached_def upd_container_def signals_ok_def split: option.split prod.split)
next
  case (Fire i)
  show ?case
  proof (cases "i < length (g_timers g)")
    case True
    have t: "g_timers g ! i \<in> set (g_timers g)" using True by simp
    have sub: "set (take i (g_timers g) @ drop (Suc i) (g_timers g)) \<subseteq> set (g_timers g)"
      by (auto dest: in_set_takeD in_set_dropD)
    have "Sigterm pid \<in> set h \<or> stopping (g_pod g)" if "Sigkill pid \<in> set (fire (g_timers g ! i) g)" for pid
      using that t Fire unfolding signals_ok_def
      by (cases "g_timers g ! i") (auto simp: fire_def split: option.splits if_splits)
    then show ?thesis using True sub signals_ok_keep [OF Fire] by (simp add: guest_step_def)
  qed (use Fire in \<open>simp add: guest_step_def\<close>)
qed

interpretation control: machine "guest_step env" signals_ok for env
  by unfold_locales (rule signals_ok_step)

subsection \<open>What the control channel promises\<close>

lemma new_pod_inv: "distinct (map (cs_name \<circ> fst) (is @ ms)) \<Longrightarrow> attach_inv (new_guest (new_pod pol is ms))"
proof (rule new_guest_inv)
  assume d: "distinct (map (cs_name \<circ> fst) (is @ ms))"
  have n: "map (\<lambda>c. cs_name (spec c)) (map (\<lambda>(cs, rt). new_container cs rt) xs) = map (cs_name \<circ> fst) xs" for xs
    by (induction xs) (auto simp: new_container_def)
  show "distinct (map (\<lambda>c. cs_name (spec c)) (mains (new_pod pol is ms) @ inits (new_pod pol is ms)))"
    using d n by (auto simp: new_pod_def simp del: map_map)
  show "\<forall>c \<in> set (mains (new_pod pol is ms) @ inits (new_pod pol is ms)). attached c = None"
    by (auto simp: new_pod_def new_container_def)
qed

lemma sessions_stay:
  "g_sessions g sid = Some x \<Longrightarrow> Hangup sid \<notin> set evs \<Longrightarrow> g_sessions (fst (play (guest_step env) evs g)) sid = Some x"
proof (induction evs arbitrary: g)
  case (Cons ev evs)
  have "ev \<noteq> Hangup sid" using Cons.prems(2) by auto
  from Cons.IH [OF session_stays [OF Cons.prems(1) this]] Cons.prems(2) show ?case by (simp add: split_beta Let_def)
qed simp

text \<open>C14: whatever the containers, the agent and the timers do, no container is ever attached to two sessions, and a
  session is sent exactly the output its container produces from then on, in order and without gaps.\<close>

theorem attached_output:
  assumes names: "distinct (map (cs_name \<circ> fst) (is @ ms))"
    and g: "g = fst (play (guest_step env) before (new_guest (new_pod pol is ms)))"
    and sid: "g_sessions g sid = Some (n, stdin, pty)" and stays: "Hangup sid \<notin> set evs"
  shows "filter (opened sid) (snd (play (guest_step env) evs g)) = map (Frame sid frame_stdout) (outputs n evs)
    \<and> (\<nexists>other st pt. other \<noteq> sid \<and> g_sessions g other = Some (n, st, pt))"
proof
  have inv: "attach_inv g" unfolding g by (rule play_attach_inv [OF new_pod_inv [OF names]])
  show "filter (opened sid) (snd (play (guest_step env) evs g)) = map (Frame sid frame_stdout) (outputs n evs)"
    using attached_run [OF inv sid stays] by blast
  have "map_of (attached_view (g_pod g)) n = Some (Some sid)" using attach_invD [OF inv, of sid n] sid by auto
  then show "\<nexists>other st pt. other \<noteq> sid \<and> g_sessions g other = Some (n, st, pt)"
    using attach_invD [OF inv, of _ n] by fastforce
qed

text \<open>the input of an attached session goes to the process that ran when it attached and to no other: after a
  restart the new process never sees it, and a session that attached before the first start feeds nothing.\<close>

theorem stale_stdin:
  assumes "by_name (g_pod g) (rq_container rq) = Some c" and "attached c = None"
    and "Hangup sid \<notin> set evs"
    and "g' = fst (play (guest_step env) evs (fst (handle_attach sid rq g)))"
  shows "g_fed (fst (guest_step env (Input sid frame_stdin b) g'))
    = (case g_stdin g (cs_name (spec c)) of
         None \<Rightarrow> g_fed g'
       | Some pid \<Rightarrow> (g_fed g')(pid := g_fed g' pid @ b))"
proof -
  let ?n = "cs_name (spec c)"
  have "g_sessions (fst (handle_attach sid rq g)) sid = Some (?n, g_stdin g ?n, g_pty g ?n)"
    using assms(1,2) by (simp add: handle_attach_def Let_def)
  from sessions_stay [OF this assms(3), of env]
  have "g_sessions g' sid = Some (?n, g_stdin g ?n, g_pty g ?n)" unfolding assms(4) .
  then show ?thesis by (simp add: guest_step_def attach_frame_def split: option.split)
qed

text \<open>a process is killed only after it was asked to end itself, or after the whole pod was; a kill never
  reaches the process of a later restart.\<close>

theorem kill_asks_first:
  assumes "snd (play (guest_step env) evs (new_guest (new_pod pol is ms))) = out"
    and "Sigkill pid \<in> set out"
  shows "Sigterm pid \<in> set out \<or> stopping (g_pod (fst (play (guest_step env) evs (new_guest (new_pod pol is ms)))))"
proof -
  have "signals_ok [] (new_guest (new_pod pol is ms))" by (simp add: signals_ok_def new_guest_def)
  from control.play_good [OF this, of env evs] assms show ?thesis unfolding signals_ok_def by blast
qed

text \<open>the agent's verdict on a probe it asks the guest for is the outcome of the guest's own check.\<close>

theorem probe_verdict:
  assumes dec: "dec (exit_payload 0) = (0, [])" "dec (exit_payload 1) = (1, [])"
    and dial: "dial_execd att = Inr i" and wrote: "execd_conn_write frame_request req c = (True, c')"
    and rcvd: "send_frames framed_write (handle_probe env rq) \<lparr>written = [], room = r\<rparr> = (True, w)"
  shows "execd_request dec att req c (written w)
    = (if probe_ok env rq then SessionOk else CodeExitError ''exit code 1'' 1, c')"
proof -
  have one: "int_digits 0 = ''0''" "int_digits 1 = ''1''" by code_simp+
  let ?p = "exit_payload (if probe_ok env rq then 0 else 1)"
  have small: "length ?p < 2 ^ 32" unfolding exit_payload_small by (simp add: one)
  have "written w = frame_bytes frame_exit ?p @ []"
    using to_agent.send_written [OF rcvd] by (simp add: handle_probe_def)
  moreover have "request_loop dec (frame_bytes frame_exit ?p @ []) = exit_error ''exit code '' (dec ?p)"
    using small by (subst request_loop.simps) (simp add: to_agent.rd_encode del: append_Nil2)
  ultimately show ?thesis
    using dial wrote dec by (simp add: execd_request_def exit_error_def one)
qed

subsection \<open>The hypotheses hold\<close>

definition ask :: "string \<Rightarrow> string \<Rightarrow> request" where
  "ask op n = \<lparr>rq_op = op, rq_container = n, rq_argv = [], rq_tty = False, rq_cols = 0, rq_rows = 0,
     rq_ptype = ''tcp'', rq_port = 80, rq_path = [], rq_scheme = [], rq_timeout = 0, rq_grace = 0\<rparr>"

definition quiet_env :: guest_env where
  "quiet_env = \<lparr>ge_decode = (\<lambda>p. Some (ask (if p = [1] then ''attach'' else ''kill'') ''web'')), ge_statuses = (\<lambda>_. []),
     ge_quote = id, ge_tcp = (\<lambda>_ _. None), ge_http = (\<lambda>_ _ _. None), ge_lstat = (\<lambda>_. None),
     ge_readlink = (\<lambda>_. None), ge_exec = (\<lambda>_. False), ge_size = (\<lambda>_. None)\<rparr>"

definition web_up :: "gevent list" where
  "web_up = map Move (init_passes @ [GoMains, MainMove 0 (MLaunch 8), MainMove 0 (MMark 3)])"

definition two_tasks :: guest where
  "two_tasks = new_guest (new_pod ''Always'' [(task ''setup'', [])] [(task ''web'', [])])"

definition some_output :: "gevent list" where
  "some_output = [Output ''web'' [104], Output ''setup'' [0], Connect 2 frame_request [1], Output ''web'' [105]]"

lemma attached_output_witness:
  "filter (opened 1) (snd (play (guest_step quiet_env) some_output
      (fst (play (guest_step quiet_env) (web_up @ [Connect 1 frame_request [1]]) two_tasks))))
     = map (Frame 1 frame_stdout) (outputs ''web'' some_output)
   \<and> (\<nexists>other st pt. other \<noteq> 1 \<and> g_sessions
       (fst (play (guest_step quiet_env) (web_up @ [Connect 1 frame_request [1]]) two_tasks)) other = Some (''web'', st, pt))"
  unfolding two_tasks_def
proof (rule attached_output [OF _ refl])
  show "distinct (map (cs_name \<circ> fst) ([(task ''setup'', [])] @ [(task ''web'', [] :: string)]))" by (simp add: task_def)
  show "Hangup 1 \<notin> set some_output" by (simp add: some_output_def)
  show "g_sessions (fst (play (guest_step quiet_env) (web_up @ [Connect 1 frame_request [1]])
      (new_guest (new_pod ''Always'' [(task ''setup'', [])] [(task ''web'', [])])))) 1 = Some (''web'', Some 8, None)"
    by code_simp
qed

definition web_restarts :: "gevent list" where
  "web_restarts = map Move (map (MainMove 0) [MExit 1, MNote 4, MDecide, MWake, MLaunch 9, MMark 5])"

definition web_running :: guest where
  "web_running = fst (play (guest_step quiet_env) web_up two_tasks)"

lemma web_restarted: "map proc (mains (g_pod (fst (play (guest_step quiet_env) web_restarts web_running)))) = [Some 9]"
  by code_simp

lemma stale_stdin_witness:
  "g_fed (fst (guest_step quiet_env (Input 1 frame_stdin [104])
      (fst (play (guest_step quiet_env) web_restarts (fst (handle_attach 1 (ask ''attach'' ''web'') web_running))))))
   = (case g_stdin web_running ''web'' of
        None \<Rightarrow> g_fed (fst (play (guest_step quiet_env) web_restarts (fst (handle_attach 1 (ask ''attach'' ''web'') web_running))))
      | Some pid \<Rightarrow> (g_fed (fst (play (guest_step quiet_env) web_restarts (fst (handle_attach 1 (ask ''attach'' ''web'') web_running)))))
          (pid := g_fed (fst (play (guest_step quiet_env) web_restarts (fst (handle_attach 1 (ask ''attach'' ''web'') web_running)))) pid @ [104]))"
proof -
  have c: "by_name (g_pod web_running) (rq_container (ask ''attach'' ''web'')) = Some (hd (mains (g_pod web_running)))"
    by code_simp
  have s: "cs_name (spec (hd (mains (g_pod web_running)))) = ''web''" by code_simp
  have a: "attached (hd (mains (g_pod web_running))) = None" by code_simp
  have h: "Hangup 1 \<notin> set web_restarts" by (simp add: web_restarts_def)
  from stale_stdin [OF c a h refl, of quiet_env "[104]"] show ?thesis unfolding s .
qed

definition web_killed :: "gevent list" where
  "web_killed = web_up @ [Connect 1 frame_request [2], Fire 0]"

lemma kill_asks_first_witness:
  "Sigterm 8 \<in> set (snd (play (guest_step quiet_env) web_killed (new_guest (new_pod ''Always'' [(task ''setup'', [])] [(task ''web'', [])]))))
   \<or> stopping (g_pod (fst (play (guest_step quiet_env) web_killed (new_guest (new_pod ''Always'' [(task ''setup'', [])] [(task ''web'', [])])))))"
proof (rule kill_asks_first [OF refl])
  show "Sigkill 8 \<in> set (snd (play (guest_step quiet_env) web_killed (new_guest (new_pod ''Always'' [(task ''setup'', [])] [(task ''web'', [])]))))"
    by code_simp
qed

definition dec_verdict :: "bytes \<Rightarrow> int \<times> string" where
  "dec_verdict p = (if p = exit_payload 0 then (0, []) else (1, []))"

lemma probe_verdict_witness:
  "execd_request dec_verdict (\<lambda>_. None) [] \<lparr>written = [], room = 100\<rparr>
      (written (snd (send_frames framed_write (handle_probe quiet_env (ask ''probe'' [])) \<lparr>written = [], room = 1000\<rparr>)))
    = (if probe_ok quiet_env (ask ''probe'' []) then SessionOk else CodeExitError ''exit code 1'' 1,
       snd (execd_conn_write frame_request [] \<lparr>written = [], room = 100\<rparr>))"
proof (rule probe_verdict)
  show "dec_verdict (exit_payload 0) = (0, [])" by (simp add: dec_verdict_def)
  have "exit_payload 1 \<noteq> exit_payload 0" by code_simp
  then show "dec_verdict (exit_payload 1) = (1, [])" by (simp add: dec_verdict_def)
  show "dial_execd (\<lambda>_. None) = Inr 0" by code_simp
  show "execd_conn_write frame_request [] \<lparr>written = [], room = 100\<rparr>
      = (True, snd (execd_conn_write frame_request [] \<lparr>written = [], room = 100\<rparr>))" by code_simp
  show "send_frames framed_write (handle_probe quiet_env (ask ''probe'' [])) \<lparr>written = [], room = 1000\<rparr>
      = (True, snd (send_frames framed_write (handle_probe quiet_env (ask ''probe'' [])) \<lparr>written = [], room = 1000\<rparr>))"
    by code_simp
qed

end
