(* ===== verification/Kubelet_Server.thy ===== *)
theory Kubelet_Server imports Pod_Lifecycle Host_Fs Go_Bytes begin

text \<open>
  The kubelet API the agent serves to the API server (\<^verbatim>\<open>poc/agent/logs.go\<close> and the HTTP handlers of \<^verbatim>\<open>streams.go\<close>):
  who may use it, how a path becomes a log file or a streaming session, which bytes of the file remain to be sent, and
  the loop that follows a growing log while the guest writes and the VM ends.  TLS, the API server and the streaming
  library of Kubernetes are parameters.
\<close>

subsection \<open>Authorization\<close>

record peer =
  pe_name :: string
  pe_orgs :: "string list"

datatype 'a response = HttpError int string | Redirect string | Serve 'a

definition authorized_peer :: "peer \<Rightarrow> bool" where
  "authorized_peer p \<longleftrightarrow> pe_name p = ''kube-apiserver-kubelet-client'' \<or> list_ex (\<lambda>org. org = ''system:masters'') (pe_orgs p)"

definition authorize_kubelet_client :: "(string \<Rightarrow> string) \<Rightarrow> peer list option \<Rightarrow> 'a response \<Rightarrow> 'a response" where
  "authorize_kubelet_client quoted tls nxt =
     (case tls of
        Some (p # _) \<Rightarrow>
          if authorized_peer p then nxt
          else HttpError 403 (''subject '' @ quoted (pe_name p) @ '' is not authorized to use the kubelet API'')
      | _ \<Rightarrow> HttpError 401 ''client certificate required'')"

subsection \<open>Requests\<close>

record kubelet_env =
  ke_work_dir :: string
  ke_client :: bool
  ke_pod :: "string \<Rightarrow> string \<Rightarrow> string + kpod"
  ke_quote :: "string \<Rightarrow> string"
  ke_files :: hfs

text \<open>The path as it was sent (its first segment decoded, which is all the mux decodes to match a pattern), and decoded.\<close>

record kubelet_request =
  kr_tls :: "peer list option"
  kr_sent :: string
  kr_path :: string
  kr_query :: "(string \<times> string) list"
  kr_stream_opts :: "string option"

datatype served =
    LogStream bytes nat bool
  | LogFails
  | ExecStream string string string "string list"
  | AttachStream string string string
  | ForwardStream string string

text \<open>\<^verbatim>\<open>url.Values.Get\<close> and the list of all values of a key.\<close>

definition query_get :: "(string \<times> string) list \<Rightarrow> string \<Rightarrow> string" where
  "query_get q k = (case map_of q k of None \<Rightarrow> [] | Some v \<Rightarrow> v)"

definition query_all :: "(string \<times> string) list \<Rightarrow> string \<Rightarrow> string list" where
  "query_all q k = map snd (filter (\<lambda>(k', _). k' = k) q)"

definition path_parts :: "string \<Rightarrow> string \<Rightarrow> string list" where
  "path_parts pre p = split_on (CHR ''/'') (trim_char (CHR ''/'') (trim_prefix p pre))"

definition split_stream_path :: "string \<Rightarrow> string \<Rightarrow> (string \<times> string \<times> string) option" where
  "split_stream_path p pre = (case path_parts pre p of [ns, pod, c] \<Rightarrow> Some (ns, pod, c) | _ \<Rightarrow> None)"

definition with_pod :: "kubelet_env \<Rightarrow> string \<Rightarrow> string \<Rightarrow> (kpod \<Rightarrow> served response) \<Rightarrow> served response" where
  "with_pod env ns name k =
     (if \<not> ke_client env then HttpError 503 ''apiserver not available yet''
      else case ke_pod env ns name of Inl e \<Rightarrow> HttpError 404 e | Inr pod \<Rightarrow> k pod)"

definition with_opts :: "kubelet_request \<Rightarrow> served \<Rightarrow> served response" where
  "with_opts rq s = (case kr_stream_opts rq of Some e \<Rightarrow> HttpError 400 e | None \<Rightarrow> Serve s)"

definition handle_exec_stream :: "kubelet_env \<Rightarrow> kubelet_request \<Rightarrow> served response" where
  "handle_exec_stream env rq =
     (case split_stream_path (kr_path rq) ''/exec/'' of
        None \<Rightarrow> HttpError 404 ''expected /exec/{namespace}/{pod}/{container}''
      | Some (ns, name, c) \<Rightarrow>
          with_pod env ns name (\<lambda>pod. with_opts rq
            (ExecStream name (pod_state_uid pod) c (query_all (kr_query rq) ''command''))))"

definition handle_attach_stream :: "kubelet_env \<Rightarrow> kubelet_request \<Rightarrow> served response" where
  "handle_attach_stream env rq =
     (case split_stream_path (kr_path rq) ''/attach/'' of
        None \<Rightarrow> HttpError 404 ''expected /attach/{namespace}/{pod}/{container}''
      | Some (ns, name, c) \<Rightarrow> with_pod env ns name (\<lambda>pod. with_opts rq (AttachStream name (pod_state_uid pod) c)))"

definition handle_forward_stream :: "kubelet_env \<Rightarrow> kubelet_request \<Rightarrow> served response" where
  "handle_forward_stream env rq =
     (let parts = path_parts ''/portForward/'' (kr_path rq)
      in if length parts \<noteq> 2 \<and> length parts \<noteq> 3 then HttpError 404 ''expected /portForward/{namespace}/{pod}''
         else with_pod env (parts ! 0) (parts ! 1) (\<lambda>pod. with_opts rq (ForwardStream (parts ! 1) (pod_state_uid pod))))"

subsection \<open>Container logs\<close>

text \<open>\<^verbatim>\<open>strconv.Atoi\<close>.\<close>

definition atoi :: "string \<Rightarrow> int option" where
  "atoi s =
     (let neg = has_prefix s ''-''; d = (if neg \<or> has_prefix s ''+'' then tl s else s);
          v = (if neg then - int (digits_val d) else int (digits_val d))
      in if d \<noteq> [] \<and> list_all is_digit d \<and> - (2 ^ 63) \<le> v \<and> v < 2 ^ 63 then Some v else None)"

fun index_newline :: "bytes \<Rightarrow> nat option" where
  "index_newline [] = None"
| "index_newline (b # bs) = (if b = 10 then Some 0 else map_option Suc (index_newline bs))"

fun skip_lines :: "nat \<Rightarrow> bytes \<Rightarrow> nat \<Rightarrow> nat" where
  "skip_lines 0 data off = off"
| "skip_lines (Suc k) data off =
     skip_lines k data (case index_newline (drop off data) of None \<Rightarrow> off | Some i \<Rightarrow> off + i + 1)"

definition newlines :: "bytes \<Rightarrow> nat" where
  "newlines data = length (filter (\<lambda>b. b = 10) data)"

definition seek_to_last_lines :: "bytes \<Rightarrow> nat \<Rightarrow> nat" where
  "seek_to_last_lines data n =
     (if n = 0 then length data
      else if newlines data \<le> n then 0
      else skip_lines (newlines data - n) data 0)"

definition log_path :: "string \<Rightarrow> string \<Rightarrow> string \<Rightarrow> string" where
  "log_path work uid c = path_join [work, uid, ''rootfs'', ''logs'', c @ ''.log'']"

definition handle_container_logs :: "kubelet_env \<Rightarrow> kubelet_request \<Rightarrow> served response" where
  "handle_container_logs env rq =
     (case path_parts ''/containerLogs/'' (kr_path rq) of
        [ns, name, c] \<Rightarrow>
          with_pod env ns name (\<lambda>pod.
            let uid = pod_state_uid pod; own = log_path (ke_work_dir env) uid c;
                chosen = (if isl (h_stat (ke_files env) own) then path_join [ke_work_dir env, uid, ''container.log''] else own);
                follow = (query_get (kr_query rq) ''follow'' = ''true'');
                tail = (case atoi (query_get (kr_query rq) ''tailLines'') of Some n \<Rightarrow> if 0 \<le> n then Some (nat n) else None | None \<Rightarrow> None)
            in case h_stat (ke_files env) chosen of
                 Inl e \<Rightarrow> HttpError 404 (''no logs for pod '' @ ns @ ''/'' @ name)
               | Inr (HFile m data) \<Rightarrow>
                   Serve (LogStream data (case tail of None \<Rightarrow> 0 | Some n \<Rightarrow> seek_to_last_lines data n) follow)
               | Inr _ \<Rightarrow> (case tail of None \<Rightarrow> Serve LogFails | Some _ \<Rightarrow> HttpError 500 ''is a directory''))
      | _ \<Rightarrow> HttpError 404 ''expected /containerLogs/{namespace}/{pod}/{container}'')"

subsection \<open>The mux\<close>

text \<open>\<^verbatim>\<open>http.ServeMux\<close> with the four patterns: a path that is not clean is redirected to its clean form, a pattern
  without its final slash to the pattern.\<close>

definition mux_clean :: "string \<Rightarrow> string" where
  "mux_clean p =
     (let r = (if is_rooted p then p else CHR ''/'' # p); c = path_clean r
      in if has_suffix r ''/'' \<and> c \<noteq> ''/'' then c @ ''/'' else c)"

definition kubelet_patterns :: "(string \<times> (kubelet_env \<Rightarrow> kubelet_request \<Rightarrow> served response)) list" where
  "kubelet_patterns =
     [(''/containerLogs/'', handle_container_logs), (''/exec/'', handle_exec_stream),
      (''/attach/'', handle_attach_stream), (''/portForward/'', handle_forward_stream)]"

definition kubelet_mux :: "kubelet_env \<Rightarrow> kubelet_request \<Rightarrow> served response" where
  "kubelet_mux env rq =
     (if mux_clean (kr_sent rq) \<noteq> kr_sent rq then Redirect (mux_clean (kr_sent rq))
      else case find (\<lambda>(pat, _). has_prefix (kr_sent rq) pat) kubelet_patterns of
             Some (_, h) \<Rightarrow> h env rq
           | None \<Rightarrow> if list_ex (\<lambda>(pat, _). kr_sent rq @ ''/'' = pat) kubelet_patterns then Redirect (kr_sent rq @ ''/'')
                     else HttpError 404 ''404 page not found'')"

definition kubelet_serve :: "kubelet_env \<Rightarrow> kubelet_request \<Rightarrow> served response" where
  "kubelet_serve env rq = authorize_kubelet_client (ke_quote env) (kr_tls rq) (kubelet_mux env rq)"

subsection \<open>Following a log\<close>

text \<open>The loop of \<^verbatim>\<open>handleContainerLogs\<close> on the open file, while the guest appends to it and \<^verbatim>\<open>a.vms\<close> changes: about to
  read, past an end of file and about to look at \<^verbatim>\<open>a.vms\<close>, asleep, returned.\<close>

datatype log_pc = Reading | AtEnd | Sleeping | Returned

record log_run =
  lr_file :: bytes
  lr_pos :: nat
  lr_vm :: bool
  lr_pc :: log_pc

text \<open>\<open>Turn k\<close>: the handler goes on, a read yielding \<open>k\<close> bytes if there are as many (at least one, at most the
  buffer); \<open>WriteFails k\<close>: the same, but the client is gone.\<close>

datatype log_event = Append bytes | VmRuns bool | Turn nat | WriteFails nat | ReadFails | ClientGone

definition read_size :: "nat \<Rightarrow> log_run \<Rightarrow> nat" where
  "read_size k r = min (max 1 k) (min 32768 (length (lr_file r) - lr_pos r))"

definition log_turn :: "bool \<Rightarrow> nat \<Rightarrow> log_run \<Rightarrow> log_run \<times> bytes list" where
  "log_turn follow k r =
     (case lr_pc r of
        Reading \<Rightarrow>
          if length (lr_file r) \<le> lr_pos r
          then (r\<lparr>lr_pc := (if follow then AtEnd else Returned)\<rparr>, [])
          else (r\<lparr>lr_pos := lr_pos r + read_size k r\<rparr>, [slice (lr_pos r) (read_size k r) (lr_file r)])
      | AtEnd \<Rightarrow> (r\<lparr>lr_pc := (if lr_vm r then Sleeping else Returned)\<rparr>, [])
      | Sleeping \<Rightarrow> (r\<lparr>lr_pc := Reading\<rparr>, [])
      | Returned \<Rightarrow> (r, []))"

definition log_step :: "bool \<Rightarrow> log_event \<Rightarrow> log_run \<Rightarrow> log_run \<times> bytes list" where
  "log_step follow ev r =
     (case ev of
        Append b \<Rightarrow> (r\<lparr>lr_file := lr_file r @ b\<rparr>, [])
      | VmRuns v \<Rightarrow> (r\<lparr>lr_vm := v\<rparr>, [])
      | Turn k \<Rightarrow> log_turn follow k r
      | WriteFails k \<Rightarrow>
          (if lr_pc r = Reading \<and> lr_pos r < length (lr_file r)
           then (r\<lparr>lr_pos := lr_pos r + read_size k r, lr_pc := Returned\<rparr>, []) else (r, []))
      | ReadFails \<Rightarrow> (if lr_pc r = Reading then (r\<lparr>lr_pc := Returned\<rparr>, []) else (r, []))
      | ClientGone \<Rightarrow> (if lr_pc r = Sleeping then (r\<lparr>lr_pc := Returned\<rparr>, []) else (r, [])))"

definition log_start :: "bytes \<Rightarrow> nat \<Rightarrow> bool \<Rightarrow> log_run" where
  "log_start data off vm = \<lparr>lr_file = data, lr_pos = off, lr_vm = vm, lr_pc = Reading\<rparr>"

subsection \<open>Who may use it\<close>

text \<open>C17: nothing is served, neither a log nor a session into a pod, to a client that did not present a certificate of
  the API server's kubelet client or of the group of cluster administrators.\<close>

theorem kubelet_api_guarded:
  assumes "kubelet_serve env rq = Serve s"
  shows "\<exists>p rest. kr_tls rq = Some (p # rest)
    \<and> (pe_name p = ''kube-apiserver-kubelet-client'' \<or> ''system:masters'' \<in> set (pe_orgs p))"
proof -
  obtain p rest where "kr_tls rq = Some (p # rest)" "authorized_peer p"
    using assms by (auto simp: kubelet_serve_def authorize_kubelet_client_def split: option.splits list.splits if_splits)
  then show ?thesis by (auto simp: authorized_peer_def list_ex_iff)
qed

subsection \<open>Last lines\<close>

text \<open>The lines of a log, each with its newline; the last one may lack it.\<close>

fun lines_of :: "bytes \<Rightarrow> bytes list" where
  "lines_of [] = []"
| "lines_of (b # bs) =
     (if b = 10 then [b] # lines_of bs
      else case lines_of bs of [] \<Rightarrow> [[b]] | l # ls \<Rightarrow> (b # l) # ls)"

definition cut_short :: "bytes \<Rightarrow> bool" where
  "cut_short data \<longleftrightarrow> data \<noteq> [] \<and> last data \<noteq> 10"

lemma lines_of_Nil [simp]: "lines_of data = [] \<longleftrightarrow> data = []"
  by (cases data) (auto split: list.split)

lemma lines_of_length: "length (lines_of data) = newlines data + (if cut_short data then 1 else 0)"
  by (induction data rule: lines_of.induct) (auto simp: newlines_def cut_short_def split: list.splits)

lemma concat_lines: "concat (lines_of data) = data"
  by (induction data rule: lines_of.induct) (auto split: list.splits)

lemma index_newline_drop:
  assumes "index_newline data = Some i"
  shows "lines_of (drop (i + 1) data) = tl (lines_of data)" and "newlines data = Suc (newlines (drop (i + 1) data))"
proof -
  have "lines_of (drop (i + 1) data) = tl (lines_of data) \<and> newlines data = Suc (newlines (drop (i + 1) data))"
    using assms
  proof (induction data arbitrary: i)
    case (Cons b bs)
    show ?case
    proof (cases "b = 10")
      case False
      then obtain j where "index_newline bs = Some j" "i = Suc j" using Cons.prems by auto
      with Cons.IH [OF this(1)] False show ?thesis by (cases "lines_of bs") (auto simp: newlines_def)
    qed (use Cons.prems in \<open>auto simp: newlines_def\<close>)
  qed simp
  then show "lines_of (drop (i + 1) data) = tl (lines_of data)" and "newlines data = Suc (newlines (drop (i + 1) data))"
    by simp_all
qed

lemma index_newline_some: "0 < newlines data \<Longrightarrow> \<exists>i. index_newline data = Some i"
  by (induction data) (auto simp: newlines_def)

lemma skip_lines_drop:
  "k \<le> newlines (drop off data) \<Longrightarrow> lines_of (drop (skip_lines k data off) data) = drop k (lines_of (drop off data))"
proof (induction k arbitrary: off)
  case (Suc k)
  then obtain i where i: "index_newline (drop off data) = Some i" using index_newline_some [of "drop off data"] by auto
  have "k \<le> newlines (drop (off + i + 1) data)" using index_newline_drop(2) [OF i] Suc.prems by (simp add: add.commute add.left_commute)
  from Suc.IH [OF this] index_newline_drop(1) [OF i] i show ?case
    by (simp add: drop_Suc tl_drop add.commute add.left_commute)
qed simp

text \<open>with \<^verbatim>\<open>tailLines\<close> the reader is left at the last \<open>n\<close> lines of the log; when the last line has no newline
  yet, that line comes on top of them.\<close>

theorem tail_last_lines:
  assumes "0 < n"
  shows "lines_of (drop (seek_to_last_lines data n) data)
    = drop (length (lines_of data) - (if cut_short data then n + 1 else n)) (lines_of data)"
proof (cases "newlines data \<le> n")
  case True
  then show ?thesis using assms by (simp add: seek_to_last_lines_def lines_of_length)
next
  case False
  then show ?thesis
    using assms skip_lines_drop [of "newlines data - n" 0 data] by (simp add: seek_to_last_lines_def lines_of_length)
qed

lemma tail_last_lines_witness:
  "lines_of (drop (seek_to_last_lines [1, 10, 2, 10, 3, 10] 2) [1, 10, 2, 10, 3, 10])
    = drop (length (lines_of [1, 10, 2, 10, 3, 10]) - (if cut_short [1, 10, 2, 10, 3, 10] then 2 + 1 else 2))
        (lines_of [1, 10, 2, 10, 3, 10])"
  by (rule tail_last_lines) simp

lemma tail_checks:
  "lines_of (drop (seek_to_last_lines [1, 10, 2, 10, 3, 10] 2) [1, 10, 2, 10, 3, 10]) = [[2, 10], [3, 10]]"
  "lines_of (drop (seek_to_last_lines [1, 10, 2, 10, 3] 1) [1, 10, 2, 10, 3]) = [[2, 10], [3]]"
  by code_simp+


subsection \<open>What a reader of a log receives\<close>

definition log_good :: "nat \<Rightarrow> bytes list \<Rightarrow> log_run \<Rightarrow> bool" where
  "log_good start sent r \<longleftrightarrow>
     start \<le> lr_pos r \<and> prefix (concat sent) (drop start (lr_file r))
     \<and> (lr_pc r \<noteq> Returned \<longrightarrow> concat sent = drop start (take (lr_pos r) (lr_file r)))"

lemma drop_take_slice: "start \<le> pos \<Longrightarrow> drop start (take pos xs) @ slice pos n xs = drop start (take (pos + n) xs)"
proof (cases "pos \<le> length xs")
  case True
  moreover assume "start \<le> pos"
  moreover have "take (pos + n) xs = take pos xs @ slice pos n xs" by (simp add: take_add slice_def)
  ultimately show ?thesis by simp
qed (simp add: slice_def)

lemma prefix_drop_take: "prefix (drop start (take n xs)) (drop start xs)"
  by (metis drop_take take_is_prefix)

text \<open>What a read of a live file has not seen yet cannot have been sent.\<close>

definition log_sane :: "log_run \<Rightarrow> bool" where
  "log_sane r \<longleftrightarrow> lr_pc r \<noteq> Returned \<longrightarrow> lr_pos r \<le> length (lr_file r)"

lemma read_size_room: "lr_pos r < length (lr_file r) \<Longrightarrow> lr_pos r + read_size k r \<le> length (lr_file r) \<and> 0 < read_size k r"
  by (auto simp: read_size_def)

lemma log_step_good:
  assumes "log_good start h r \<and> log_sane r"
  shows "log_good start (h @ snd (log_step follow ev r)) (fst (log_step follow ev r)) \<and> log_sane (fst (log_step follow ev r))"
proof (cases ev)
  case (Append b)
  have "prefix (concat h) (drop start (lr_file r @ b))" using assms by (auto simp: log_good_def)
  then show ?thesis using assms Append by (auto simp: log_step_def log_good_def log_sane_def)
next
  case (Turn k)
  show ?thesis
  proof (cases "lr_pc r = Reading \<and> lr_pos r < length (lr_file r)")
    case True
    then have "concat h = drop start (take (lr_pos r) (lr_file r))" "start \<le> lr_pos r" using assms by (auto simp: log_good_def)
    then show ?thesis using True Turn drop_take_slice [of start "lr_pos r" "lr_file r" "read_size k r"] read_size_room [of r k]
      by (auto simp: log_step_def log_turn_def log_good_def log_sane_def prefix_drop_take)
  qed (use assms Turn in \<open>auto simp: log_step_def log_turn_def log_good_def log_sane_def split: log_pc.split\<close>)
qed (use assms in \<open>auto simp: log_step_def log_good_def log_sane_def prefix_drop_take\<close>)

interpretation logs: machine "log_step follow" "\<lambda>h r. log_good start h r \<and> log_sane r" for follow start
  by unfold_locales (rule log_step_good)

text \<open>C15: however the guest's writes, the reads and the client interleave, what the client has received is a gap-free
  copy of the log from the asked position on.\<close>

theorem log_copy:
  assumes "off \<le> length data"
  shows "prefix (concat (snd (play (log_step follow) evs (log_start data off vm))))
    (drop off (lr_file (fst (play (log_step follow) evs (log_start data off vm)))))"
proof -
  have "log_good off [] (log_start data off vm) \<and> log_sane (log_start data off vm)"
    using assms by (simp add: log_good_def log_sane_def log_start_def)
  from logs.play_good [OF this] show ?thesis by (simp add: log_good_def)
qed

lemma log_copy_witness:
  "prefix (concat (snd (play (log_step True) [Turn 1, Append [7], Turn 2, Turn 1] (log_start [4, 5, 6] 1 True))))
    (drop 1 (lr_file (fst (play (log_step True) [Turn 1, Append [7], Turn 2, Turn 1] (log_start [4, 5, 6] 1 True)))))"
  by (rule log_copy) simp

lemma log_step_turn [simp]: "log_step follow (Turn k) r = log_turn follow k r"
  by (simp add: log_step_def)

lemma returned_stays: "lr_pc r = Returned \<Longrightarrow> play (log_step follow) (map Turn ks) r = (r, [])"
  by (induction ks) (simp_all add: log_turn_def)

lemma log_turns:
  assumes "lr_pos r \<le> length (lr_file r)" and "lr_pc r = Reading" and "follow \<longrightarrow> \<not> lr_vm r"
    and "length (lr_file r) - lr_pos r + 2 \<le> length ks"
  shows "lr_pc (fst (play (log_step follow) (map Turn ks) r)) = Returned
    \<and> concat (snd (play (log_step follow) (map Turn ks) r)) = drop (lr_pos r) (lr_file r)"
  using assms
proof (induction ks arbitrary: r)
  case (Cons k ks)
  show ?case
  proof (cases "lr_pos r < length (lr_file r)")
    case True
    let ?r = "r\<lparr>lr_pos := lr_pos r + read_size k r\<rparr>"
    have n: "lr_pos r + read_size k r \<le> length (lr_file r)" "0 < read_size k r" using read_size_room [OF True] by auto
    have "slice (lr_pos r) (read_size k r) (lr_file r) @ drop (lr_pos r + read_size k r) (lr_file r) = drop (lr_pos r) (lr_file r)"
      by (simp add: slice_def) (metis add.commute append_take_drop_id drop_drop)
    then show ?thesis using True Cons.prems n Cons.IH [of ?r]
      by (simp add: log_turn_def split_beta Let_def)
  next
    case False
    then obtain k' ks' where ks: "ks = k' # ks'" using Cons.prems by (cases ks) auto
    have r: "lr_pc r = Reading" "length (lr_file r) \<le> lr_pos r" using Cons.prems False by auto
    show ?thesis
      using Cons.prems(3) ks r
        returned_stays [of "r\<lparr>lr_pc := Returned\<rparr>" follow ks'] returned_stays [of "r\<lparr>lr_pc := Returned\<rparr>" follow ks]
      by (cases follow) (simp_all add: log_turn_def)
  qed
qed simp



text \<open>what the guest writes between the read that finds the end and the look at \<^verbatim>\<open>a.vms\<close> is never sent when the VM
  ends there, although the reader follows the log.\<close>

theorem follow_loses_tail:
  assumes "b \<noteq> []"
  shows "play (log_step True) [Turn k, Append b, VmRuns False, Turn k] (log_start data (length data) True)
      = (\<lparr>lr_file = data @ b, lr_pos = length data, lr_vm = False, lr_pc = Returned\<rparr>, [])
    \<and> drop (length data) (data @ b) \<noteq> []"
  using assms by (simp add: log_step_def log_turn_def log_start_def)

lemma follow_loses_tail_witness:
  "play (log_step True) [Turn 1, Append [7], VmRuns False, Turn 1] (log_start [4] (length [4 :: byte]) True)
      = (\<lparr>lr_file = [4] @ [7], lr_pos = length [4 :: byte], lr_vm = False, lr_pc = Returned\<rparr>, [])
    \<and> drop (length [4 :: byte]) ([4] @ [7 :: byte]) \<noteq> []"
  by (rule follow_loses_tail) simp

subsection \<open>Paths\<close>

lemma dropWhile_keep: "s \<noteq> [] \<Longrightarrow> hd s \<noteq> c \<Longrightarrow> dropWhile (\<lambda>x. x = c) s = s"
  by (cases s) simp_all

lemma trim_char_keep: "s \<noteq> [] \<Longrightarrow> hd s \<noteq> c \<Longrightarrow> last s \<noteq> c \<Longrightarrow> trim_char c s = s"
  by (simp add: trim_char_def dropWhile_keep hd_rev)

lemma join_ends:
  assumes "ws \<noteq> []" and "\<forall>w \<in> set ws. w \<noteq> [] \<and> c \<notin> set w"
  shows "hd (join_with [c] ws) \<noteq> c" and "last (join_with [c] ws) \<noteq> c" and "join_with [c] ws \<noteq> []"
proof -
  have "hd (join_with [c] ws) \<noteq> c \<and> last (join_with [c] ws) \<noteq> c \<and> join_with [c] ws \<noteq> []" using assms
  proof (induction ws)
    case (Cons w ws)
    then have "hd w \<noteq> c" "last w \<noteq> c" by (metis list.set_intros(1) list.set_sel(1), metis last_in_set list.set_intros(1))
    then show ?case using Cons by (cases "ws = []") (auto simp: join_with_Cons)
  qed simp
  then show "hd (join_with [c] ws) \<noteq> c" and "last (join_with [c] ws) \<noteq> c" and "join_with [c] ws \<noteq> []" by simp_all
qed

lemma path_parts_of:
  assumes "ws \<noteq> []" and "\<forall>w \<in> set ws. plain_comp w"
  shows "path_parts pre (pre @ join_with ''/'' ws) = ws"
proof -
  have w: "\<forall>w \<in> set ws. w \<noteq> [] \<and> CHR ''/'' \<notin> set w" using assms(2) by (auto simp: plain_comp_def good_comp_def)
  show ?thesis using join_ends [OF assms(1) w] split_join [OF assms(1), of "CHR ''/''"] w
    by (simp add: path_parts_def trim_char_keep)
qed

lemma mux_clean_abs:
  assumes "ws \<noteq> []" and "\<forall>w \<in> set ws. plain_comp w"
  shows "mux_clean (abs_path ws) = abs_path ws"
proof -
  have w: "\<forall>w \<in> set ws. w \<noteq> [] \<and> CHR ''/'' \<notin> set w" using assms(2) by (auto simp: plain_comp_def good_comp_def)
  then have "\<not> has_suffix (abs_path ws) ''/''"
    using join_ends [OF assms(1) w] by (auto simp: has_suffix_iff abs_path_def) (metis append_butlast_last_id last_snoc append_Cons last_ConsR snoc_eq_iff_butlast)
  then show ?thesis using assms abs_path_clean [of ws] by (simp add: mux_clean_def)
qed

text \<open>an authorized exec request reaches the container its path names, in the VM of the pod with that name (by the
  UID under which the agent keeps it), with the command of the query in order.\<close>

theorem exec_reaches_container:
  assumes path: "kr_path rq = ''/exec/'' @ join_with ''/'' [ns, name, c]" "kr_sent rq = kr_path rq"
    and plain: "plain_comp ns" "plain_comp name" "plain_comp c"
    and allowed: "kr_tls rq = Some (p # rest)" "authorized_peer p" "kr_stream_opts rq = None"
    and pod: "ke_client env" "ke_pod env ns name = Inr pod"
  shows "kubelet_serve env rq = Serve (ExecStream name (pod_state_uid pod) c (query_all (kr_query rq) ''command''))"
proof -
  have "kr_path rq = abs_path [''exec'', ns, name, c]" using path by (simp add: abs_path_def)
  moreover have "plain_comp ''exec''" by code_simp
  ultimately have clean: "mux_clean (kr_sent rq) = kr_sent rq" using path(2) plain mux_clean_abs [of "[''exec'', ns, name, c]"] by simp
  have parts: "path_parts ''/exec/'' (kr_path rq) = [ns, name, c]"
    unfolding path(1) using plain by (intro path_parts_of) auto
  have "find (\<lambda>(pat, _). has_prefix (kr_sent rq) pat) kubelet_patterns = Some (''/exec/'', handle_exec_stream)"
    using path by (simp add: kubelet_patterns_def has_prefix_def)
  then show ?thesis using clean parts allowed pod
    by (simp add: kubelet_serve_def authorize_kubelet_client_def kubelet_mux_def handle_exec_stream_def
        split_stream_path_def with_pod_def with_opts_def)
qed

subsection \<open>Which file is served\<close>

lemma path_join_comps:
  assumes "\<forall>c \<in> set ds. plain_comp c" and "\<forall>c \<in> set cs. plain_comp c" and "cs \<noteq> []"
  shows "path_join (abs_path ds # cs) = abs_path (ds @ cs)"
proof -
  let ?j = "join_with ''/'' cs" let ?p = "abs_path ds @ ''/'' @ ?j"
  have r: "is_rooted ?p" by (simp add: is_rooted_def has_prefix_def abs_path_def)
  have g: "\<forall>c \<in> set cs. good_comp c" and ne: "filter (\<lambda>e. e \<noteq> []) cs = cs" "abs_path ds \<noteq> []"
    using assms(2) by (auto simp: plain_comp_def good_comp_def abs_path_def filter_id_conv)
  have "split_on (CHR ''/'') ?p = ([] # (if ds = [] then [[]] else ds)) @ cs"
    using split_on_append_sep [of "CHR ''/''" "abs_path ds" ?j] split_abs_path [OF assms(1)] split_join_comps [OF assms(3) g] by simp
  then have "path_comps ?p = resolve True [] (ds @ cs)" using r by (simp add: path_comps_def)
  also have "\<dots> = ds @ cs" using assms by (auto simp: resolve_append_plain resolve_id)
  finally have "path_clean ?p = abs_path (ds @ cs)" using r by (simp add: path_clean_rooted)
  moreover have "path_join (abs_path ds # cs) = path_clean ?p" using assms(3) ne by (simp add: path_join_def join_with_Cons)
  ultimately show ?thesis by simp
qed

lemma log_name_plain: "CHR ''/'' \<notin> set c \<Longrightarrow> plain_comp (c @ ''.log'')"
  by (cases c; cases "tl c") (auto simp: plain_comp_def good_comp_def)

lemma log_path_abs:
  assumes "\<forall>d \<in> set ws. plain_comp d" and "plain_comp uid" and "CHR ''/'' \<notin> set c"
  shows "log_path (abs_path ws) uid c = abs_path (ws @ [uid, ''rootfs'', ''logs'', c @ ''.log''])"
proof -
  have "plain_comp ''rootfs''" "plain_comp ''logs''" by code_simp+
  then show ?thesis using path_join_comps [OF assms(1), of "[uid, ''rootfs'', ''logs'', c @ ''.log'']"] assms(2) log_name_plain [OF assms(3)]
    by (simp add: log_path_def)
qed

lemma h_walk_into:
  assumes "\<forall>d \<in> set ds. plain_comp d" and "\<And>q. q \<noteq> [] \<Longrightarrow> prefix q ds \<Longrightarrow> is_hdir (h_at fs (cur @ q))"
  shows "h_walk k follow fs cur (ds @ cs) = h_walk k follow fs (cur @ ds) cs"
  using assms
proof (induction ds arbitrary: cur)
  case (Cons d ds)
  have d: "d \<noteq> []" "d \<noteq> ''.''" "d \<noteq> ''..''" using Cons.prems(1) by (auto simp: plain_comp_def good_comp_def)
  have "is_hdir (h_at fs (cur @ [d]))" using Cons.prems(2) [of "[d]"] by simp
  moreover have "is_hdir (h_at fs ((cur @ [d]) @ q))" if "q \<noteq> []" "prefix q ds" for q
    using Cons.prems(2) [of "d # q"] that by simp
  ultimately show ?case using Cons.IH [of "cur @ [d]"] Cons.prems(1) d by (auto elim!: is_hdir.elims)
qed simp

text \<open>A directory reached through directories only.\<close>

definition plain_dir :: "hfs \<Rightarrow> string list \<Rightarrow> bool" where
  "plain_dir fs ds = (list_all plain_comp ds \<and> list_all (\<lambda>q. q = [] \<or> is_hdir (h_at fs q)) (prefixes ds))"

lemma plain_dirD: "plain_dir fs ds \<Longrightarrow> \<forall>d \<in> set ds. plain_comp d" "plain_dir fs ds \<Longrightarrow> q \<noteq> [] \<Longrightarrow> prefix q ds \<Longrightarrow> is_hdir (h_at fs q)"
  by (auto simp: plain_dir_def list_all_iff)

lemma h_stat_in:
  assumes "plain_dir fs ds" and "plain_comp c" and "h_at fs (ds @ [c]) = Some (HFile m b)"
  shows "h_stat fs (abs_path (ds @ [c])) = Inr (HFile m b)"
proof -
  have w: "h_walk k f fs [] (ds @ [c]) = h_walk k f fs ds [c]" for k f
    using h_walk_into [OF plain_dirD(1) [OF assms(1)], of fs "[]" k f "[c]"] plain_dirD(2) [OF assms(1)] by simp
  have "c \<noteq> []" "c \<noteq> ''.''" "c \<noteq> ''..''" using assms(2) by (auto simp: plain_comp_def good_comp_def)
  then show ?thesis
    using h_resolve_abs [of "ds @ [c]" True fs] plain_dirD(1) [OF assms(1)] assms(2,3) w
    by (simp add: h_stat_def)
qed

lemma h_stat_link:
  assumes "plain_dir fs ds" and "plain_comp c" and "h_at fs (ds @ [c]) = Some (HLink (abs_path (qs @ [q])))"
    and "plain_dir fs qs" and "plain_comp q" and "h_at fs (qs @ [q]) = Some (HFile m b)"
  shows "h_stat fs (abs_path (ds @ [c])) = Inr (HFile m b)"
proof -
  have w: "h_walk k f fs [] (ds @ [c]) = h_walk k f fs ds [c]" for k f
    using h_walk_into [OF plain_dirD(1) [OF assms(1)], of fs "[]" k f "[c]"] plain_dirD(2) [OF assms(1)] by simp
  have w': "h_walk k f fs [] (qs @ [q]) = h_walk k f fs qs [q]" for k f
    using h_walk_into [OF plain_dirD(1) [OF assms(4)], of fs "[]" k f "[q]"] plain_dirD(2) [OF assms(4)] by simp
  have c: "c \<noteq> []" "c \<noteq> ''.''" "c \<noteq> ''..''" "q \<noteq> []" "q \<noteq> ''.''" "q \<noteq> ''..''"
    using assms(2,5) by (auto simp: plain_comp_def good_comp_def)
  have s: "split_on (CHR ''/'') (abs_path (qs @ [q])) = [] # qs @ [q]"
    using split_abs_path [of "qs @ [q]"] plain_dirD(1) [OF assms(4)] assms(5) by simp
  show ?thesis
    using h_resolve_abs [of "ds @ [c]" True fs] plain_dirD(1) [OF assms(1)] assms(2,3,6) w w' c s
    by (simp add: h_stat_def max_links_def numeral_eq_Suc)
qed

definition log_answer :: "bytes \<Rightarrow> kubelet_request \<Rightarrow> served response" where
  "log_answer data rq =
     Serve (LogStream data
       (case atoi (query_get (kr_query rq) ''tailLines'') of
          None \<Rightarrow> 0
        | Some n \<Rightarrow> if 0 \<le> n then seek_to_last_lines data (nat n) else 0)
       (query_get (kr_query rq) ''follow'' = ''true''))"

lemma served_log:
  assumes "h_stat (ke_files env) (log_path (ke_work_dir env) (pod_state_uid pod) c) = Inr (HFile m data)"
    and "kr_path rq = ''/containerLogs/'' @ join_with ''/'' [ns, name, c]" and "plain_comp ns" "plain_comp name" "plain_comp c"
    and "ke_client env" "ke_pod env ns name = Inr pod"
  shows "handle_container_logs env rq = log_answer data rq"
proof -
  have "path_parts ''/containerLogs/'' (kr_path rq) = [ns, name, c]"
    unfolding assms(2) using assms(3-5) by (intro path_parts_of) auto
  then show ?thesis using assms by (simp add: handle_container_logs_def with_pod_def log_answer_def Let_def split: option.split)
qed

text \<open>the log served for a container is the file \<^verbatim>\<open>rootfs/logs/<container>.log\<close> below the pod's own directory, from
  the offset and with the following the query asks for.\<close>

theorem container_log_served:
  assumes work: "ke_work_dir env = abs_path ws" "plain_dir (ke_files env) (ws @ [pod_state_uid pod, ''rootfs'', ''logs''])"
    and own: "h_at (ke_files env) (ws @ [pod_state_uid pod, ''rootfs'', ''logs''] @ [c @ ''.log'']) = Some (HFile m data)"
    and rq: "kr_path rq = ''/containerLogs/'' @ join_with ''/'' [ns, name, c]" "plain_comp ns" "plain_comp name" "plain_comp c"
    and pod: "ke_client env" "ke_pod env ns name = Inr pod"
  shows "handle_container_logs env rq = log_answer data rq"
proof (rule served_log [OF _ rq pod])
  have c: "CHR ''/'' \<notin> set c" using rq(4) by (auto simp: plain_comp_def good_comp_def)
  have "log_path (ke_work_dir env) (pod_state_uid pod) c = abs_path ((ws @ [pod_state_uid pod, ''rootfs'', ''logs'']) @ [c @ ''.log''])"
    using log_path_abs [OF _ _ c, of ws "pod_state_uid pod"] plain_dirD(1) [OF work(2)] work(1) by simp
  then show "h_stat (ke_files env) (log_path (ke_work_dir env) (pod_state_uid pod) c) = Inr (HFile m data)"
    using h_stat_in [OF work(2) log_name_plain [OF c], of m data] own by simp
qed

text \<open>the directory of the logs is shared with the guest; a symbolic link the guest puts in place of its log makes the
  agent serve whichever file of the host the link names.\<close>

theorem planted_link_served:
  assumes work: "ke_work_dir env = abs_path ws" "plain_dir (ke_files env) (ws @ [pod_state_uid pod, ''rootfs'', ''logs''])"
    and link: "h_at (ke_files env) (ws @ [pod_state_uid pod, ''rootfs'', ''logs''] @ [c @ ''.log'']) = Some (HLink (abs_path (qs @ [q])))"
    and secret: "plain_dir (ke_files env) qs" "plain_comp q" "h_at (ke_files env) (qs @ [q]) = Some (HFile m data)"
    and rq: "kr_path rq = ''/containerLogs/'' @ join_with ''/'' [ns, name, c]" "plain_comp ns" "plain_comp name" "plain_comp c"
    and pod: "ke_client env" "ke_pod env ns name = Inr pod"
  shows "handle_container_logs env rq = log_answer data rq"
proof (rule served_log [OF _ rq pod])
  have c: "CHR ''/'' \<notin> set c" using rq(4) by (auto simp: plain_comp_def good_comp_def)
  have "log_path (ke_work_dir env) (pod_state_uid pod) c = abs_path ((ws @ [pod_state_uid pod, ''rootfs'', ''logs'']) @ [c @ ''.log''])"
    using log_path_abs [OF _ _ c, of ws "pod_state_uid pod"] plain_dirD(1) [OF work(2)] work(1) by simp
  then show "h_stat (ke_files env) (log_path (ke_work_dir env) (pod_state_uid pod) c) = Inr (HFile m data)"
    using h_stat_link [OF work(2) log_name_plain [OF c] _ secret] link by simp
qed

subsection \<open>The hypotheses hold\<close>

definition log_host :: hfs where
  "log_host =
     \<lparr>hf_names = [([''w''], 0), ([''w'', ''u''], 1), ([''w'', ''u'', ''rootfs''], 2), ([''w'', ''u'', ''rootfs'', ''logs''], 3),
                  ([''w'', ''u'', ''rootfs'', ''logs'', ''web.log''], 4), ([''w'', ''u'', ''rootfs'', ''logs'', ''bad.log''], 5),
                  ([''etc''], 6), ([''etc'', ''key''], 7)],
      hf_objs = (\<lambda>i. if i = 4 then HFile 0x1A4 [104, 105, 10] else if i = 5 then HLink ''/etc/key''
                     else if i = 7 then HFile 0x180 [42] else HDir 0x1ED),
      hf_next = 8, hf_denied = (\<lambda>_. False), hf_umask = 0\<rparr>"

definition log_pod :: kpod where
  "log_pod = (a_pod [] [])\<lparr>kp_uid := ''u''\<rparr>"

definition log_env :: kubelet_env where
  "log_env = \<lparr>ke_work_dir = ''/w'', ke_client = True, ke_pod = (\<lambda>ns name. Inr log_pod), ke_quote = id, ke_files = log_host\<rparr>"

definition get :: "string \<Rightarrow> (string \<times> string) list \<Rightarrow> kubelet_request" where
  "get p q = \<lparr>kr_tls = Some [\<lparr>pe_name = ''admin'', pe_orgs = [''system:masters'']\<rparr>], kr_sent = p, kr_path = p, kr_query = q,
     kr_stream_opts = None\<rparr>"

lemma log_pod_uid: "pod_state_uid log_pod = ''u''"
  by code_simp

lemma log_dirs: "plain_dir log_host [''w'', ''u'', ''rootfs'', ''logs'']" "plain_dir log_host [''etc'']"
  by code_simp+

lemma kubelet_api_guarded_witness:
  "\<exists>p rest. kr_tls (get ''/exec/ns/web/c'' [(''command'', ''ls'')]) = Some (p # rest)
    \<and> (pe_name p = ''kube-apiserver-kubelet-client'' \<or> ''system:masters'' \<in> set (pe_orgs p))"
proof (rule kubelet_api_guarded)
  show "kubelet_serve log_env (get ''/exec/ns/web/c'' [(''command'', ''ls'')]) = Serve (ExecStream ''web'' ''u'' ''c'' [''ls''])"
    by code_simp
qed

lemma exec_reaches_container_witness:
  "kubelet_serve log_env (get ''/exec/ns/web/c'' [(''command'', ''ls''), (''command'', ''-l'')])
    = Serve (ExecStream ''web'' (pod_state_uid log_pod) ''c''
        (query_all (kr_query (get ''/exec/ns/web/c'' [(''command'', ''ls''), (''command'', ''-l'')])) ''command''))"
proof (rule exec_reaches_container [where ns = "''ns''" and p = "\<lparr>pe_name = ''admin'', pe_orgs = [''system:masters'']\<rparr>" and rest = "[]"])
  show "ke_pod log_env ''ns'' ''web'' = Inr log_pod" by (simp add: log_env_def)
qed code_simp+

lemma container_log_served_witness:
  "handle_container_logs log_env (get ''/containerLogs/ns/web/web'' [(''tailLines'', ''1'')])
    = log_answer [104, 105, 10] (get ''/containerLogs/ns/web/web'' [(''tailLines'', ''1'')])"
proof (rule container_log_served [where ws = "[''w'']" and pod = log_pod and c = "''web''" and ns = "''ns''" and name = "''web''" and m = "0x1A4"])
  show "plain_dir (ke_files log_env) ([''w''] @ [pod_state_uid log_pod, ''rootfs'', ''logs''])"
    using log_dirs(1) by (simp add: log_pod_uid log_env_def)
next
  show "ke_pod log_env ''ns'' ''web'' = Inr log_pod" by (simp add: log_env_def)
qed code_simp+

lemma planted_link_served_witness:
  "handle_container_logs log_env (get ''/containerLogs/ns/web/bad'' [])
    = log_answer [42] (get ''/containerLogs/ns/web/bad'' [])"
proof (rule planted_link_served [where ws = "[''w'']" and pod = log_pod and c = "''bad''" and ns = "''ns''" and name = "''web''"
      and qs = "[''etc'']" and q = "''key''" and m = "0x180"])
  show "plain_dir (ke_files log_env) ([''w''] @ [pod_state_uid log_pod, ''rootfs'', ''logs''])"
    using log_dirs(1) by (simp add: log_pod_uid log_env_def)
next
  show "ke_pod log_env ''ns'' ''web'' = Inr log_pod" by (simp add: log_env_def)
qed code_simp+

lemma kubelet_checks:
  "kubelet_mux log_env (get ''/exec/ns/../c'' []) = Redirect ''/exec/c''"
  "kubelet_mux log_env (get ''/exec'' []) = Redirect ''/exec/''"
  "kubelet_mux log_env (get ''/exec/ns/web'' []) = HttpError 404 ''expected /exec/{namespace}/{pod}/{container}''"
  "kubelet_serve log_env ((get ''/exec/ns/web/c'' [])\<lparr>kr_tls := None\<rparr>) = HttpError 401 ''client certificate required''"
  "log_answer [1, 10, 2, 10] (get [] [(''tailLines'', ''1''), (''follow'', ''true'')]) = Serve (LogStream [1, 10, 2, 10] 2 True)"
  by code_simp+

lemma atoi_checks: "map atoi [''7'', ''-7'', ''+7'', [], ''7x''] = [Some 7, Some (-7), Some 7, None, None]"
  by code_simp+

end
