(* ===== verification/Exec_Path.thy ===== *)
theory Exec_Path imports Control_Props Kubelet_Server Vm_Boot begin

text \<open>
  From an HTTP request at the agent to a process in the guest: \<^verbatim>\<open>ExecInContainer\<close>, \<^verbatim>\<open>AttachContainer\<close> and
  \<^verbatim>\<open>PortForward\<close> of \<^verbatim>\<open>poc/agent/streams.go\<close> put the session's request into words, \<^verbatim>\<open>handleConn\<close> of the guest
  acts on it.  The fields a request does not name have their zero values in the guest.  Which guest answers is
  decided by the name of the socket: the agent dials the one of the pod's UID, and the harness of a VM serves the
  one it was given with \<^verbatim>\<open>--vsock-exec\<close>.
\<close>

definition no_request :: request where
  "no_request = \<lparr>rq_op = [], rq_container = [], rq_argv = [], rq_tty = False, rq_cols = 0, rq_rows = 0,
     rq_ptype = [], rq_port = 0, rq_path = [], rq_scheme = [], rq_timeout = 0, rq_grace = 0\<rparr>"

definition exec_in_container :: "string \<Rightarrow> string list \<Rightarrow> bool \<Rightarrow> request" where
  "exec_in_container c cmd terminal = no_request\<lparr>rq_op := ''exec'', rq_container := c, rq_argv := cmd, rq_tty := terminal\<rparr>"

definition attach_container :: "string \<Rightarrow> request" where
  "attach_container c = no_request\<lparr>rq_op := ''attach'', rq_container := c\<rparr>"

definition port_forward :: "int \<Rightarrow> request" where
  "port_forward p = no_request\<lparr>rq_op := ''portforward'', rq_port := p\<rparr>"

text \<open>The session the streaming library opens for what is served: the UID it is for and the request, with the terminal
  flag of the options or the port of a forwarded stream.\<close>

definition session_request :: "served \<Rightarrow> bool \<Rightarrow> int \<Rightarrow> (string \<times> request) option" where
  "session_request s terminal p =
     (case s of
        ExecStream name uid c cmd \<Rightarrow> Some (uid, exec_in_container c cmd terminal)
      | AttachStream name uid c \<Rightarrow> Some (uid, attach_container c)
      | ForwardStream name uid \<Rightarrow> Some (uid, port_forward p)
      | _ \<Rightarrow> None)"

subsection \<open>Sockets\<close>

text \<open>A VM of this host: the UID it was started for, the arguments its harness got, and its guest.\<close>

record vm_run =
  vr_uid :: string
  vr_args :: "string list"
  vr_env :: guest_env
  vr_guest :: guest

text \<open>The value of a flag of the harness, which takes its flags in pairs.\<close>

fun flag_value :: "string \<Rightarrow> string list \<Rightarrow> string option" where
  "flag_value f (k # v # rest) = (if k = f then Some v else flag_value f rest)"
| "flag_value f _ = None"

text \<open>Who answers on a socket: the VM whose harness bound it last (the list has the newest VM first).\<close>

definition listening :: "vm_run list \<Rightarrow> string \<Rightarrow> vm_run option" where
  "listening vs sock = find (\<lambda>v. flag_value ''--vsock-exec'' (vr_args v) = Some sock) vs"

text \<open>\<^verbatim>\<open>dialExecd\<close> of a UID, the request as a frame on the connection, and \<^verbatim>\<open>handleConn\<close> of the guest that answers:
  the guest, and what it does.  An attempt to dial fails while nobody listens.\<close>

definition open_session :: "vm_run list \<Rightarrow> (request \<Rightarrow> bytes) \<Rightarrow> nat \<Rightarrow> nat \<Rightarrow> string \<times> request
    \<Rightarrow> (vm_run \<times> guest \<times> Guest_Control.effect list) option" where
  "open_session vs enc sid space q =
     (case listening vs (sock_path ''.sock'' (fst q)) of
        None \<Rightarrow> None
      | Some v \<Rightarrow>
          (case framed_read (written (snd (execd_conn_write frame_request (enc (snd q)) \<lparr>written = [], room = space\<rparr>))) of
             Inl _ \<Rightarrow> None
           | Inr ((typ, payload), _) \<Rightarrow> Some (v, handle_conn (vr_env v) sid typ payload (vr_guest v))))"

text \<open>A VM as \<^verbatim>\<open>runPod\<close> starts one.\<close>

definition started_for :: "vm_run \<Rightarrow> bool" where
  "started_for v \<longleftrightarrow> (\<exists>bc bh pod ip dir rootfs vol_args images acts.
     kp_uid pod = vr_uid v \<and> boot_vm bc bh pod ip dir rootfs vol_args images = (acts, Inr (vr_args v)))"

lemma started_forI:
  "boot_vm bc bh pod ip dir rootfs vol_args images = (acts, Inr (vr_args v)) \<Longrightarrow> kp_uid pod = vr_uid v \<Longrightarrow> started_for v"
  unfolding started_for_def by blast

lemma started_socket:
  assumes "started_for v"
  shows "flag_value ''--vsock-exec'' (vr_args v) = Some (sock_path ''.sock'' (vr_uid v))"
proof -
  obtain bc bh pod ip dir rootfs vol_args images acts where "kp_uid pod = vr_uid v"
      "boot_vm bc bh pod ip dir rootfs vol_args images = (acts, Inr (vr_args v))"
    using assms by (auto simp: started_for_def)
  with started_vm [OF this(2)] show ?thesis by (auto simp: base_args_def)
qed

lemma sock_path_eq:
  assumes "CHR ''/'' \<notin> set u" "CHR ''/'' \<notin> set u'"
  shows "sock_path ''.sock'' u = sock_path ''.sock'' u' \<longleftrightarrow> take 8 u = take 8 u'"
proof -
  have p: "plain_comp (''podvm-'' @ take 8 w @ ''.sock'')" if "CHR ''/'' \<notin> set w" for w
  proof -
    have "CHR ''/'' \<notin> set (take 8 w)" using that in_set_takeD by metis
    then show ?thesis by (simp add: plain_comp_def good_comp_def)
  qed
  have t: "plain_comp ''tmp''" by code_simp
  have "sock_path ''.sock'' w = ''/tmp/'' @ ''podvm-'' @ take 8 w @ ''.sock''" if "CHR ''/'' \<notin> set w" for w
    using path_join_comps [of "[''tmp'']" "[''podvm-'' @ take 8 w @ ''.sock'']"] p [OF that] t
    by (simp add: sock_path_def abs_path_def)
  then show ?thesis using assms by simp
qed

text \<open>The VM that answers for a UID, when no other VM's UID begins with the same eight characters.\<close>

lemma listening_own:
  assumes "\<forall>v \<in> set vs. started_for v \<and> CHR ''/'' \<notin> set (vr_uid v)" and "v \<in> set vs"
    and "\<forall>x \<in> set vs. take 8 (vr_uid x) = take 8 (vr_uid v) \<longrightarrow> x = v"
  shows "listening vs (sock_path ''.sock'' (vr_uid v)) = Some v"
proof -
  have sock: "flag_value ''--vsock-exec'' (vr_args x) = Some (sock_path ''.sock'' (vr_uid x))" if "x \<in> set vs" for x
    using started_socket assms(1) that by blast
  have "listening vs (sock_path ''.sock'' (vr_uid v)) \<noteq> None"
    unfolding listening_def find_None_iff using sock [OF assms(2)] assms(2) by blast
  then obtain x where x: "listening vs (sock_path ''.sock'' (vr_uid v)) = Some x" by blast
  then have in_vms: "x \<in> set vs" and "flag_value ''--vsock-exec'' (vr_args x) = Some (sock_path ''.sock'' (vr_uid v))"
    unfolding listening_def by (blast dest: find_some)+
  then have "sock_path ''.sock'' (vr_uid x) = sock_path ''.sock'' (vr_uid v)" using sock by simp
  then have "take 8 (vr_uid x) = take 8 (vr_uid v)" using assms(1,2) in_vms sock_path_eq by blast
  then show ?thesis using assms(3) in_vms x by blast
qed

lemma request_delivered:
  assumes "length p < 2 ^ 32" and "5 + length p \<le> space"
  shows "framed_read (written (snd (execd_conn_write t p \<lparr>written = [], room = space\<rparr>))) = Inr ((t, p), [])"
proof -
  obtain c' where c: "framed_write t p \<lparr>written = [], room = space\<rparr> = (True, c')"
    using framed_write_room [of t p "\<lparr>written = [], room = space\<rparr>"] assms(2) by auto
  show ?thesis using framed_write_ok [OF c] framed_read_bytes [OF assms(1), of t "[]"] c by (simp add: execd_conn_write_eq)
qed

lemma by_name_named: "plain_comp c \<Longrightarrow> by_name p c = named p c"
  by (auto simp: by_name_def named_def plain_comp_def good_comp_def)

text \<open>C3: an authorized exec request of the API server for a container of a pod reaches the VM that was started for that
  pod's state UID, and no other, when the UIDs of the host's VMs differ in their first eight characters; the guest
  runs the command with that container's root as its root, with the container's environment and working directory.
  The program is looked up in that root.\<close>

theorem exec_runs_in_container:
  assumes path: "kr_path rq = ''/exec/'' @ join_with ''/'' [ns, name, c]" "kr_sent rq = kr_path rq"
    and plain: "plain_comp ns" "plain_comp name" "plain_comp c"
    and allowed: "kr_tls rq = Some (p # rest)" "authorized_peer p" "kr_stream_opts rq = None"
    and pod: "ke_client env" "ke_pod env ns name = Inr pod"
    and cmd: "query_all (kr_query rq) ''command'' = prog # args"
    and vs: "\<forall>x \<in> set vs. started_for x \<and> CHR ''/'' \<notin> set (vr_uid x)" "v \<in> set vs" "vr_uid v = pod_state_uid pod"
      "\<forall>x \<in> set vs. take 8 (vr_uid x) = take 8 (vr_uid v) \<longrightarrow> x = v"
    and json: "ge_decode (vr_env v) (enc (exec_in_container c (prog # args) terminal)) = Some (exec_in_container c (prog # args) terminal)"
      "length (enc (exec_in_container c (prog # args) terminal)) < 2 ^ 32"
      "5 + length (enc (exec_in_container c (prog # args) terminal)) \<le> space"
    and guest: "named (g_pod (vr_guest v)) c = Some ct"
      "find_program (vr_env v) (root ct) (merge_env default_env (cs_env (spec ct))) prog = Some exe"
  shows "\<exists>s q. kubelet_serve env rq = Serve s \<and> session_request s terminal 0 = Some q
    \<and> open_session vs enc sid space q
      = Some (v, vr_guest v, [StartExec sid \<lparr>cm_path = exe, cm_argv = prog # args, cm_env = merge_env default_env (cs_env (spec ct)),
           cm_chroot = root ct, cm_dir = working_dir (cwd (spec ct)) (root ct), cm_tty = terminal\<rparr>])"
proof -
  have s: "kubelet_serve env rq = Serve (ExecStream name (pod_state_uid pod) c (prog # args))"
    using exec_reaches_container [OF path plain allowed pod] cmd by simp
  have l: "listening vs (sock_path ''.sock'' (pod_state_uid pod)) = Some v"
    using listening_own [OF vs(1,2,4)] vs(3) by simp
  have "by_name (g_pod (vr_guest v)) c = Some ct" using by_name_named [OF plain(3)] guest(1) by simp
  then have "handle_conn (vr_env v) sid frame_request (enc (exec_in_container c (prog # args) terminal)) (vr_guest v)
      = (vr_guest v, [StartExec sid \<lparr>cm_path = exe, cm_argv = prog # args, cm_env = merge_env default_env (cs_env (spec ct)),
           cm_chroot = root ct, cm_dir = working_dir (cwd (spec ct)) (root ct), cm_tty = terminal\<rparr>])"
    using json(1) guest(2)
    by (simp add: handle_conn_def exec_in_container_def no_request_def exec_command_def)
  then show ?thesis using s l request_delivered [OF json(2,3), of frame_request]
    by (simp add: session_request_def open_session_def)
qed

text \<open>Otherwise the newer VM answers for both: a session into the older pod is opened in the guest of the newer.\<close>

theorem shared_prefix_answers:
  assumes "started_for newer" and "take 8 (vr_uid newer) = take 8 (vr_uid older)"
  shows "listening (newer # vs) (sock_path ''.sock'' (vr_uid older)) = Some newer"
  using started_socket [OF assms(1)] assms(2) by (simp add: listening_def sock_path_def)

text \<open>An exec session sees what the container itself was started with.\<close>

lemma exec_as_started:
  assumes "start_command genv ct = Command cm" and "by_name p (rq_container rq) = Some ct"
    and "rq_argv rq = argv (spec ct)" and "rq_tty rq = tty (spec ct)"
  shows "exec_command genv p rq = Inr cm"
  using assms by (auto simp: start_command_def exec_command_def Let_def split: list.splits option.splits)

definition exec_env :: guest_env where
  "exec_env = quiet_env\<lparr>ge_decode := (\<lambda>_. Some (exec_in_container ''web'' [''sh'', ''-c''] False)),
     ge_lstat := bb_lstat, ge_readlink := bb_readlink, ge_exec := bb_exec\<rparr>"

definition web_args :: "string list" where
  "web_args = base_args both_nets log_pod ''/d'' ''/d/rootfs'' [] [''/img/web'']
     @ [''--net-socket'', sock_path ''.net'' ''u''] @ [''--net2-socket'', sock_path ''.vm'' ''u'', ''--net2-mac'', ''5a:94:ef:00:00:01'',
        ''--vsock-svc'', sock_path ''.svc'' ''u''] @ [''--'', ''/execd'']"

definition web_vm :: vm_run where
  "web_vm = \<lparr>vr_uid = ''u'', vr_args = web_args, vr_env = exec_env,
     vr_guest = new_guest (new_pod ''Always'' [] [(task ''web'', ''/roots/c'')])\<rparr>"

definition other_vm :: vm_run where
  "other_vm = \<lparr>vr_uid = ''w'', vr_args = base_args both_nets (log_pod\<lparr>kp_uid := ''w''\<rparr>) [] [] [] [] @ [''--'', ''/execd''],
     vr_env = quiet_env, vr_guest = two_tasks\<rparr>"

lemma demo_vms_started: "started_for web_vm" "started_for other_vm"
proof -
  have "collect_host_ports log_pod = []" by code_simp
  then obtain acts where "boot_vm both_nets ready_host log_pod ''fd00::7'' ''/d'' ''/d/rootfs'' [] [''/img/web''] = (acts, Inr web_args)"
    by (simp add: boot_vm_def both_nets_def ready_host_def busy_host_def boot_gvproxy_def boot_vmnet_def start_vmnet_def
        web_args_def log_pod_def Let_def)
  then show "started_for web_vm" by (intro started_forI [where v = web_vm and pod = log_pod]) (simp_all add: web_vm_def log_pod_def)
  obtain acts where "boot_vm (both_nets\<lparr>bc_gvproxy := False, bc_vmnet := False\<rparr>) ready_host (log_pod\<lparr>kp_uid := ''w''\<rparr>) [] [] [] [] []
      = (acts, Inr (vr_args other_vm))"
    by (simp add: boot_vm_def both_nets_def ready_host_def busy_host_def base_args_def other_vm_def Let_def)
  then show "started_for other_vm" by (rule started_forI) (simp add: other_vm_def)
qed

lemma exec_runs_in_container_witness:
  "\<exists>s q. kubelet_serve log_env (get ''/exec/ns/web/web'' [(''command'', ''sh''), (''command'', ''-c'')]) = Serve s
    \<and> session_request s False 0 = Some q
    \<and> open_session [other_vm, web_vm] (\<lambda>_. []) 3 100 q
      = Some (web_vm, vr_guest web_vm, [StartExec 3 \<lparr>cm_path = ''/bin/sh'', cm_argv = [''sh'', ''-c''],
           cm_env = merge_env default_env [], cm_chroot = ''/roots/c'', cm_dir = ''/'', cm_tty = False\<rparr>])"
proof -
  define ct where "ct = new_container (task ''web'') ''/roots/c''"
  have ct: "root ct = ''/roots/c''" "cs_env (spec ct) = []" "working_dir (cwd (spec ct)) (root ct) = ''/''"
    unfolding ct_def by code_simp+
  have n: "named (g_pod (vr_guest web_vm)) ''web'' = Some ct" unfolding ct_def by code_simp
  have f: "find_program (vr_env web_vm) (root ct) (merge_env default_env (cs_env (spec ct))) ''sh'' = Some ''/bin/sh''"
    unfolding ct by code_simp
  have v: "\<forall>x \<in> set [other_vm, web_vm]. started_for x \<and> CHR ''/'' \<notin> set (vr_uid x)"
      "\<forall>x \<in> set [other_vm, web_vm]. take 8 (vr_uid x) = take 8 (vr_uid web_vm) \<longrightarrow> x = web_vm"
    using demo_vms_started by (simp_all add: other_vm_def web_vm_def)
  have w: "vr_uid web_vm = pod_state_uid log_pod" "ge_decode (vr_env web_vm) [] = Some (exec_in_container ''web'' [''sh'', ''-c''] False)"
    by (simp_all add: log_pod_uid) (simp_all add: web_vm_def exec_env_def)
  have q: "query_all (kr_query (get ''/exec/ns/web/web'' [(''command'', ''sh''), (''command'', ''-c'')])) ''command'' = [''sh'', ''-c'']"
    "ke_client log_env"
    "kr_path (get ''/exec/ns/web/web'' [(''command'', ''sh''), (''command'', ''-c'')]) = ''/exec/'' @ join_with ''/'' [''ns'', ''web'', ''web'']"
    "plain_comp ''ns''" "plain_comp ''web''" "authorized_peer \<lparr>pe_name = ''admin'', pe_orgs = [''system:masters'']\<rparr>"
    by code_simp+
  have pod: "ke_pod log_env ''ns'' ''web'' = Inr log_pod" by (simp add: log_env_def)
  show ?thesis
    using exec_runs_in_container [OF q(3) _ q(4,5,5) _ q(6) _ q(2) pod q(1) v(1) _ w(1) v(2), where enc = "\<lambda>_. []" and ct = ct
        and terminal = False and space = 100 and exe = "''/bin/sh''" and sid = 3 and rest = "[]"] w n f ct
    by (simp add: get_def)
qed

definition young_vm :: vm_run where
  "young_vm = web_vm\<lparr>vr_guest := two_tasks\<rparr>"

lemma shared_prefix_answers_witness:
  "listening [young_vm, web_vm] (sock_path ''.sock'' (vr_uid web_vm)) = Some young_vm"
proof (rule shared_prefix_answers)
  show "started_for young_vm" using demo_vms_started(1) by (simp add: started_for_def young_vm_def)
qed (simp add: young_vm_def)

end
