(* ===== verification/Guest_Boot.thy ===== *)
theory Guest_Boot imports Supervision Guest_Root Host_Fs Go_Net begin

text \<open>
  The start of the guest (\<^verbatim>\<open>poc/execd/main.go\<close> from \<^verbatim>\<open>main\<close> to \<^verbatim>\<open>sup.run()\<close>, \<^verbatim>\<open>mountVolumes\<close>, and
  \<^verbatim>\<open>poc/execd/net.go\<close>): the description is read, the container roots are built, network, service load balancer and
  DNS come up as far as they can, every volume is mounted, and only then the supervisor runs.  The kernel decides which
  calls succeed; reading and parsing the description is a parameter.
\<close>

subsection \<open>Network\<close>

datatype boot_act =
    LinkUp string
  | AddrAdd string string bool
  | RouteAdd string string
  | StartLB string
  | StartDns string

fun run_acts :: "(boot_act \<Rightarrow> bool) \<Rightarrow> (boot_act \<times> string) list \<Rightarrow> boot_act list \<times> string option" where
  "run_acts ok [] = ([], None)"
| "run_acts ok ((a, err) # as) =
     (if ok a then (case run_acts ok as of (done_acts, r) \<Rightarrow> (a # done_acts, r)) else ([], Some err))"

record boot_world =
  bw_spec :: "string + pod_spec"
  bw_kernel :: kernel
  bw_files :: "guest_roots \<Rightarrow> hfs"
  bw_mount :: "string \<Rightarrow> string list \<Rightarrow> hfs \<Rightarrow> hfs option"
  bw_link :: "string \<Rightarrow> bool"
  bw_parse_addr :: "string \<Rightarrow> bool"
  bw_ok :: "boot_act \<Rightarrow> bool"

definition configure_net :: "boot_world \<Rightarrow> net_spec \<Rightarrow> boot_act list \<times> string option" where
  "configure_net w ns =
     (let lo = (if bw_link w ''lo'' \<and> bw_ok w (LinkUp ''lo'') then [LinkUp ''lo''] else [])
      in if \<not> bw_link w ''eth0'' then (lo, Some ''no eth0'')
         else if \<not> bw_parse_addr w (net_ip ns) then (lo, Some (''parsing ip '' @ net_ip ns))
         else case run_acts (bw_ok w) [(AddrAdd ''eth0'' (net_ip ns) False, ''adding address''), (LinkUp ''eth0'', ''link up'')] of
                (as, Some e) \<Rightarrow> (lo @ as, Some e)
              | (as, None) \<Rightarrow>
                  if parse_ip (net_gw ns) = None then (lo @ as, Some (''bad gateway '' @ net_gw ns))
                  else (case run_acts (bw_ok w) [(RouteAdd ''eth0'' (net_gw ns), ''adding default route'')] of
                          (as', r) \<Rightarrow> (lo @ as @ as', r)))"

definition configure_net6 :: "boot_world \<Rightarrow> string \<Rightarrow> boot_act list \<times> string option" where
  "configure_net6 w ip =
     (if \<not> bw_link w ''eth1'' then ([], Some ''no eth1'')
      else if \<not> bw_parse_addr w ip then ([], Some (''parsing ip '' @ ip))
      else run_acts (bw_ok w) [(AddrAdd ''eth1'' ip True, ''adding address''), (LinkUp ''eth1'', ''link up'')])"

text \<open>Errors of the network are logged and nothing else.\<close>

definition network_acts :: "boot_world \<Rightarrow> pod_spec \<Rightarrow> boot_act list" where
  "network_acts w sp =
     (case net sp of None \<Rightarrow> [] | Some ns \<Rightarrow> fst (configure_net w ns))
     @ (case net6 sp of None \<Rightarrow> [] | Some ip \<Rightarrow> fst (configure_net6 w ip))"

subsection \<open>Name resolution\<close>

definition join_host_port :: "string \<Rightarrow> string \<Rightarrow> string" where
  "join_host_port host port =
     (if CHR '':'' \<in> set host then ''['' @ host @ '']:'' @ port else host @ '':'' @ port)"

definition newline :: string where
  "newline = [CHR 0x0A]"

definition cluster_resolv_conf :: "string \<Rightarrow> string" where
  "cluster_resolv_conf svcns =
     (let ns = (if svcns = [] then ''default'' else svcns)
      in ''nameserver 127.0.0.1'' @ newline
         @ ''search '' @ ns @ ''.svc.cluster.local svc.cluster.local cluster.local'' @ newline @ ''options ndots:5'' @ newline)"

definition write_etc_file :: "string \<Rightarrow> bytes \<Rightarrow> guest_roots \<Rightarrow> hfs \<Rightarrow> hfs" where
  "write_etc_file name content st fs = fold (\<lambda>p. attempt (h_write p content 0x1A4)) (write_etc name st) fs"

definition start_services :: "boot_world \<Rightarrow> pod_spec \<Rightarrow> guest_roots \<Rightarrow> hfs \<Rightarrow> boot_act list \<times> hfs" where
  "start_services w sp st fs =
     (let dns = (case net sp of None \<Rightarrow> [] | Some ns \<Rightarrow> net_dns ns)
      in case svc sp of
           Some sv \<Rightarrow>
             (let lb = StartLB (svc_cidr sv);
                  upstream = (if dns = [] then [] else join_host_port dns ''53'');
                  up = filter (bw_ok w) [lb, StartDns upstream]
              in (up, if bw_ok w (StartDns upstream)
                      then write_etc_file ''resolv.conf'' (string_bytes (cluster_resolv_conf (svc_ns sv))) st fs else fs))
         | None \<Rightarrow>
             ([], if dns = [] then fs else write_etc_file ''resolv.conf'' (string_bytes (''nameserver '' @ dns @ newline)) st fs))"

subsection \<open>Volumes\<close>

text \<open>The mounts made, by tag, path asked for, place and read-only flag, and the error that ends execd or the namespace afterwards;
  \<open>k\<close> is the kernel's answer to a mount at a resolved path.\<close>

fun mount_volumes :: "(string \<Rightarrow> string list \<Rightarrow> hfs \<Rightarrow> hfs option) \<Rightarrow> string \<Rightarrow> mount_spec list \<Rightarrow> hfs
    \<Rightarrow> (string \<times> string \<times> string list \<times> bool) list \<times> (string + hfs)" where
  "mount_volumes k r [] fs = ([], Inr fs)"
| "mount_volumes k r (m # ms) fs =
     (let target = r @ mount_path m
      in case h_mkdir_all (length target) target 0x1ED fs of
           Inl e \<Rightarrow> ([], Inl (''volume '' @ tag m @ '': mkdir '' @ target))
         | Inr fs1 \<Rightarrow>
             (case and_then (h_resolve True fs1 target)
                     (\<lambda>p. case k (tag m) p fs1 of None \<Rightarrow> Inl EINVAL | Some fs2 \<Rightarrow> Inr (p, fs2)) of
                Inl e \<Rightarrow> ([], Inl (''volume '' @ tag m @ '': mount '' @ target))
              | Inr (p, fs2) \<Rightarrow>
                  (case mount_volumes k r ms fs2 of (t, res) \<Rightarrow> ((tag m, target, p, read_only m) # t, res))))"

fun mount_all :: "(string \<Rightarrow> string list \<Rightarrow> hfs \<Rightarrow> hfs option) \<Rightarrow> (container_spec \<times> string) list \<Rightarrow> hfs
    \<Rightarrow> (string \<times> string \<times> string list \<times> bool) list \<times> (string + hfs)" where
  "mount_all k [] fs = ([], Inr fs)"
| "mount_all k ((cs, r) # rest) fs =
     (case mount_volumes k r (mounts cs) fs of
        (t, Inl e) \<Rightarrow> (t, Inl e)
      | (t, Inr fs1) \<Rightarrow> (case mount_all k rest fs1 of (t', res) \<Rightarrow> (t @ t', res)))"

subsection \<open>The boot\<close>

fun build_roots :: "kernel \<Rightarrow> container_spec list \<Rightarrow> guest_roots \<Rightarrow> (string + (container_spec \<times> string) list) \<times> guest_roots" where
  "build_roots ok [] st = (Inr [], st)"
| "build_roots ok (cs # rest) st =
     (case (if root_dev cs = [] then (Some [], st) else build_container_root ok (cs_name cs) (root_dev cs) st) of
        (None, st1) \<Rightarrow> (Inl (''container '' @ cs_name cs @ '' root''), st1)
      | (Some r, st1) \<Rightarrow>
          (case build_roots ok rest st1 of
             (Inl e, st2) \<Rightarrow> (Inl e, st2)
           | (Inr bs, st2) \<Rightarrow> (Inr ((cs, r) # bs), st2)))"

datatype boot_end = Fatal string | Runs pod

record boot_result =
  bo_roots :: guest_roots
  bo_acts :: "boot_act list"
  bo_files :: "hfs option"
  bo_table :: "(string \<times> string \<times> string list \<times> bool) list"
  bo_end :: boot_end

definition ended :: "string \<Rightarrow> guest_roots \<Rightarrow> boot_result" where
  "ended e st = \<lparr>bo_roots = st, bo_acts = [], bo_files = None, bo_table = [], bo_end = Fatal e\<rparr>"

definition boot :: "boot_world \<Rightarrow> boot_result" where
  "boot w =
     (case bw_spec w of
        Inl e \<Rightarrow> ended e no_roots
      | Inr sp \<Rightarrow>
          if containers sp = [] then ended ''no containers in spec'' no_roots
          else case build_roots (bw_kernel w) (init_containers sp @ containers sp) no_roots of
                 (Inl e, st) \<Rightarrow> ended e st
               | (Inr bs, st) \<Rightarrow>
                   (let nis = length (init_containers sp);
                        (up, fs) = start_services w sp st (bw_files w st);
                        (t, res) = mount_all (bw_mount w) bs fs
                    in \<lparr>bo_roots = st, bo_acts = network_acts w sp @ up,
                        bo_files = (case res of Inl e \<Rightarrow> None | Inr fs' \<Rightarrow> Some fs'), bo_table = t,
                        bo_end = (case res of
                            Inl e \<Rightarrow> Fatal e
                          | Inr fs' \<Rightarrow> Runs (new_pod (if restart_policy sp = [] then ''Always'' else restart_policy sp)
                                               (take nis bs) (drop nis bs)))\<rparr>))"


subsection \<open>A pod that runs is complete\<close>

lemma mount_volumes_complete:
  "mount_volumes k r ms fs = (t, Inr fs')
   \<Longrightarrow> map (\<lambda>(g, path, p, ro). (g, path, ro)) t = map (\<lambda>m. (tag m, r @ mount_path m, read_only m)) ms"
  by (induction k r ms fs arbitrary: t rule: mount_volumes.induct)
    (auto simp: Let_def split: sum.splits prod.splits option.splits)

lemma mount_all_complete:
  "mount_all k bs fs = (t, Inr fs')
   \<Longrightarrow> map (\<lambda>(g, path, p, ro). (g, path, ro)) t
     = concat (map (\<lambda>(cs, r). map (\<lambda>m. (tag m, r @ mount_path m, read_only m)) (mounts cs)) bs)"
  by (induction k bs fs arbitrary: t rule: mount_all.induct)
    (auto dest: mount_volumes_complete split: sum.splits prod.splits)

text \<open>The root of a container, as the calls of the kernel that succeeded: its image device mounted read-only, a tmpfs of
  its own for what it writes, and the overlay of the two at its place.\<close>

definition has_root :: "guest_roots \<Rightarrow> string \<Rightarrow> string \<Rightarrow> bool" where
  "has_root st name dev \<longleftrightarrow>
     (\<exists>fstype \<in> {''erofs'', ''ext4''}. (Mount dev (''/lower-'' @ path_base dev) fstype [''MS_RDONLY''] [], True) \<in> set (calls st))
     \<and> (Mount ''tmpfs'' (''/rw-'' @ name) ''tmpfs'' [] [], True) \<in> set (calls st)
     \<and> (Mount ''overlay'' (''/roots/'' @ name) ''overlay'' []
          (''lowerdir=/lower-'' @ path_base dev @ '',upperdir=/rw-'' @ name @ ''/upper,workdir=/rw-'' @ name @ ''/work''), True)
        \<in> set (calls st)"

lemma overlaid_has_root: "overlaid {(name, dev)} st (root_dir name) \<Longrightarrow> has_root st name dev"
  by (auto simp: overlaid_def has_root_def mounted_ro_def image_mount_def root_dir_def rw_dir_def lower_dir_def overlay_opts_def)

lemma has_root_kept: "has_root st name dev \<Longrightarrow> set (calls st) \<subseteq> set (calls st') \<Longrightarrow> has_root st' name dev"
  unfolding has_root_def by blast

lemma build_roots_kept: "build_roots ok css st = (r, st') \<Longrightarrow> set (calls st) \<subseteq> set (calls st')"
proof (induction ok css st arbitrary: r st' rule: build_roots.induct)
  case (2 ok cs rest st)
  obtain x st1 where b: "(if root_dev cs = [] then (Some [], st) else build_container_root ok (cs_name cs) (root_dev cs) st) = (x, st1)" by force
  then have k: "set (calls st) \<subseteq> set (calls st1)"
    using build_container_root_kept [of st ok "cs_name cs" "root_dev cs"] by (auto split: if_splits)
  show ?case
  proof (cases x)
    case None
    then show ?thesis using "2.prems" b k by auto
  next
    case (Some y)
    obtain r2 st2 where r2: "build_roots ok rest st1 = (r2, st2)" by force
    then have "st' = st2" using "2.prems" b Some by (auto split: sum.splits)
    then show ?thesis using "2.IH" [OF b [symmetric] Some r2] k by auto
  qed
qed simp

lemma build_roots_complete:
  "build_roots ok css st = (Inr bs, st') \<Longrightarrow> roots_ok UNIV st \<Longrightarrow> map fst bs = css
    \<and> (\<forall>(cs, r) \<in> set bs. if root_dev cs = [] then r = [] else r = ''/roots/'' @ cs_name cs \<and> has_root st' (cs_name cs) (root_dev cs))"
proof (induction ok css st arbitrary: bs st' rule: build_roots.induct)
  case (2 ok cs rest st)
  let ?b = "if root_dev cs = [] then (Some [], st) else build_container_root ok (cs_name cs) (root_dev cs) st"
  obtain x st1 where b: "?b = (x, st1)" by force
  obtain r where r: "x = Some r" using 2(2) b by (cases x) auto
  obtain bs' where rest: "build_roots ok rest st1 = (Inr bs', st')" and bs: "bs = (cs, r) # bs'"
    using 2(2) b r by (auto split: prod.splits sum.splits)
  have one: "roots_ok UNIV st1 \<and> (if root_dev cs = [] then r = [] else r = ''/roots/'' @ cs_name cs \<and> has_root st1 (cs_name cs) (root_dev cs))"
    using b r 2(3) build_container_root_ok [OF 2(3), of "cs_name cs" "root_dev cs" ok] overlaid_has_root
    by (auto simp: root_dir_def split: if_splits)
  then have "if root_dev cs = [] then r = [] else r = ''/roots/'' @ cs_name cs \<and> has_root st' (cs_name cs) (root_dev cs)"
    using has_root_kept build_roots_kept [OF rest] by (auto split: if_splits)
  then show ?case using 2(1) [OF b [symmetric] r rest] one bs by auto
qed simp

lemma boot_runs_complete:
  assumes "bo_end (boot w) = Runs p"
  shows "\<exists>sp is ms. bw_spec w = Inr sp \<and> containers sp \<noteq> []
    \<and> map fst is = init_containers sp \<and> map fst ms = containers sp
    \<and> p = new_pod (if restart_policy sp = [] then ''Always'' else restart_policy sp) is ms
    \<and> list_all (\<lambda>(cs, r). if root_dev cs = [] then r = []
          else r = ''/roots/'' @ cs_name cs \<and> has_root (bo_roots (boot w)) (cs_name cs) (root_dev cs)) (is @ ms)
    \<and> map (\<lambda>(g, path, q, ro). (g, path, ro)) (bo_table (boot w))
       = concat (map (\<lambda>(cs, r). map (\<lambda>m. (tag m, r @ mount_path m, read_only m)) (mounts cs)) (is @ ms))"
proof -
  obtain sp where sp: "bw_spec w = Inr sp" "containers sp \<noteq> []"
    using assms by (auto simp: boot_def ended_def split: sum.splits if_splits)
  obtain res st where b: "build_roots (bw_kernel w) (init_containers sp @ containers sp) no_roots = (res, st)" by force
  then obtain bs where bs: "build_roots (bw_kernel w) (init_containers sp @ containers sp) no_roots = (Inr bs, st)"
    using assms sp by (cases res) (auto simp: boot_def ended_def)
  obtain up fs where up: "start_services w sp st (bw_files w st) = (up, fs)" by force
  obtain t r where t: "mount_all (bw_mount w) bs fs = (t, r)" by force
  then obtain fs' where r: "r = Inr fs'" using assms sp bs up by (cases r) (auto simp: boot_def)
  let ?n = "length (init_containers sp)"
  have "roots_ok UNIV no_roots" by (simp add: roots_ok_def no_roots_def images_mounted_def)
  note c = build_roots_complete [OF bs this]
  have "map fst (take ?n bs) = init_containers sp" "map fst (drop ?n bs) = containers sp"
    using c by (simp_all add: take_map [symmetric] drop_map [symmetric])
  moreover have st: "bo_roots (boot w) = st" using sp bs up t by (simp add: boot_def Let_def)
  have "list_all (\<lambda>(cs, r). if root_dev cs = [] then r = []
          else r = ''/roots/'' @ cs_name cs \<and> has_root (bo_roots (boot w)) (cs_name cs) (root_dev cs)) bs"
    using c unfolding st list_all_iff by blast
  moreover have "p = new_pod (if restart_policy sp = [] then ''Always'' else restart_policy sp) (take ?n bs) (drop ?n bs)"
    using assms sp bs up t r by (simp add: boot_def Let_def)
  moreover have "map (\<lambda>(g, path, q, ro). (g, path, ro)) (bo_table (boot w))
      = concat (map (\<lambda>(cs, r). map (\<lambda>m. (tag m, r @ mount_path m, read_only m)) (mounts cs)) bs)"
    using mount_all_complete [of "bw_mount w" bs fs t fs'] sp bs up t r by (simp add: boot_def Let_def)
  ultimately show ?thesis using sp
    by (intro exI [of _ sp] exI [of _ "take ?n bs"] exI [of _ "drop ?n bs"]) simp
qed

text \<open>C4: when execd runs its supervisor, the pod that runs is the one described; every container with an image device
  has a root of its own at \<^verbatim>\<open>/roots/<name>\<close>, where the kernel has made the overlay of that image (mounted
  read-only) and a tmpfs of the container's own, the others run in the boot root; and the mounts that were made are
  exactly the volumes of the containers in order, each with its tag, at the container's root followed by its mount
  path, and read-only where the description says so.  (Where the kernel ends up for such a path is the matter of
  \<open>volumes_in_place\<close> and \<open>linked_mount_escapes\<close>.)\<close>

theorem boot_complete:
  assumes "bo_end (boot w) = Runs p"
  shows "\<exists>sp is ms. bw_spec w = Inr sp \<and> containers sp \<noteq> []
    \<and> map fst is = init_containers sp \<and> map fst ms = containers sp
    \<and> p = new_pod (if restart_policy sp = [] then ''Always'' else restart_policy sp) is ms
    \<and> list_all (\<lambda>(cs, r). if root_dev cs = [] then r = []
          else r = ''/roots/'' @ cs_name cs \<and> has_root (bo_roots (boot w)) (cs_name cs) (root_dev cs)) (is @ ms)
    \<and> map (\<lambda>(g, path, q, ro). (g, path, ro)) (bo_table (boot w))
       = concat (map (\<lambda>(cs, r). map (\<lambda>m. (tag m, r @ mount_path m, read_only m)) (mounts cs)) (is @ ms))"
  by (rule boot_runs_complete [OF assms])

subsection \<open>Where volumes land\<close>

definition root_string :: "string list \<Rightarrow> string" where
  "root_string R = (if R = [] then [] else abs_path R)"

lemma join_with_append:
  "xs \<noteq> [] \<Longrightarrow> ys \<noteq> [] \<Longrightarrow> join_with sep (xs @ ys) = join_with sep xs @ sep @ join_with sep ys"
  by (induction xs rule: join_with.induct [of _ sep]) (auto simp: join_with_Cons)

lemma root_string_append: "cs \<noteq> [] \<Longrightarrow> root_string R @ abs_path cs = abs_path (R @ cs)"
  by (cases "R = []") (simp_all add: root_string_def abs_path_def join_with_append)

definition in_place :: "string list \<Rightarrow> mount_spec list \<Rightarrow> hfs \<Rightarrow> bool" where
  "in_place R ms fs \<longleftrightarrow> hf_ok fs \<and> (\<forall>m \<in> set ms. no_link_on fs [] (R @ path_comps (mount_path m)))"

text \<open>C26: each volume is mounted at its path below the container's root, provided that no symbolic link is on the way, in
  the image or in a volume mounted before; the guest's kernel may refuse, the mount then ends execd.\<close>

theorem volumes_in_place:
  assumes R: "\<forall>c \<in> set R. plain_comp c" and ms: "\<forall>m \<in> set ms. mount_path m = abs_path (path_comps (mount_path m)) \<and> path_comps (mount_path m) \<noteq> []"
    and start: "in_place R ms fs"
    and kernel: "\<forall>g p f f'. in_place R ms f \<and> k g p f = Some f' \<longrightarrow> in_place R ms f'"
    and run: "mount_volumes k (root_string R) ms fs = (t, Inr fs')"
  shows "t = map (\<lambda>m. (tag m, root_string R @ mount_path m, R @ path_comps (mount_path m), read_only m)) ms"
proof -
  have "set ms' \<subseteq> set ms \<Longrightarrow> in_place R ms f \<Longrightarrow> mount_volumes k (root_string R) ms' f = (t', Inr fs')
    \<Longrightarrow> t' = map (\<lambda>m. (tag m, root_string R @ mount_path m, R @ path_comps (mount_path m), read_only m)) ms'" for ms' f t'
  proof (induction ms' arbitrary: f t')
    case (Cons m ms')
    let ?cs = "R @ path_comps (mount_path m)"
    have m: "m \<in> set ms" using Cons.prems by simp
    have target: "root_string R @ mount_path m = abs_path ?cs"
      using ms m root_string_append [of "path_comps (mount_path m)" R] by metis
    have "is_rooted (mount_path m)" using ms m is_rooted_abs by metis
    then have plain: "\<forall>c \<in> set ?cs. plain_comp c" using R path_comps_rooted by auto
    obtain f1 p f2 t2 where mk: "h_mkdir_all (length (abs_path ?cs)) (abs_path ?cs) 0x1ED f = Inr f1"
      and p: "h_resolve True f1 (abs_path ?cs) = Inr p" and mnt: "k (tag m) p f1 = Some f2"
      and rest: "mount_volumes k (root_string R) ms' f2 = (t2, Inr fs')" and t': "t' = (tag m, root_string R @ mount_path m, p, read_only m) # t2"
      using Cons.prems(3) target by (auto simp: Let_def split: sum.splits prod.splits option.splits)
    have f: "hf_ok f" "no_link_on f [] ?cs" using Cons.prems(2) m by (auto simp: in_place_def)
    have "in_place R ms f1 \<and> hf_ok f1 \<and> no_link_on f1 [] ?cs \<and> is_hdir (h_at f1 ?cs)"
    proof (rule h_mkdir_all_induct [where Q = "in_place R ms", OF mk plain f(2,1) Cons.prems(2)])
      fix g g' r
      assume g: "in_place R ms g" "hf_ok g" "r \<noteq> []" "h_create r (HDir (masked g 0x1ED)) g = Inr g'"
      show "in_place R ms g'"
        using g(1) no_link_on_create [OF g(4,2,3)] h_create_at(1) [OF g(4,2,3)] by (auto simp: in_place_def)
    qed
    then have f1: "in_place R ms f1" "no_link_on f1 [] ?cs" by auto
    have "p = ?cs" by (rule h_resolve_plain [OF plain f1(2) p])
    moreover have "t2 = map (\<lambda>m. (tag m, root_string R @ mount_path m, R @ path_comps (mount_path m), read_only m)) ms'"
      using Cons.IH [OF _ _ rest] Cons.prems(1) kernel f1(1) mnt by auto
    ultimately show ?case using t' by simp
  qed simp
  from this [OF order_refl start run] show ?thesis .
qed

subsection \<open>Volumes behind a symbolic link\<close>

text \<open>A guest whose container root comes from an image with the usual link \<^verbatim>\<open>/var/run -> /run\<close>; the boot root has a
  directory \<^verbatim>\<open>/run\<close> or not.\<close>

definition linked_guest :: "bool \<Rightarrow> hfs" where
  "linked_guest run =
     \<lparr>hf_names = [([''roots''], 0), ([''roots'', ''web''], 1), ([''roots'', ''web'', ''run''], 2), ([''roots'', ''web'', ''var''], 3),
                  ([''roots'', ''web'', ''var'', ''run''], 4)] @ (if run then [([''run''], 5)] else []),
      hf_objs = (\<lambda>i. if i = 4 then HLink ''/run'' else HDir 0x1ED), hf_next = 6, hf_denied = (\<lambda>_. False), hf_umask = 0\<rparr>"

definition token_mount :: mount_spec where
  "token_mount = \<lparr>tag = ''vol0'', mount_path = ''/var/run/token'', read_only = True\<rparr>"

text \<open>mountVolumes resolves mount paths in execd's own root, not in the container's: behind an absolute link of the image
  the volume is mounted outside the container root, where the container cannot see it, or, when the boot root lacks
  the directory, execd ends and the pod never runs.\<close>

theorem linked_mount_escapes:
  "fst (mount_volumes (\<lambda>g p f. Some f) ''/roots/web'' [token_mount] (linked_guest True)) = [(''vol0'', ''/roots/web/var/run/token'', [''run'', ''token''], True)]
   \<and> fst (mount_volumes (\<lambda>g p f. Some f) ''/roots/web'' [token_mount] (linked_guest False)) = []
   \<and> projl (snd (mount_volumes (\<lambda>g p f. Some f) ''/roots/web'' [token_mount] (linked_guest False)))
     = ''volume vol0: mkdir /roots/web/var/run/token''"
  by code_simp

text \<open>A relative mount path lands beside the container root.\<close>

lemma relative_mount_beside_root:
  "fst (mount_volumes (\<lambda>g p f. Some f) ''/roots/web'' [token_mount\<lparr>mount_path := ''data''\<rparr>] (linked_guest True))
    = [(''vol0'', ''/roots/webdata'', [''roots'', ''webdata''], True)]"
  by code_simp

subsection \<open>The hypotheses hold\<close>

definition data_mount :: mount_spec where
  "data_mount = \<lparr>tag = ''vol1'', mount_path = ''/data/in'', read_only = False\<rparr>"

lemma volumes_in_place_witness:
  "fst (mount_volumes (\<lambda>g p f. Some f) ''/roots/web'' [data_mount] (linked_guest True))
    = map (\<lambda>m. (tag m, root_string [''roots'', ''web''] @ mount_path m, [''roots'', ''web''] @ path_comps (mount_path m), read_only m)) [data_mount]"
proof (rule volumes_in_place [of "[''roots'', ''web'']" "[data_mount]"])
  show "\<forall>c \<in> set [''roots'', ''web'']. plain_comp c" by code_simp
  show "\<forall>m \<in> set [data_mount]. mount_path m = abs_path (path_comps (mount_path m)) \<and> path_comps (mount_path m) \<noteq> []" by code_simp
  show "in_place [''roots'', ''web''] [data_mount] (linked_guest True)"
    unfolding in_place_def hf_ok_def no_link_on_def by code_simp
  show "\<forall>g p f f'. in_place [''roots'', ''web''] [data_mount] f \<and> Some f = Some f' \<longrightarrow> in_place [''roots'', ''web''] [data_mount] f'"
    by simp
  have "isl (snd (mount_volumes (\<lambda>g p f. Some f) ''/roots/web'' [data_mount] (linked_guest True))) = False" by code_simp
  moreover have "root_string [''roots'', ''web''] = ''/roots/web''" by code_simp
  ultimately show "mount_volumes (\<lambda>g p f. Some f) (root_string [''roots'', ''web'']) [data_mount] (linked_guest True)
      = (fst (mount_volumes (\<lambda>g p f. Some f) ''/roots/web'' [data_mount] (linked_guest True)),
         Inr (projr (snd (mount_volumes (\<lambda>g p f. Some f) ''/roots/web'' [data_mount] (linked_guest True)))))"
    by (simp add: prod_eq_iff)
qed

definition web_spec :: pod_spec where
  "web_spec = \<lparr>restart_policy = [], init_containers = [], containers = [(task ''web'')\<lparr>root_dev := ''/dev/vda'', mounts := [data_mount]\<rparr>],
     net = Some \<lparr>net_ip = ''10.0.0.2/24'', net_gw = ''10.0.0.1'', net_dns = []\<rparr>, net6 = None, svc = None\<rparr>"

definition web_world :: boot_world where
  "web_world = \<lparr>bw_spec = Inr web_spec, bw_kernel = (\<lambda>_ _. True), bw_files = (\<lambda>_. linked_guest True), bw_mount = (\<lambda>g p f. Some f),
     bw_link = (\<lambda>l. l = ''eth0''), bw_parse_addr = (\<lambda>_. True), bw_ok = (\<lambda>_. True)\<rparr>"

lemma web_roots: "fst (build_roots (\<lambda>_ _. True) (containers web_spec) no_roots) = Inr [(hd (containers web_spec), ''/roots/web'')]"
proof -
  have "call (\<lambda>_ _. True) c st = (True, st\<lparr>calls := calls st @ [(c, True)]\<rparr>)" for c st by (simp add: call_def)
  then show ?thesis
    by (simp add: web_spec_def task_def build_container_root_def ensure_dev_mounted_def root_calls_def no_roots_def root_dir_def Let_def split_beta)
qed

lemma web_boot_runs: "\<exists>p. bo_end (boot web_world) = Runs p"
proof -
  obtain st where st: "build_roots (\<lambda>_ _. True) (containers web_spec) no_roots = (Inr [(hd (containers web_spec), ''/roots/web'')], st)"
    using web_roots by (metis prod.collapse)
  have "isl (snd (mount_all (\<lambda>g p f. Some f) [(hd (containers web_spec), ''/roots/web'')] (linked_guest True))) = False" by code_simp
  then obtain t fs where t: "mount_all (\<lambda>g p f. Some f) [(hd (containers web_spec), ''/roots/web'')] (linked_guest True) = (t, Inr fs)"
    by (metis prod.collapse sum.collapse(2))
  have "init_containers web_spec = []" "containers web_spec \<noteq> []" by (simp_all add: web_spec_def)
  moreover have "start_services web_world web_spec st (linked_guest True) = ([], linked_guest True)"
    by (simp add: start_services_def web_spec_def)
  ultimately show ?thesis using st t by (simp add: boot_def web_world_def Let_def)
qed

lemma web_boot_acts:
  "network_acts web_world web_spec = [AddrAdd ''eth0'' ''10.0.0.2/24'' False, LinkUp ''eth0'', RouteAdd ''eth0'' ''10.0.0.1'']"
  by code_simp

lemma boot_complete_witness:
  "\<exists>p. bo_end (boot web_world) = Runs p \<and> map (root \<circ> id) (mains p) = [''/roots/web'']
    \<and> has_root (bo_roots (boot web_world)) ''web'' ''/dev/vda''
    \<and> map (\<lambda>(g, path, q, ro). (g, path, ro)) (bo_table (boot web_world)) = [(''vol1'', ''/roots/web/data/in'', False)]"
proof -
  obtain p where p: "bo_end (boot web_world) = Runs p" using web_boot_runs by blast
  obtain sp ics ms where b: "bw_spec web_world = Inr sp" "map fst ics = init_containers sp" "map fst ms = containers sp"
      "p = new_pod (if restart_policy sp = [] then ''Always'' else restart_policy sp) ics ms"
      "list_all (\<lambda>(cs, r). if root_dev cs = [] then r = []
          else r = ''/roots/'' @ cs_name cs \<and> has_root (bo_roots (boot web_world)) (cs_name cs) (root_dev cs)) (ics @ ms)"
      "map (\<lambda>(g, path, q, ro). (g, path, ro)) (bo_table (boot web_world))
       = concat (map (\<lambda>(cs, r). map (\<lambda>m. (tag m, r @ mount_path m, read_only m)) (mounts cs)) (ics @ ms))"
    using boot_complete [OF p] by blast
  have sp: "sp = web_spec" using b(1) by (simp add: web_world_def)
  have c: "init_containers web_spec = []" "containers web_spec = [(task ''web'')\<lparr>root_dev := ''/dev/vda'', mounts := [data_mount]\<rparr>]"
    by (simp_all add: web_spec_def)
  have ms: "ics = []" "\<exists>r. ms = [((task ''web'')\<lparr>root_dev := ''/dev/vda'', mounts := [data_mount]\<rparr>, r)]"
    using b(2,3) unfolding sp c by auto
  then obtain r where r: "ms = [((task ''web'')\<lparr>root_dev := ''/dev/vda'', mounts := [data_mount]\<rparr>, r)]" by blast
  have "r = ''/roots/web'' \<and> has_root (bo_roots (boot web_world)) ''web'' ''/dev/vda''"
    using b(5) unfolding ms(1) r by (simp add: task_def)
  then show ?thesis using p b(4,6) unfolding ms(1) r by (simp add: new_pod_def new_container_def data_mount_def)
qed

end
