(* ===== verification/Boot_Dir.thy ===== *)
theory Boot_Dir imports Volumes Agent_Plan Guest_Boot begin

text \<open>
  The boot file system of a VM (\<^verbatim>\<open>makeRootfs\<close> of \<^verbatim>\<open>poc/agent/main.go\<close> in block mode): whatever an earlier run
  left is removed, then execd, the mount points and the description of the pod are put in place; with it, what the agent
  planned is what the guest boots from.  \<^verbatim>\<open>chmod -R\<close>, the JSON coding and execd's binary are parameters.
\<close>

definition clear_rootfs :: "(hfs \<Rightarrow> hfs) \<Rightarrow> string \<Rightarrow> hfs \<Rightarrow> hfs hcall" where
  "clear_rootfs loosen rootfs fs =
     (if isl (h_stat fs rootfs) then Inr fs
      else case h_remove_all rootfs fs of
             Inr fs1 \<Rightarrow> Inr fs1
           | Inl _ \<Rightarrow> h_remove_all rootfs (loosen fs))"

definition boot_dirs :: "string \<Rightarrow> hfs \<Rightarrow> hfs hcall" where
  "boot_dirs rootfs fs =
     foldr_err (\<lambda>fs d. let p = path_join [rootfs, d] in h_mkdir_all (length p) p 0x1ED fs) fs [[], ''dev'', ''proc'', ''sys'']"

datatype rootfs_error = RootfsIo errno | SpecError string

definition rootfs_io :: "'a hcall \<Rightarrow> rootfs_error + 'a" where
  "rootfs_io r = (case r of Inl e \<Rightarrow> Inl (RootfsIo e) | Inr x \<Rightarrow> Inr x)"

lemma rootfs_io_Inr [simp]: "rootfs_io r = Inr x \<longleftrightarrow> r = Inr x"
  by (auto simp: rootfs_io_def split: sum.split)

definition make_rootfs :: "(hfs \<Rightarrow> hfs) \<Rightarrow> bytes \<Rightarrow> (pod_spec \<Rightarrow> bytes) \<Rightarrow> string \<Rightarrow> string + (pod_spec \<times> string list) \<Rightarrow> hfs
    \<Rightarrow> rootfs_error + (hfs \<times> string list)" where
  "make_rootfs loosen execd enc dir plan fs =
     (let rootfs = path_join [dir, ''rootfs'']
      in and_then (rootfs_io (clear_rootfs loosen rootfs fs)) (\<lambda>fs1.
           and_then (rootfs_io (boot_dirs rootfs fs1)) (\<lambda>fs2.
             and_then (rootfs_io (h_write (path_join [rootfs, ''execd'']) execd 0x1ED fs2)) (\<lambda>fs3.
               case plan of
                 Inl e \<Rightarrow> Inl (SpecError e)
               | Inr (sp, images) \<Rightarrow>
                   and_then (rootfs_io (h_write (path_join [rootfs, ''.podvm-spec.json'']) (enc sp) 0x1A4 fs3)) (\<lambda>fs4.
                     Inr (fs4, images))))))"

subsection \<open>Nothing of an earlier run is left\<close>

definition only_below :: "string list \<Rightarrow> string set \<Rightarrow> hfs \<Rightarrow> bool" where
  "only_below D S fs \<longleftrightarrow> hf_ok fs \<and> no_link_on fs [] D
     \<and> (\<forall>q. strict_prefix D q \<longrightarrow> h_at fs q \<noteq> None \<longrightarrow> (\<exists>x \<in> S. q = D @ [x]) \<and> \<not> is_link (h_at fs q))"

lemma only_below_no_link: "only_below D S fs \<Longrightarrow> no_link_on fs [] (D @ [x])"
  unfolding no_link_on_iff
proof clarify
  fix q t
  assume o: "only_below D S fs" and q: "q \<noteq> []" "prefix q (D @ [x])" "h_at fs ([] @ q) = Some (HLink t)"
  from q(2) consider "prefix q D" | "q = D @ [x]" by (auto simp: prefix_snoc)
  then show False
  proof cases
    case 1
    then show ?thesis using o q(1,3) by (auto simp: only_below_def no_link_on_iff)
  next
    case 2
    then have "strict_prefix D q" by (auto simp: strict_prefix_def)
    then show ?thesis using o q(3) by (auto simp: only_below_def)
  qed
qed

lemma only_below_create:
  assumes o: "only_below D S fs" and c: "h_create r n fs = Inr fs'" and r: "r \<noteq> []" "prefix r (D @ [x])" and "\<not> is_link (Some n)" and "x \<in> S"
  shows "only_below D S fs'"
proof -
  have ok: "hf_ok fs" using o by (simp add: only_below_def)
  note eff = h_create_at [OF c ok r(1)]
  have "no_link_on fs' [] D" using o assms(5) eff(2) by (auto simp: only_below_def no_link_on_iff)
  moreover have "(\<exists>x \<in> S. q = D @ [x]) \<and> \<not> is_link (h_at fs' q)" if "strict_prefix D q" "h_at fs' q \<noteq> None" for q
  proof (cases "q = r")
    case True
    then have "q = D @ [x]" using r(2) that(1) by (auto simp: prefix_snoc strict_prefix_def)
    then show ?thesis using True eff(2) assms(5,6) by auto
  qed (use that o eff(2) in \<open>auto simp: only_below_def\<close>)
  ultimately show ?thesis using eff(1) by (simp add: only_below_def)
qed

lemma only_below_mkdir:
  assumes plain: "\<forall>c \<in> set (D @ [x]). plain_comp c" and o: "only_below D S fs" and m: "h_mkdir_all k (abs_path (D @ [x])) m fs = Inr fs'" and "x \<in> S"
  shows "only_below D S fs'"
proof -
  have ok: "hf_ok fs" using o by (simp add: only_below_def)
  have "only_below D S fs' \<and> hf_ok fs' \<and> no_link_on fs' [] (D @ [x]) \<and> is_hdir (h_at fs' (D @ [x]))"
  proof (rule h_mkdir_all_induct [where Q = "only_below D S", OF m plain only_below_no_link [OF o] ok o])
    fix f f' r
    assume f: "only_below D S f" "prefix r (D @ [x])" "r \<noteq> []" "h_create r (HDir (masked f m)) f = Inr f'"
    show "only_below D S f'" by (rule only_below_create [OF f(1,4,3,2) _ assms(4)]) simp
  qed
  then show ?thesis by simp
qed

lemma only_below_mkdir_root:
  assumes plain: "\<forall>c \<in> set D. plain_comp c" and o: "only_below D S fs" and m: "h_mkdir_all k (abs_path D) m fs = Inr fs'"
  shows "only_below D S fs'"
proof -
  have ok: "hf_ok fs" and l: "no_link_on fs [] D" using o by (simp_all add: only_below_def)
  have "only_below D S fs' \<and> hf_ok fs' \<and> no_link_on fs' [] D \<and> is_hdir (h_at fs' D)"
  proof (rule h_mkdir_all_induct [where Q = "only_below D S", OF m plain l ok o])
    fix f f' r
    assume f: "only_below D S f" "prefix r D" "r \<noteq> []" "h_create r (HDir (masked f m)) f = Inr f'"
    have okf: "hf_ok f" using f(1) by (simp add: only_below_def)
    note eff = h_create_at [OF f(4) okf f(3)]
    have "\<not> strict_prefix D r" using f(2) by (auto simp: strict_prefix_def)
    then show "only_below D S f'" using f(1) eff by (auto simp: only_below_def no_link_on_iff)
  qed
  then show ?thesis by simp
qed

lemma only_below_write:
  assumes plain: "\<forall>c \<in> set (D @ [x]). plain_comp c" and o: "only_below D S fs" and w: "h_write (abs_path (D @ [x])) b m fs = Inr fs'" and "x \<notin> S"
  shows "only_below D (insert x S) fs' \<and> (\<exists>m0. h_at fs' (D @ [x]) = Some (HFile m0 b)) \<and> (\<forall>q. q \<noteq> D @ [x] \<longrightarrow> h_at fs' q = h_at fs q)"
proof -
  obtain r where r: "h_resolve True fs (abs_path (D @ [x])) = Inr r" using w by (auto simp: h_write_def)
  then have rr: "r = D @ [x]" using h_resolve_plain [OF plain only_below_no_link [OF o]] by blast
  have "strict_prefix D (D @ [x])" by (auto simp: strict_prefix_def)
  then have none: "h_at fs r = None" using o assms(4) unfolding rr only_below_def by fastforce
  then have c: "h_create r (HFile (masked fs m) b) fs = Inr fs'" using w r by (simp add: h_write_def)
  have o': "only_below D (insert x S) fs" using o by (auto simp: only_below_def)
  have ok: "hf_ok fs" using o by (simp add: only_below_def)
  show ?thesis using only_below_create [OF o' c, of x] h_create_at(2) [OF c ok] rr by auto
qed

lemma clear_rootfs_empty:
  assumes plain: "\<forall>c \<in> set D. plain_comp c" and ne: "D \<noteq> []"
    and start: "hf_tree fs" "hf_ok fs" "no_link_on fs [] D"
    and loose: "hf_tree (loosen fs)" "hf_ok (loosen fs)" "no_link_on (loosen fs) [] D"
    and c: "clear_rootfs loosen (abs_path D) fs = Inr fs1"
  shows "only_below D {} fs1"
proof -
  have gone: "only_below D {} f1" if f: "hf_tree f" "hf_ok f" "no_link_on f [] D" and r: "h_remove_all (abs_path D) f = Inr f1" for f f1
  proof -
    note rm = h_remove_all_at [OF plain f(3,1,2) r]
    have at: "q \<noteq> [] \<Longrightarrow> h_at f1 q = (if prefix D q then None else h_at f q)" for q using rm by simp
    then have "no_link_on f1 [] D" using f(3) by (auto simp: no_link_on_iff)
    moreover have "h_at f1 q = None" if "strict_prefix D q" for q using at [of q] that by (cases q) (auto simp: strict_prefix_def)
    ultimately show ?thesis using rm by (auto simp: only_below_def)
  qed
  show ?thesis
  proof (cases "isl (h_stat fs (abs_path D))")
    case True
    have "h_at fs q = None" if q: "strict_prefix D q" for q
    proof (rule ccontr)
      assume "h_at fs q \<noteq> None"
      moreover have "q \<noteq> []" using q by auto
      ultimately obtain i where i: "(q, i) \<in> set (hf_names fs)" by (auto simp: h_at_def dest: map_of_SomeD)
      have dirs: "is_hdir (h_at fs r)" if "prefix r D" for r
        using hf_treeD [OF start(1) i, of r] that q by (metis prefix_order.le_less_trans)
      then have "h_walk max_links True fs [] D = Inr D"
        using h_walk_dirs [OF plain _ start(3)] by (simp add: strict_prefix_def)
      then show False using True dirs [of D] by (auto simp: h_stat_def h_resolve_abs [OF plain] is_hdir_iff)
    qed
    moreover have "fs1 = fs" using c True by (simp add: clear_rootfs_def)
    ultimately show ?thesis using start by (auto simp: only_below_def)
  next
    case False
    then show ?thesis using c gone [OF start] gone [OF loose]
      by (auto simp: clear_rootfs_def split: sum.splits)
  qed
qed

lemma rootfs_path:
  assumes "\<forall>c \<in> set D. plain_comp c" and "plain_comp x"
  shows "path_join [abs_path D, x] = abs_path (D @ [x])"
  using path_join_abs [of D x] assms by (auto simp: plain_comp_def good_comp_def)

text \<open>A directory that was made stays one when others are made.\<close>

lemma mkdir_keeps_dir:
  assumes "h_mkdir_all k (abs_path C) m fs = Inr fs'" and "\<forall>c \<in> set C. plain_comp c" and "no_link_on fs [] C" and "hf_ok fs"
    and "is_hdir (h_at fs q)"
  shows "is_hdir (h_at fs' q)"
proof -
  have "is_hdir (h_at fs' q) \<and> hf_ok fs' \<and> no_link_on fs' [] C \<and> is_hdir (h_at fs' C)"
  proof (rule h_mkdir_all_induct [where Q = "\<lambda>f. is_hdir (h_at f q)", OF assms(1-4,5)])
    fix f f' r
    assume f: "is_hdir (h_at f q)" "hf_ok f" "r \<noteq> []" "h_create r (HDir (masked f m)) f = Inr f'"
    show "is_hdir (h_at f' q)"
      using f(1) h_create_at(2) [OF f(4,2,3)] by (cases "q = r") (auto simp: is_hdir_iff)
  qed
  then show ?thesis by simp
qed

definition boot_mounts :: "string list" where
  "boot_mounts = [''dev'', ''proc'', ''sys'']"

lemma boot_dirs_made:
  assumes plain: "\<forall>c \<in> set D. plain_comp c" and xs: "\<forall>x \<in> set xs. plain_comp x" "set xs \<subseteq> S" and o: "only_below D S fs"
    and b: "foldr_err (\<lambda>fs d. let p = path_join [abs_path D, d] in h_mkdir_all (length p) p 0x1ED fs) fs xs = Inr fs'"
    and old: "\<forall>x \<in> T. is_hdir (h_at fs (D @ [x]))"
  shows "only_below D S fs' \<and> (\<forall>x \<in> set xs \<union> T. is_hdir (h_at fs' (D @ [x])))"
  using xs o b old
proof (induction xs arbitrary: fs T)
  case (Cons x xs)
  obtain f1 where m: "h_mkdir_all (length (abs_path (D @ [x]))) (abs_path (D @ [x])) 0x1ED fs = Inr f1"
    and rest: "foldr_err (\<lambda>fs d. let p = path_join [abs_path D, d] in h_mkdir_all (length p) p 0x1ED fs) f1 xs = Inr fs'"
    using Cons.prems(4) rootfs_path [OF plain, of x] Cons.prems(1) by (auto simp: Let_def)
  have pl: "\<forall>c \<in> set (D @ [x]). plain_comp c" using plain Cons.prems(1) by simp
  have ok: "hf_ok fs" "no_link_on fs [] (D @ [x])" using Cons.prems(3) only_below_no_link by (auto simp: only_below_def)
  have o1: "only_below D S f1" using only_below_mkdir [OF pl Cons.prems(3) m] Cons.prems(2) by simp
  have "is_hdir (h_at f1 (D @ [x]))"
    using h_mkdir_all_induct [where Q = "\<lambda>_. True", OF m pl ok(2,1)] by blast
  moreover have "is_hdir (h_at f1 (D @ [y]))" if "y \<in> T" for y
    using mkdir_keeps_dir [OF m pl ok(2,1)] Cons.prems(5) that by blast
  ultimately show ?case using Cons.IH [OF _ _ o1 rest, of "insert x T"] Cons.prems(1,2) by auto
qed simp

lemma boot_dirs_only:
  assumes plain: "\<forall>c \<in> set D. plain_comp c" and o: "only_below D {} fs" and b: "boot_dirs (abs_path D) fs = Inr fs'"
  shows "only_below D {''dev'', ''proc'', ''sys''} fs' \<and> (\<forall>x \<in> {''dev'', ''proc'', ''sys''}. is_hdir (h_at fs' (D @ [x])))"
proof -
  let ?S = "{''dev'', ''proc'', ''sys''} :: string set"
  have p: "\<forall>x \<in> set boot_mounts. plain_comp x" by code_simp
  have j: "path_join [abs_path D, []] = abs_path D" using path_join_abs [of D "[]"] plain by simp
  have start: "only_below D ?S fs" using o by (auto simp: only_below_def)
  obtain f1 where m: "h_mkdir_all (length (abs_path D)) (abs_path D) 0x1ED fs = Inr f1"
    and rest: "foldr_err (\<lambda>fs d. let p = path_join [abs_path D, d] in h_mkdir_all (length p) p 0x1ED fs) f1 boot_mounts = Inr fs'"
    using b j by (auto simp: boot_dirs_def boot_mounts_def Let_def)
  have "set boot_mounts = ?S" by (simp add: boot_mounts_def)
  then show ?thesis
    using boot_dirs_made [OF plain p _ only_below_mkdir_root [OF plain start m] rest, of "{}"] by simp
qed

lemma make_rootfs_result:
  assumes plain: "\<forall>c \<in> set ds. plain_comp c"
    and start: "hf_tree fs" "hf_ok fs" "no_link_on fs [] (ds @ [''rootfs''])"
    and loose: "hf_tree (loosen fs)" "hf_ok (loosen fs)" "no_link_on (loosen fs) [] (ds @ [''rootfs''])"
    and run: "make_rootfs loosen execd enc (abs_path ds) (Inr (sp, images)) fs = Inr (fs', imgs)"
  shows "(\<exists>m. h_at fs' (ds @ [''rootfs'', ''execd'']) = Some (HFile m execd))
    \<and> (\<exists>m. h_at fs' (ds @ [''rootfs'', ''.podvm-spec.json'']) = Some (HFile m (enc sp)))
    \<and> imgs = images
    \<and> (\<forall>d \<in> {''dev'', ''proc'', ''sys''}. \<exists>m. h_at fs' (ds @ [''rootfs'', d]) = Some (HDir m))
    \<and> {q. strict_prefix (ds @ [''rootfs'']) q \<and> h_at fs' q \<noteq> None}
      = (\<lambda>x. ds @ [''rootfs'', x]) ` {''dev'', ''proc'', ''sys'', ''execd'', ''.podvm-spec.json''}"
proof -
  let ?D = "ds @ [''rootfs'']" let ?S = "{''dev'', ''proc'', ''sys''} :: string set"
  have p: "plain_comp ''rootfs''" "plain_comp ''execd''" "plain_comp ''.podvm-spec.json''" by code_simp+
  have D: "\<forall>c \<in> set ?D. plain_comp c" using plain p by simp
  have dir: "path_join [abs_path ds, ''rootfs''] = abs_path ?D" by (rule rootfs_path [OF plain p(1)])
  obtain f1 f2 f3 where c: "clear_rootfs loosen (abs_path ?D) fs = Inr f1" and b: "boot_dirs (abs_path ?D) f1 = Inr f2"
    and e: "h_write (abs_path (?D @ [''execd''])) execd 0x1ED f2 = Inr f3"
    and s: "h_write (abs_path (?D @ [''.podvm-spec.json''])) (enc sp) 0x1A4 f3 = Inr fs'" and a: "imgs = images"
    using run dir rootfs_path [OF D p(2)] rootfs_path [OF D p(3)] by (auto simp: make_rootfs_def Let_def)
  note o2 = boot_dirs_only [OF D clear_rootfs_empty [OF D _ start loose c] b, simplified]
  have o3: "only_below ?D (insert ''execd'' ?S) f3 \<and> (\<exists>m0. h_at f3 (?D @ [''execd'']) = Some (HFile m0 execd))
      \<and> (\<forall>q. q \<noteq> ?D @ [''execd''] \<longrightarrow> h_at f3 q = h_at f2 q)"
    using only_below_write [OF _ conjunct1 [OF o2] e] D p by auto
  have o4: "only_below ?D (insert ''.podvm-spec.json'' (insert ''execd'' ?S)) fs'
      \<and> (\<exists>m0. h_at fs' (?D @ [''.podvm-spec.json'']) = Some (HFile m0 (enc sp)))
      \<and> (\<forall>q. q \<noteq> ?D @ [''.podvm-spec.json''] \<longrightarrow> h_at fs' q = h_at f3 q)"
    using only_below_write [OF _ conjunct1 [OF o3] s] D p by auto
  have dirs: "\<exists>m. h_at fs' (?D @ [d]) = Some (HDir m)" if "d \<in> ?S" for d
  proof -
    have "h_at fs' (?D @ [d]) = h_at f2 (?D @ [d])" using o3 o4 that by auto
    then show ?thesis using o2 that by (auto simp: is_hdir_iff)
  qed
  have files: "\<exists>m. h_at fs' (?D @ [''execd'']) = Some (HFile m execd)" "\<exists>m. h_at fs' (?D @ [''.podvm-spec.json'']) = Some (HFile m (enc sp))"
    using o3 o4 by auto
  have "{q. strict_prefix ?D q \<and> h_at fs' q \<noteq> None} = (\<lambda>x. ?D @ [x]) ` insert ''.podvm-spec.json'' (insert ''execd'' ?S)"
  proof (intro equalityI subsetI)
    fix q assume "q \<in> {q. strict_prefix ?D q \<and> h_at fs' q \<noteq> None}"
    then show "q \<in> (\<lambda>x. ?D @ [x]) ` insert ''.podvm-spec.json'' (insert ''execd'' ?S)"
      using o4 unfolding only_below_def by blast
  next
    fix q assume "q \<in> (\<lambda>x. ?D @ [x]) ` insert ''.podvm-spec.json'' (insert ''execd'' ?S)"
    then obtain x where q: "q = ?D @ [x]" "x \<in> insert ''.podvm-spec.json'' (insert ''execd'' ?S)" by blast
    have "h_at fs' (?D @ [x]) \<noteq> None"
    proof (cases "x \<in> ?S")
      case True
      then obtain m where "h_at fs' (?D @ [x]) = Some (HDir m)" using dirs by blast
      then show ?thesis by simp
    next
      case False
      then have "x = ''execd'' \<or> x = ''.podvm-spec.json''" using q(2) by blast
      then show ?thesis using files by force
    qed
    then have "h_at fs' q \<noteq> None" unfolding q(1) .
    moreover have "strict_prefix ?D q" using q(1) by (auto simp: strict_prefix_def)
    ultimately show "q \<in> {q. strict_prefix ?D q \<and> h_at fs' q \<noteq> None}" by simp
  qed
  then show ?thesis using files dirs a by (simp add: insert_commute image_insert)
qed

text \<open>C25: after makeRootfs in block mode the boot directory holds execd, the description of this run and the empty
  directories \<^verbatim>\<open>dev\<close>, \<^verbatim>\<open>proc\<close> and \<^verbatim>\<open>sys\<close>, exactly these: no file of an earlier run of the pod survives in it.\<close>

theorem rootfs_is_fresh:
  assumes plain: "\<forall>c \<in> set ds. plain_comp c"
    and start: "hf_tree fs" "hf_ok fs" "no_link_on fs [] (ds @ [''rootfs''])"
    and loose: "hf_tree (loosen fs)" "hf_ok (loosen fs)" "no_link_on (loosen fs) [] (ds @ [''rootfs''])"
    and run: "make_rootfs loosen execd enc (abs_path ds) (Inr (sp, images)) fs = Inr (fs', imgs)"
  shows "(\<exists>m. h_at fs' (ds @ [''rootfs'', ''execd'']) = Some (HFile m execd))
    \<and> (\<exists>m. h_at fs' (ds @ [''rootfs'', ''.podvm-spec.json'']) = Some (HFile m (enc sp)))
    \<and> imgs = images
    \<and> (\<forall>d \<in> {''dev'', ''proc'', ''sys''}. \<exists>m. h_at fs' (ds @ [''rootfs'', d]) = Some (HDir m))
    \<and> {q. strict_prefix (ds @ [''rootfs'']) q \<and> h_at fs' q \<noteq> None}
      = (\<lambda>x. ds @ [''rootfs'', x]) ` {''dev'', ''proc'', ''sys'', ''execd'', ''.podvm-spec.json''}"
  by (rule make_rootfs_result [OF assms])

lemma container_spec_of_fields:
  assumes "container_spec_of block bases cfg mounts_by c devs = Inr (s, devs')"
  shows "cs_name s = kc_name c" and "mounts s = (case mounts_by (kc_name c) of None \<Rightarrow> [] | Some ms \<Rightarrow> ms)"
  using assms by (auto simp: container_spec_of_def Let_def split: if_splits option.splits prod.splits)

lemma container_specs_fields:
  "container_specs (container_spec_of block bases cfg mounts_by) cs devs = Inr (ss, devs')
   \<Longrightarrow> map cs_name ss = map kc_name cs
     \<and> map mounts ss = map (\<lambda>c. case mounts_by (kc_name c) of None \<Rightarrow> [] | Some ms \<Rightarrow> ms) cs"
proof (induction cs arbitrary: devs ss)
  case (Cons c cs)
  then obtain s devs1 ss' where s: "container_spec_of block bases cfg mounts_by c devs = Inr (s, devs1)"
    and ss: "container_specs (container_spec_of block bases cfg mounts_by) cs devs1 = Inr (ss', devs')" "ss = s # ss'"
    by auto
  show ?case using Cons.IH [OF ss(1)] ss(2) container_spec_of_fields [OF s] by simp
qed simp

lemma map_new_container: "map (\<lambda>c. f (spec c)) (map (\<lambda>(cs, rt). new_container cs rt) xs) = map f (map fst xs)"
  by (induction xs) (auto simp: new_container_def)

text \<open>C5: what the agent plans is what the guest runs: execd reads back the description makeRootfs wrote, and the pod it
  supervises has the planned restart policy and, in order, the containers of the API object, each with the mounts
  the volume plan gives it.\<close>

theorem plan_reaches_guest:
  assumes plain: "\<forall>c \<in> set ds. plain_comp c"
    and start: "hf_tree fs" "hf_ok fs" "no_link_on fs [] (ds @ [''rootfs''])"
    and loose: "hf_tree (loosen fs)" "hf_ok (loosen fs)" "no_link_on (loosen fs) [] (ds @ [''rootfs''])"
    and plan: "make_spec ac ip6 cfg pod bases mounts_by = Inr (sp, images)"
    and run: "make_rootfs loosen execd enc (abs_path ds) (make_spec ac ip6 cfg pod bases mounts_by) fs = Inr (fs', imgs)"
    and json: "dec (enc sp) = Inr sp"
    and reads: "bw_spec w = (case h_at fs' (ds @ [''rootfs'', ''.podvm-spec.json'']) of
        Some (HFile m b) \<Rightarrow> dec b | _ \<Rightarrow> Inl ''reading spec'')"
    and runs: "bo_end (boot w) = Runs p"
  shows "policy p = policy_of pod
    \<and> map (\<lambda>c. cs_name (spec c)) (inits p) = map kc_name (kp_inits pod)
    \<and> map (\<lambda>c. cs_name (spec c)) (mains p) = map kc_name (kp_mains pod)
    \<and> map (\<lambda>c. mounts (spec c)) (inits p @ mains p)
      = map (\<lambda>c. case mounts_by (kc_name c) of None \<Rightarrow> [] | Some ms \<Rightarrow> ms) (kp_inits pod @ kp_mains pod)"
proof -
  have "bw_spec w = Inr sp"
    using make_rootfs_result [OF plain start loose run [unfolded plan], THEN conjunct2, THEN conjunct1] json reads by fastforce
  then obtain xs ys where b: "map fst xs = init_containers sp" "map fst ys = containers sp"
    "p = new_pod (if restart_policy sp = [] then ''Always'' else restart_policy sp) xs ys"
    using boot_runs_complete [OF runs] by auto
  obtain devs1 devs2 where specs:
    "container_specs (container_spec_of (ac_block ac) (map_of bases) cfg mounts_by) (kp_inits pod) [] = Inr (init_containers sp, devs1)"
    "container_specs (container_spec_of (ac_block ac) (map_of bases) cfg mounts_by) (kp_mains pod) devs1 = Inr (containers sp, devs2)"
    and pol: "restart_policy sp = policy_of pod"
    using plan by (auto simp: make_spec_def Let_def)
  have "policy_of pod \<noteq> []" by (simp add: policy_of_def)
  then have "policy p = policy_of pod" using b(3) pol by (simp add: new_pod_def)
  moreover have "inits p = map (\<lambda>(cs, rt). new_container cs rt) xs" "mains p = map (\<lambda>(cs, rt). new_container cs rt) ys"
    using b(3) by (simp_all add: new_pod_def)
  ultimately show ?thesis
    using b(1,2) container_specs_fields [OF specs(1)] container_specs_fields [OF specs(2)]
    by (simp only: map_append map_new_container)
qed


subsection \<open>The hypotheses hold\<close>

text \<open>The host of a pod that ran before: its boot directory still holds a file of that run.\<close>

definition old_host :: hfs where
  "old_host = \<lparr>hf_names = [([''p''], 0), ([''p'', ''rootfs''], 1), ([''p'', ''rootfs'', ''old''], 2)],
     hf_objs = (\<lambda>i. if i = 2 then HFile 0x1A4 [] else HDir 0x1ED), hf_next = 3, hf_denied = (\<lambda>_. False), hf_umask = 18\<rparr>"

definition one_spec :: pod_spec where
  "one_spec = \<lparr>restart_policy = ''Always'', init_containers = [],
     containers = [\<lparr>cs_name = ''web'', argv = [''/bin/true''], cs_env = [], cwd = [], tty = False, root_dev = ''/dev/vda'', mounts = []\<rparr>],
     net = None, net6 = None, svc = None\<rparr>"

definition one_cfg :: agent_cfg where
  "one_cfg = \<lparr>ac_block = True, ac_gvproxy = False, ac_vmnet = False, ac_svc_cidr = []\<rparr>"

lemma one_plan: "make_spec one_cfg [] (\<lambda>_. None) (a_pod [] [a_container ''web'']) [(''img'', ''/img'')] Map.empty = Inr (one_spec, [''/img''])"
proof -
  have "device_name 0 = ''/dev/vda''" by code_simp
  then show ?thesis
    by (simp add: make_spec_def one_cfg_def a_pod_def a_container_def container_spec_of_def container_argv_def one_spec_def
        image_env_def env_of_def image_working_dir_def policy_of_def)
qed

lemma old_host_facts: "hf_tree old_host" "hf_ok old_host" "no_link_on old_host [] ([''p''] @ [''rootfs''])" "\<forall>c \<in> set [''p'']. plain_comp c"
proof -
  show "hf_tree old_host" by code_simp
  show "no_link_on old_host [] ([''p''] @ [''rootfs''])" unfolding no_link_on_def by code_simp
  show "hf_ok old_host" by (simp add: hf_ok_def old_host_def)
  show "\<forall>c \<in> set [''p'']. plain_comp c" by code_simp
qed

lemma old_host_made: "\<exists>fs'. make_rootfs id [1] (\<lambda>_. [7]) (abs_path [''p'']) (Inr (one_spec, [''/img''])) old_host = Inr (fs', [''/img''])"
proof -
  have "isl (make_rootfs id [1] (\<lambda>_. [7]) (abs_path [''p'']) (Inr (one_spec, [''/img''])) old_host) = False" by code_simp
  then obtain fs' imgs where r: "make_rootfs id [1] (\<lambda>_. [7]) (abs_path [''p'']) (Inr (one_spec, [''/img''])) old_host = Inr (fs', imgs)"
    by (metis prod.collapse sum.collapse(2))
  then have "imgs = [''/img'']" by (auto simp: make_rootfs_def Let_def)
  then show ?thesis using r by blast
qed

lemma rootfs_is_fresh_witness:
  "\<exists>fs'. make_rootfs id [1] (\<lambda>_. [7]) (abs_path [''p'']) (Inr (one_spec, [''/img''])) old_host = Inr (fs', [''/img''])
    \<and> h_at fs' [''p'', ''rootfs'', ''old''] = None \<and> (\<exists>m. h_at fs' [''p'', ''rootfs'', ''proc''] = Some (HDir m))"
proof -
  obtain fs' where r: "make_rootfs id [1] (\<lambda>_. [7]) (abs_path [''p'']) (Inr (one_spec, [''/img''])) old_host = Inr (fs', [''/img''])"
    using old_host_made by blast
  note f = rootfs_is_fresh [OF old_host_facts(4,1-3) _ _ _ r]
  have "{q. strict_prefix ([''p''] @ [''rootfs'']) q \<and> h_at fs' q \<noteq> None}
      = (\<lambda>x. [''p''] @ [''rootfs'', x]) ` {''dev'', ''proc'', ''sys'', ''execd'', ''.podvm-spec.json''}"
    using f old_host_facts by simp
  moreover have "strict_prefix ([''p''] @ [''rootfs'']) [''p'', ''rootfs'', ''old'']" by code_simp
  moreover have "[''p'', ''rootfs'', ''old''] \<notin> (\<lambda>x. [''p''] @ [''rootfs'', x]) ` {''dev'', ''proc'', ''sys'', ''execd'', ''.podvm-spec.json''}"
    by simp
  ultimately have "h_at fs' [''p'', ''rootfs'', ''old''] = None" by blast
  moreover have "\<exists>m. h_at fs' [''p'', ''rootfs'', ''proc''] = Some (HDir m)" using f old_host_facts by simp
  ultimately show ?thesis using r by blast
qed

lemma one_boot:
  assumes "bw_spec w = Inr one_spec" and "bw_kernel w = (\<lambda>_ _. True)"
  shows "\<exists>p. bo_end (boot w) = Runs p"
proof -
  have "call (\<lambda>_ _. True) c st = (True, st\<lparr>calls := calls st @ [(c, True)]\<rparr>)" for c st by (simp add: call_def)
  then have "fst (build_roots (\<lambda>_ _. True) (containers one_spec) no_roots) = Inr [(hd (containers one_spec), ''/roots/web'')]"
    by (simp add: one_spec_def build_container_root_def ensure_dev_mounted_def root_calls_def no_roots_def root_dir_def Let_def split_beta)
  then obtain st where st: "build_roots (\<lambda>_ _. True) (containers one_spec) no_roots = (Inr [(hd (containers one_spec), ''/roots/web'')], st)"
    by (metis prod.collapse)
  have s: "init_containers one_spec = []" "containers one_spec \<noteq> []" "mounts (hd (containers one_spec)) = []"
    "start_services w one_spec st fs = ([], fs)" for fs
    by (simp_all add: one_spec_def start_services_def)
  then show ?thesis using st assms by (simp add: boot_def Let_def)
qed

lemma plan_reaches_guest_witness:
  "\<exists>p :: pod. policy p = ''Always'' \<and> map (\<lambda>c. cs_name (spec c)) (mains p) = [''web'']"
proof -
  obtain fs' where r: "make_rootfs id [1] (\<lambda>_. [7]) (abs_path [''p'']) (Inr (one_spec, [''/img''])) old_host = Inr (fs', [''/img''])"
    using old_host_made by blast
  let ?dec = "\<lambda>b :: bytes. Inr one_spec :: string + pod_spec"
  let ?w = "web_world\<lparr>bw_spec := (case h_at fs' ([''p''] @ [''rootfs'', ''.podvm-spec.json'']) of
        Some (HFile m b) \<Rightarrow> ?dec b | _ \<Rightarrow> Inl ''reading spec'')\<rparr>"
  have "\<exists>m. h_at fs' ([''p''] @ [''rootfs'', ''.podvm-spec.json'']) = Some (HFile m [7])"
    using make_rootfs_result [OF old_host_facts(4,1-3) _ _ _ r] old_host_facts by simp
  then have "bw_spec ?w = Inr one_spec" by auto
  then obtain p where p: "bo_end (boot ?w) = Runs p" using one_boot [of ?w] by (auto simp: web_world_def)
  have "policy p = policy_of (a_pod [] [a_container ''web''])
      \<and> map (\<lambda>c. cs_name (spec c)) (mains p) = map kc_name (kp_mains (a_pod [] [a_container ''web'']))"
    using plan_reaches_guest [OF old_host_facts(4,1-3) _ _ _ one_plan r [folded one_plan] _ _ p, of "\<lambda>_. Inr one_spec"] old_host_facts
    by simp
  then show ?thesis by (intro exI [of _ p]) (simp add: a_pod_def a_container_def policy_of_def)
qed

end
