(* ===== verification/Agent_Node.thy ===== *)
theory Agent_Node imports Go_Strings begin

text \<open>
  The node object and its lease (\<^verbatim>\<open>poc/agent/main.go\<close>: \<^verbatim>\<open>registerNode\<close>, \<^verbatim>\<open>nodeStatus\<close>, \<^verbatim>\<open>heartbeatLoop\<close>,
  \<^verbatim>\<open>renewNodeLease\<close> and the loops of \<^verbatim>\<open>main\<close> around them).  The API server is a store of nodes and leases in which
  each call of the agent may fail; others change it between calls, and the agent is a machine over these events.
\<close>

subsection \<open>Objects\<close>

record node_status =
  ns_capacity :: "(string \<times> string) list"
  ns_allocatable :: "(string \<times> string) list"
  ns_ready :: bool
  ns_heartbeat :: int
  ns_transition :: int
  ns_addresses :: "(string \<times> string) list"
  ns_port :: int
  ns_info :: "(string \<times> string) list"

record node =
  nd_labels_of :: "(string \<times> string) list"
  nd_status :: "node_status option"

record lease =
  ls_holder :: string
  ls_seconds :: int
  ls_renewed :: int

record api =
  ap_nodes :: "string \<rightharpoonup> node"
  ap_leases :: "string \<rightharpoonup> lease"

record node_cfg =
  nc_name :: string
  nc_ip :: string
  nc_port :: int

definition node_labels :: "node_cfg \<Rightarrow> (string \<times> string) list" where
  "node_labels a =
     [(''kubernetes.io/os'', ''linux''), (''kubernetes.io/arch'', ''arm64''), (''kubernetes.io/hostname'', nc_name a),
      (''kube-on-macos.io/runtime'', ''vm''), (''kube-on-macos.io/os-host'', ''darwin'')]"

definition node_status_now :: "node_cfg \<Rightarrow> int \<Rightarrow> node_status" where
  "node_status_now a now =
     \<lparr>ns_capacity = [(''cpu'', ''8''), (''memory'', ''16Gi''), (''pods'', ''250'')],
      ns_allocatable = [(''cpu'', ''8''), (''memory'', ''12Gi''), (''pods'', ''250'')],
      ns_ready = True, ns_heartbeat = now, ns_transition = now,
      ns_addresses = [(''InternalIP'', nc_ip a), (''Hostname'', nc_name a)], ns_port = nc_port a,
      ns_info = [(''OperatingSystem'', ''linux''), (''Architecture'', ''arm64''), (''KubeletVersion'', ''kube-on-macos-poc-v0.1''),
                 (''OSImage'', ''Linux microVM (libkrun/HVF) on macOS host''), (''ContainerRuntimeVersion'', ''podvm://0.1''),
                 (''KernelVersion'', ''6.12.28-kata'')]\<rparr>"

subsection \<open>Calls\<close>

text \<open>\<open>ok\<close>: which calls get through.  A failed write changes nothing.\<close>

datatype api_call = GetNode | CreateNode | UpdateNode | GetLease | CreateLease | UpdateLease

definition update_node :: "(api_call \<Rightarrow> bool) \<Rightarrow> node_cfg \<Rightarrow> int \<Rightarrow> node \<Rightarrow> api \<Rightarrow> bool \<times> api" where
  "update_node ok a now n s =
     (if ok UpdateNode \<and> ap_nodes s (nc_name a) \<noteq> None
      then (True, s\<lparr>ap_nodes := (ap_nodes s)(nc_name a \<mapsto> n\<lparr>nd_status := Some (node_status_now a now)\<rparr>)\<rparr>)
      else (False, s))"

definition register_node :: "(api_call \<Rightarrow> bool) \<Rightarrow> node_cfg \<Rightarrow> int \<Rightarrow> api \<Rightarrow> bool \<times> api" where
  "register_node ok a now s =
     (if \<not> ok GetNode then (False, s)
      else case ap_nodes s (nc_name a) of
             Some n \<Rightarrow> update_node ok a now n s
           | None \<Rightarrow>
               if ok CreateNode
               then (let n = \<lparr>nd_labels_of = node_labels a, nd_status = None\<rparr>
                     in update_node ok a now n (s\<lparr>ap_nodes := (ap_nodes s)(nc_name a \<mapsto> n)\<rparr>))
               else (False, s))"

definition renew_node_lease :: "(api_call \<Rightarrow> bool) \<Rightarrow> node_cfg \<Rightarrow> int \<Rightarrow> api \<Rightarrow> api" where
  "renew_node_lease ok a now s =
     (if \<not> ok GetLease then s
      else case ap_leases s (nc_name a) of
             None \<Rightarrow>
               if ok CreateLease
               then s\<lparr>ap_leases := (ap_leases s)(nc_name a \<mapsto> \<lparr>ls_holder = nc_name a, ls_seconds = 40, ls_renewed = now\<rparr>)\<rparr> else s
           | Some l \<Rightarrow>
               if ok UpdateLease then s\<lparr>ap_leases := (ap_leases s)(nc_name a \<mapsto> l\<lparr>ls_renewed := now\<rparr>)\<rparr> else s)"

text \<open>One tick of \<^verbatim>\<open>heartbeatLoop\<close>.\<close>

definition heartbeat :: "(api_call \<Rightarrow> bool) \<Rightarrow> node_cfg \<Rightarrow> int \<Rightarrow> api \<Rightarrow> api" where
  "heartbeat ok a now s =
     (if \<not> ok GetNode then s
      else case ap_nodes s (nc_name a) of
             None \<Rightarrow> s
           | Some n \<Rightarrow> renew_node_lease ok a now (snd (update_node ok a now n s)))"

subsection \<open>The agent's life with its node\<close>

text \<open>\<^verbatim>\<open>main\<close> waits for the API server, registers until that succeeds, then beats.\<close>

datatype node_pc = AwaitApi | Registering | Beating

record node_run =
  nr_pc :: node_pc
  nr_api :: api

text \<open>A turn of the agent at a time, with the calls that get through (\<open>up\<close>: the server answers its version); somebody
  else deletes or changes the node or the lease.\<close>

datatype node_event = NodeTurn bool "api_call list" int | Others api

definition node_turn :: "node_cfg \<Rightarrow> node_event \<Rightarrow> node_run \<Rightarrow> node_run" where
  "node_turn a ev r =
     (case ev of
        Others s \<Rightarrow> r\<lparr>nr_api := s\<rparr>
      | NodeTurn up calls_ok now \<Rightarrow>
          (let ok = (\<lambda>c. up \<and> c \<in> set calls_ok)
           in case nr_pc r of
                AwaitApi \<Rightarrow> if up then r\<lparr>nr_pc := Registering\<rparr> else r
              | Registering \<Rightarrow>
                  (case register_node ok a now (nr_api r) of
                     (True, s) \<Rightarrow> r\<lparr>nr_pc := Beating, nr_api := s\<rparr>
                   | (False, s) \<Rightarrow> r\<lparr>nr_api := s\<rparr>)
              | Beating \<Rightarrow> r\<lparr>nr_api := heartbeat ok a now (nr_api r)\<rparr>))"

definition node_turns :: "node_cfg \<Rightarrow> node_event list \<Rightarrow> node_run \<Rightarrow> node_run" where
  "node_turns a evs r = fold (node_turn a) evs r"

definition all_calls :: "api_call list" where
  "all_calls = [GetNode, CreateNode, UpdateNode, GetLease, CreateLease, UpdateLease]"

subsection \<open>What the control plane sees\<close>

text \<open>three turns in which every call gets through bring up a node from nothing, Ready and with the time of the last
  turn, under a lease of forty seconds renewed then; a node that exists keeps its labels.\<close>

theorem node_comes_up:
  assumes "nr_pc r = AwaitApi"
    and "node_turns a [NodeTurn True all_calls t1, NodeTurn True all_calls t2, NodeTurn True all_calls t3] r = r'"
  shows "nr_pc r' = Beating
    \<and> ap_nodes (nr_api r') (nc_name a) = Some \<lparr>nd_labels_of = (case ap_nodes (nr_api r) (nc_name a) of None \<Rightarrow> node_labels a | Some n \<Rightarrow> nd_labels_of n),
        nd_status = Some (node_status_now a t3)\<rparr>
    \<and> map_option ls_renewed (ap_leases (nr_api r') (nc_name a)) = Some t3"
  using assms
  by (auto simp: node_turns_def node_turn_def register_node_def update_node_def heartbeat_def renew_node_lease_def all_calls_def
      Let_def split: option.split)

definition bare_node :: node_run where
  "bare_node = \<lparr>nr_pc = AwaitApi, nr_api = \<lparr>ap_nodes = (\<lambda>_. None), ap_leases = (\<lambda>_. None)\<rparr>\<rparr>"

definition mac_cfg :: node_cfg where
  "mac_cfg = \<lparr>nc_name = ''mac'', nc_ip = ''192.168.127.254'', nc_port = 10250\<rparr>"

lemma node_comes_up_witness:
  "\<exists>r' :: node_run. nr_pc r' = Beating
    \<and> ap_nodes (nr_api r') ''mac'' = Some \<lparr>nd_labels_of = node_labels mac_cfg, nd_status = Some (node_status_now mac_cfg 3)\<rparr>"
proof -
  have "nc_name mac_cfg = ''mac''" "nr_pc bare_node = AwaitApi" "ap_nodes (nr_api bare_node) ''mac'' = None"
    by (simp_all add: bare_node_def mac_cfg_def)
  then show ?thesis using node_comes_up [of bare_node mac_cfg 1 2 3, OF _ refl] by fastforce
qed

text \<open>once the node is registered its deletion is final: the agent never creates it again and stops renewing its
  lease, however often it beats.\<close>

theorem deleted_node_stays_gone:
  assumes "nr_pc r = Beating" and "ap_nodes (nr_api r) (nc_name a) = None"
  shows "node_turns a (map (\<lambda>(up, cs, t). NodeTurn up cs t) ts) r = r"
  using assms by (induction ts) (auto simp: node_turns_def node_turn_def heartbeat_def Let_def)

lemma deleted_node_stays_gone_witness:
  "node_turns mac_cfg (map (\<lambda>(up, cs, t). NodeTurn up cs t) [(True, all_calls, 1), (True, all_calls, 11)]) (bare_node\<lparr>nr_pc := Beating\<rparr>)
    = bare_node\<lparr>nr_pc := Beating\<rparr>"
  by (rule deleted_node_stays_gone) (simp_all add: bare_node_def)

text \<open>a beat renews the lease only after it has read the node: while reads of the node fail the lease grows old although
  the agent runs and the lease could be written.\<close>

theorem lease_waits_for_node:
  assumes "nr_pc r = Beating" and "list_all (\<lambda>(up, cs, t). GetNode \<notin> set cs) ts"
  shows "nr_api (node_turns a (map (\<lambda>(up, cs, t). NodeTurn up cs t) ts) r) = nr_api r"
proof -
  have "node_turns a (map (\<lambda>(up, cs, t). NodeTurn up cs t) ts) r = r"
    using assms by (induction ts) (auto simp: node_turns_def node_turn_def heartbeat_def Let_def)
  then show ?thesis by simp
qed

lemma lease_waits_for_node_witness:
  "nr_api (node_turns mac_cfg (map (\<lambda>(up, cs, t). NodeTurn up cs t) [(True, [GetLease, UpdateLease], 1)]) (bare_node\<lparr>nr_pc := Beating\<rparr>))
    = nr_api (bare_node\<lparr>nr_pc := Beating\<rparr>)"
  by (rule lease_waits_for_node) (simp_all add: bare_node_def)

end
