(* ===== verification/Svc_Channel.thy ===== *)
theory Svc_Channel imports Agent_Services begin

text \<open>
  The wire between the guest's load balancer and the agent's resolver: \<^verbatim>\<open>querySvcOverVsock\<close> of
  \<^verbatim>\<open>poc/execd/services.go\<close> over \<^verbatim>\<open>serveSvcConn\<close> of \<^verbatim>\<open>poc/agent/services.go\<close>, both of which read lines with a
  \<^verbatim>\<open>bufio.Scanner\<close>, and the order in which \<^verbatim>\<open>setupServiceLB\<close> brings the load balancer up.  The JSON coding is a
  parameter, as is what becomes of a dial.
\<close>

subsection \<open>Lines\<close>

text \<open>\<^verbatim>\<open>Scan\<close>: the next line and the rest of the stream; a line that does not fit the 64 KiB buffer ends the scan.\<close>

definition max_token :: nat where
  "max_token = 65536"

definition drop_cr :: "string \<Rightarrow> string" where
  "drop_cr s = (if s \<noteq> [] \<and> last s = CHR 0x0D then butlast s else s)"

definition scan_line :: "string \<Rightarrow> (string \<times> string) option" where
  "scan_line s =
     (let line = takeWhile (\<lambda>c. c \<noteq> CHR 0x0A) s
      in if length line < length s \<and> length line < max_token then Some (drop_cr line, drop (length line + 1) s)
         else if max_token \<le> length s \<or> s = [] then None
         else Some (drop_cr s, []))"

lemma scan_line_shorter: "scan_line s = Some (l, rest) \<Longrightarrow> length rest < length s"
  by (auto simp: scan_line_def Let_def max_token_def split: if_splits)

function scan_all :: "string \<Rightarrow> string list" where
  "scan_all s = (case scan_line s of None \<Rightarrow> [] | Some (l, rest) \<Rightarrow> l # scan_all rest)"
  by pat_completeness auto
termination
  by (relation "measure length") (auto dest: scan_line_shorter)

declare scan_all.simps [simp del]

definition line_end :: string where
  "line_end = [CHR 0x0A]"

subsection \<open>Both ends\<close>

definition svc_sock_path :: "string \<Rightarrow> string" where
  "svc_sock_path uid = path_join [''/tmp'', ''podvm-'' @ take 8 uid @ ''.svc'']"

text \<open>What the agent sends on a connection for what it receives; \<^verbatim>\<open>Encode\<close> ends each value with a newline.\<close>

definition svc_answers :: "(string \<Rightarrow> string + svc_query) \<Rightarrow> (svc_answer \<Rightarrow> string) \<Rightarrow> (nat \<Rightarrow> agent_view) \<Rightarrow> string \<Rightarrow> string" where
  "svc_answers decode encode views inb =
     concat (map (\<lambda>a. encode a @ line_end) (serve_svc_conn decode views (scan_all inb)))"

datatype dial_result = DialDone | DialFails string | DialHangs

text \<open>\<^verbatim>\<open>querySvcOverVsock\<close>: the query, its newline, and one newline more; the first line of the answer counts.\<close>

definition query_svc_over_vsock :: "dial_result \<Rightarrow> string option \<Rightarrow> (svc_query \<Rightarrow> string) \<Rightarrow> (string \<Rightarrow> string + svc_answer)
    \<Rightarrow> (string \<Rightarrow> string) \<Rightarrow> svc_query \<Rightarrow> string + svc_answer" where
  "query_svc_over_vsock dial write_error encode decode host q =
     (case dial of
        DialFails e \<Rightarrow> Inl (''dial host svc port: '' @ e)
      | DialHangs \<Rightarrow> Inl ''dial host svc port: timed out after 3s''
      | DialDone \<Rightarrow>
          (case write_error of
             Some e \<Rightarrow> Inl e
           | None \<Rightarrow>
               (case scan_line (host (encode q @ line_end @ line_end)) of
                  None \<Rightarrow> Inl ''no answer from host''
                | Some (l, _) \<Rightarrow> decode l)))"

text \<open>How JSON is written: on one line that ends neither in a newline nor in a carriage return.\<close>

definition one_line :: "string \<Rightarrow> bool" where
  "one_line s \<longleftrightarrow> s \<noteq> [] \<and> CHR 0x0A \<notin> set s \<and> last s \<noteq> CHR 0x0D"

lemma scan_one_line:
  assumes "one_line s"
  shows "scan_line (s @ line_end @ rest) = (if length s < max_token then Some (s, rest) else None)"
proof -
  have "takeWhile (\<lambda>c. c \<noteq> CHR 0x0A) (s @ CHR 0x0A # rest) = s"
    using assms by (subst takeWhile_append2) (auto simp: one_line_def)
  then show ?thesis using assms by (simp add: scan_line_def line_end_def Let_def drop_cr_def one_line_def)
qed

lemma first_answer:
  assumes "one_line (eq q)" and "length (eq q) < max_token" and "dq (eq q) = Inr q"
  shows "\<exists>more_out. svc_answers dq ea views (eq q @ line_end @ line_end) = ea (resolve_service (views 0) q) @ line_end @ more_out"
proof -
  have "scan_all (eq q @ line_end @ line_end) = eq q # scan_all line_end"
    using scan_one_line [OF assms(1), of line_end] assms(2) by (subst scan_all.simps) simp
  then show ?thesis using assms(3) by (simp add: svc_answers_def serve_svc_conn_def)
qed

text \<open>C32: a query the guest asks over vsock is answered with exactly what the agent's resolver says, when the answer fits
  one scanner buffer; a longer answer, as of a service with more than about a thousand endpoints, is no answer.\<close>

theorem svc_channel_answers:
  assumes query: "one_line (eq q)" "length (eq q) < max_token" "dq (eq q) = Inr q"
    and answer: "one_line (ea (resolve_service (views 0) q))"
      "da (ea (resolve_service (views 0) q)) = Inr (resolve_service (views 0) q)"
  shows "query_svc_over_vsock DialDone None eq da (svc_answers dq ea views) q
    = (if length (ea (resolve_service (views 0) q)) < max_token then Inr (resolve_service (views 0) q)
       else Inl ''no answer from host'')"
proof -
  obtain rest where "svc_answers dq ea views (eq q @ line_end @ line_end) = ea (resolve_service (views 0) q) @ line_end @ rest"
    using first_answer [where eq = eq and dq = dq and q = q, OF query] by blast
  then show ?thesis
    using scan_one_line [OF answer(1), of rest] answer(2) by (simp add: query_svc_over_vsock_def)
qed

text \<open>behind an answer that does not fit, a new flow to the service is dropped, although the agent knows its ready
  endpoints.\<close>

theorem large_service_dropped:
  assumes flow: "parse_flow pkt = Some (vip, port, proto)"
    and q: "q = \<lparr>q_vip = vip, q_port = port, q_proto = proto, q_name = [], q_ns = []\<rparr>"
    and query: "one_line (eq q)" "length (eq q) < max_token" "dq (eq q) = Inr q"
    and answer: "one_line (ea (resolve_service (views 0) q))" "max_token \<le> length (ea (resolve_service (views 0) q))"
  shows "fst (serve_packet now later (query_svc_over_vsock DialDone None eq da (svc_answers dq ea views)) nft (Some pkt) (new_lb c m))
    = DropPacket"
proof -
  obtain rest where "svc_answers dq ea views (eq q @ line_end @ line_end) = ea (resolve_service (views 0) q) @ line_end @ rest"
    using first_answer [where eq = eq and dq = dq and q = q, OF query] by blast
  then have "query_svc_over_vsock DialDone None eq da (svc_answers dq ea views) q = Inl ''no answer from host''"
    using scan_one_line [OF answer(1), of rest] answer(2) by (simp add: query_svc_over_vsock_def)
  then show ?thesis using flow q
    by (simp add: serve_packet_def pick_def refresh_def new_lb_def fresh_entry_def Let_def)
qed

subsection \<open>Bringing the load balancer up\<close>

datatype lb_act = CidrRoute "string option" | InstallBase bytes bytes | OpenQueue | RegisterHandler

text \<open>The network as \<^verbatim>\<open>setupServiceLB\<close> finds it: the CIDR, the addresses of \<^verbatim>\<open>eth1\<close> that are global unicast, if the
  interface is there, and which steps fail.\<close>

record lb_world =
  lw_cidr :: "string \<Rightarrow> (string + (bytes \<times> bytes))"
  lw_eth1 :: "string list option"
  lw_fails :: "lb_act \<Rightarrow> string option"

definition setup_service_lb :: "lb_world \<Rightarrow> string \<Rightarrow> (string + svc_lb) \<times> lb_act list" where
  "setup_service_lb w cidr =
     (case lw_cidr w cidr of
        Inl e \<Rightarrow> (Inl (''parsing service cidr: '' @ e), [])
      | Inr (ip, msk) \<Rightarrow>
          (let route = (case lw_eth1 w of
                          None \<Rightarrow> []
                        | Some addrs \<Rightarrow>
                            (let r = CidrRoute (case addrs of [] \<Rightarrow> None | a # _ \<Rightarrow> Some a)
                             in if lw_fails w r = None then [r] else []));
               base = InstallBase ip msk
           in case lw_fails w base of
                Some e \<Rightarrow> (Inl e, route)
              | None \<Rightarrow>
                  (case lw_fails w OpenQueue of
                     Some e \<Rightarrow> (Inl (''opening nfqueue: '' @ e), route @ [base])
                   | None \<Rightarrow>
                       (case lw_fails w RegisterHandler of
                          Some e \<Rightarrow> (Inl (''registering nfqueue handler: '' @ e), route @ [base, OpenQueue])
                        | None \<Rightarrow> (Inr (new_lb ip msk), route @ [base, OpenQueue, RegisterHandler])))))"

text \<open>a load balancer that came up has its rules installed before the queue they send flows to is served, and starts empty; one
  that did not come up never serves the queue.\<close>

theorem lb_setup_order:
  "case setup_service_lb w cidr of
     (Inr lb, acts) \<Rightarrow> (\<exists>route. acts = route @ [InstallBase (lb_cidr lb) (lb_mask lb), OpenQueue, RegisterHandler]) \<and> lb_ok lb
   | (Inl e, acts) \<Rightarrow> RegisterHandler \<notin> set acts"
  by (auto simp: setup_service_lb_def Let_def new_lb_ok split: sum.split option.split list.split) (simp_all add: new_lb_def)

subsection \<open>The hypotheses hold\<close>

definition ask_web :: svc_query where
  "ask_web = \<lparr>q_vip = ''fd42::1'', q_port = 80, q_proto = ''tcp'', q_name = [], q_ns = []\<rparr>"

lemma small_answer_fits: "one_line ''{}''" "length ''{}'' < max_token"
  by (simp_all add: one_line_def max_token_def)

lemma svc_channel_answers_witness:
  "query_svc_over_vsock DialDone None (\<lambda>_. ''{}'') (\<lambda>_. Inr (resolve_service snapshot ask_web))
      (svc_answers (\<lambda>_. Inr ask_web) (\<lambda>_. ''{}'') (\<lambda>_. snapshot)) ask_web
    = Inr (resolve_service snapshot ask_web)"
  using svc_channel_answers [where eq = "\<lambda>_. ''{}''" and dq = "\<lambda>_. Inr ask_web" and ea = "\<lambda>_. ''{}''" and q = ask_web
      and da = "\<lambda>_. Inr (resolve_service snapshot ask_web)" and views = "\<lambda>_. snapshot"] small_answer_fits
  by simp

definition syn_to_web :: bytes where
  "syn_to_web = [96, 0, 0, 0, 0, 20, 6, 64] @ replicate 32 0 @ [0, 0, 0, 80]"

definition q_of :: "string \<times> int \<times> string \<Rightarrow> svc_query" where
  "q_of f = (case f of (vip, port, proto) \<Rightarrow> \<lparr>q_vip = vip, q_port = port, q_proto = proto, q_name = [], q_ns = []\<rparr>)"

lemma large_service_dropped_witness:
  "fst (serve_packet 0 0 (query_svc_over_vsock DialDone None (\<lambda>_. ''{}'') (\<lambda>_. Inl [])
       (svc_answers (\<lambda>_. Inr (q_of (the (parse_flow syn_to_web)))) (\<lambda>_. replicate max_token CHR ''x'') (\<lambda>_. snapshot)))
     NftOk (Some syn_to_web) (new_lb [] [])) = DropPacket"
proof -
  have "parse_flow syn_to_web \<noteq> None" by (simp add: parse_flow_def syn_to_web_def drop_bit_eq_div)
  then obtain f where f: "parse_flow syn_to_web = Some f" by auto
  obtain vip port proto where p: "f = (vip, port, proto)" by (cases f)
  have "one_line (replicate max_token CHR ''x'')" by (auto simp: one_line_def max_token_def)
  then show ?thesis
    using large_service_dropped [where eq = "\<lambda>_. ''{}''" and dq = "\<lambda>_. Inr (q_of f)" and ea = "\<lambda>_. replicate max_token CHR ''x''"
        and q = "q_of f" and pkt = syn_to_web and views = "\<lambda>_. snapshot"] f p small_answer_fits
    by (simp add: q_of_def)
qed

end
