(* ===== verification/Spec2Isabelle.thy ===== *)
theory Spec2Isabelle
  imports Sessions Supervision Erofs_Returns Agent_Services Agent_Status Agent_Probes Guest_Dns Guest_Root Static_Pods Vm_Boot Pki_Props Images Control_Props Kubelet_Server Exec_Path Boot_Dir Agent_Node Svc_Channel
begin

text \<open>
  kube-on-mac: a kubelet-like agent for macOS that runs every pod in a virtual machine of its own
  (\<^verbatim>\<open>src/poc/agent\<close>), the guest's init process and supervisor execd (\<^verbatim>\<open>src/poc/execd\<close>), and the generator of
  the cluster's certificates (\<^verbatim>\<open>src/poc/pki\<close>).

  \<^bold>\<open>The program.\<close>  The agent watches the API server and a directory of static manifests.  For a pod it pulls the
  images into a cache (each an EROFS file made from the image's tar stream), resolves the volumes, writes a boot
  directory with execd and a description of the pod, starts the network helpers and the VM, and follows the
  pod until it ends.  In the guest execd builds the container roots as overlays over the image devices, brings up the
  network, a service load balancer over nftables and a DNS proxy, mounts the volumes and supervises the containers.  The
  two speak over vsock: frames for exec, attach, probes, status, kill, port forwarding and shutdown; one line of
  JSON per service query.  The agent also serves the kubelet API: logs, exec, attach, port forwarding.

  \<^bold>\<open>The library.\<close>  Prelude (errors as sums with \<open>and_then\<close>, loops with early return, \<open>play\<close> and the locale
  \<open>machine\<close> for machines that emit effects, lists and words), Go_Bytes, Go_Strings, Go_Net and Host_Fs hold what
  the program uses of Go's standard library and of a file system: integers in bytes, strings, paths, addresses,
  names resolved through symbolic links (32 at most, as the kernel does; \<open>h_mkdir_all\<close> takes the length of its path as
  fuel, since every parent is shorter).

  \<^bold>\<open>The agent.\<close>
  \<^item> Erofs_Tree and Erofs_Image model \<^verbatim>\<open>erofs/erofs.go\<close>: the tree of inodes the tar stream builds, numbering, directory
    blocks, inode table and superblock.  Erofs_Inv (the tree stays well-formed), Erofs_Dirents (directory
    blocks decode to their entries), Erofs_Walk and Erofs_Table (numbering, and every inode and every file's bytes are
    found in the image where the table says) and Erofs_Returns (Convert returns unless an entry is linked to itself)
    hold the lemmas.  The queue loop of \<^verbatim>\<open>walk\<close> is bounded by the number of nodes, following hard links by the number
    of nodes as well; \<open>Diverges\<close> is the value when they are exceeded, and is shown to be unreachable.
  \<^item> Images models the image cache of \<^verbatim>\<open>images.go\<close> and \<^verbatim>\<open>untar\<close>; Volumes models \<^verbatim>\<open>volumes.go\<close>; both run on Host_Fs.
  \<^item> Kube_Types, Agent_Plan: the API objects read, \<^verbatim>\<open>preparePod\<close>, VM sizing, \<^verbatim>\<open>resolveVolumes\<close> and the
    description (\<^verbatim>\<open>makeRootfs\<close>); Boot_Dir: the boot directory, and that the guest runs what was planned.
  \<^item> Vm_Boot: the start of a VM with its helpers; Pod_Lifecycle, Pod_Props: \<^verbatim>\<open>reconcilePod\<close>, \<^verbatim>\<open>runPod\<close>,
    \<^verbatim>\<open>killVM\<close>, \<^verbatim>\<open>finalizePod\<close>, \<^verbatim>\<open>setPhase\<close> as a machine of interleaved goroutines over shared \<^verbatim>\<open>podVM\<close>
    objects; Agent_Status and Agent_Probes: statuses, phases, probe loops; Static_Pods: manifests, mirror pods,
    bootstrap addresses; Agent_Node: the node object, its lease and the heartbeat.
  \<^item> Agent_Services: the resolver over the watch caches; Kubelet_Server: authorization, paths, logs and the loop that
    follows a log while the guest writes it.

  \<^bold>\<open>The guest.\<close>
  \<^item> Guest_Spec, Supervisor: the description, and \<^verbatim>\<open>supervise\<close>, \<^verbatim>\<open>run\<close>, \<^verbatim>\<open>shutdownAll\<close> as step relations
    (\<open>cstep\<close> per container, \<open>pod_step\<close> per pod) and as functions; Supervision: reachable states, refinement of the
    loop by the steps, the exit within a bounded number of scheduled steps after a shutdown.
  \<^item> Guest_Root: container roots, \<^verbatim>\<open>lookPathInRoot\<close>, \<^verbatim>\<open>resolveInRoot\<close> (at most 32 links, as in the code); Guest_Boot:
    \<^verbatim>\<open>main\<close>, the network, \<^verbatim>\<open>resolv.conf\<close>, \<^verbatim>\<open>mountVolumes\<close>.
  \<^item> Frames, Sessions: the frame protocol of both programs and the session, request and status loops over it;
    Guest_Control, Control_Props: every handler of \<^verbatim>\<open>handlers.go\<close> over the supervised pod, with sessions, timers and
    output as events; Exec_Path: from an HTTP request at the agent to a process in a container.
  \<^item> Service_LB, LB_Props: \<^verbatim>\<open>services.go\<close> with its nftables rules; Svc_Channel: the wire between load balancer and
    resolver; Guest_Dns: the DNS proxy.

  \<^bold>\<open>Certificates.\<close>  Pki, Pki_Props: the four passes over the specs, key pairs, certificates and when they are made anew,
  kubeconfigs; signatures are symbolic.

  \<^bold>\<open>Interfaces\<close> are locales interpreted on the model: \<open>machine\<close> (a step that keeps a property of the effects so far
  and the state) on the guest's control channel, the followed log and the agent's goroutines; the frame transport on
  the writers and readers of both programs; \<open>endpoint_source\<close> on the agent's resolver, from which the load balancer and
  the DNS proxy draw.

  \<^bold>\<open>What is shown\<close>, in short: what crosses a boundary arrives as it was sent (frames, sessions, logs, descriptions,
  query answers); the image contains what the tar stream holds; the state machines keep their invariants and end;
  volumes, paths and images stay where they belong; the certificates converge; nothing is served to a client without the
  right certificate.  The error theorems show, each on the code as it is, where it does less than it means to.

  \<^bold>\<open>Parameters.\<close>  What is not under \<^verbatim>\<open>src/\<close> is an argument of the definitions: JSON and YAML coding, SHA-256, PEM and
  signatures, the container registry, the API server and its client (the watch caches are views), the DNS message
  package, netlink, nftables and nfqueue calls, the kernel's answers to mounts, process starts, and \<^verbatim>\<open>%q\<close>.  Time is an
  argument in seconds or nanoseconds, as the code uses it.

  \<^bold>\<open>Not modelled.\<close>  Flag parsing, logging and HTTP or TLS transport (no decision of the program depends on them); the
  informers and their event plumbing (the machines take the events); \<^verbatim>\<open>makeRootfs\<close> in the legacy directory mode, which
  clones a directory with \<^verbatim>\<open>cp\<close>; the terminal handling of \<^verbatim>\<open>handleExec\<close> once its process runs, whose streams are in
  Sessions; sub-second timing.
\<close>

end
